(* ===== verification/Ardu_Prelude.thy ===== *)
theory Ardu_Prelude
  imports Main "HOL-Library.Word"
begin

text \<open>
  Shared vocabulary of the development: the fixed-width integer types of the C sources, byte
  buffers with \<open>memcpy\<close>, C strings with \<open>strncpy\<close>, little-endian byte splitting, and the
  generic list lemmas the components use.

  Conventions used by every component. A pointer argument that the C code tests against
  \<open>NULL\<close> is an \<open>option\<close>. A status result \<open>int\<close> is kept as an \<open>int\<close> (0 and -1), or, where
  a failing call changes no state, is an \<open>option\<close> whose \<open>None\<close> is the status -1. A C string
  is the list of its characters before the terminating zero byte.
\<close>

unbundle bit_operations_syntax

type_synonym u8 = "8 word"
type_synonym u16 = "16 word"
type_synonym u32 = "32 word"
type_synonym u64 = "64 word"

named_theorems byte_simps \<open>splitting words into bytes and joining them again\<close>
named_theorems buf_simps \<open>reading and writing byte buffers\<close>

section \<open>Byte buffers\<close>

definition blit :: "'a list \<Rightarrow> nat \<Rightarrow> 'a list \<Rightarrow> 'a list" where
  "blit buf at bs = take at buf @ bs @ drop (at + length bs) buf"

definition slice :: "nat \<Rightarrow> nat \<Rightarrow> 'a list \<Rightarrow> 'a list" where
  "slice at n buf = take n (drop at buf)"

lemma length_blit [simp, buf_simps]:
  "at + length bs \<le> length buf \<Longrightarrow> length (blit buf at bs) = length buf"
  by (simp add: blit_def)

lemma take_blit_prefix [buf_simps]:
  "n \<le> at \<Longrightarrow> at \<le> length buf \<Longrightarrow> take n (blit buf at bs) = take n buf"
  by (simp add: blit_def min_def)

lemma take_blit_end [buf_simps]:
  "at \<le> length buf \<Longrightarrow> take (at + length bs) (blit buf at bs) = take at buf @ bs"
  by (simp add: blit_def)

lemma slice_blit [buf_simps]:
  "at \<le> length buf \<Longrightarrow> n = length bs \<Longrightarrow> slice at n (blit buf at bs) = bs"
  by (simp add: blit_def slice_def)

lemma drop_blit [buf_simps]:
  "at \<le> length buf \<Longrightarrow> drop (at + length bs) (blit buf at bs) = drop (at + length bs) buf"
  by (simp add: blit_def)

lemma blit_blit: "i + length a + length b \<le> length d \<Longrightarrow> blit (blit d i a) (i + length a) b = blit d i (a @ b)"
  by (simp add: blit_def add_ac)

lemma length_slice [simp, buf_simps]:
  "at + n \<le> length buf \<Longrightarrow> length (slice at n buf) = n"
  by (simp add: slice_def)

section \<open>C strings in fixed-size arrays\<close>

definition strncpy0 :: "nat \<Rightarrow> string \<Rightarrow> string" where
  \<comment> \<open>\<open>strncpy (dst, s, n)\<close> into a zeroed array of at least \<open>n + 1\<close> characters, read back as a
     C string\<close>
  "strncpy0 n s = take n s"

lemma length_strncpy0 [simp]: "length (strncpy0 n s) \<le> n"
  by (simp add: strncpy0_def)

lemma strncpy0_id [simp]: "length s \<le> n \<Longrightarrow> strncpy0 n s = s"
  by (simp add: strncpy0_def)

lemma strncpy0_idem [simp]: "strncpy0 n (strncpy0 n s) = strncpy0 n s"
  by (simp add: strncpy0_def)

lemma u32_bound: "unat (w :: u32) < 2 ^ 32"
  using unsigned_less [of w, where 'a = nat] by simp

lemma u32_inc:
  assumes "w \<noteq> 0xFFFFFFFF"
  shows "unat ((w :: u32) + 1) = unat w + 1"
proof -
  have "unat w \<noteq> unat (0xFFFFFFFF :: u32)" using assms by (metis word_unat_eq_iff)
  then show ?thesis using u32_bound [of w] by (simp add: unat_word_ariths)
qed

lemma u32_add: "unat (v :: u32) + unat w < 2 ^ 32 \<Longrightarrow> unat (v + w) = unat v + unat w"
  by (simp add: unat_word_ariths)

section \<open>Little-endian bytes\<close>

definition lo8 :: "'a::len word \<Rightarrow> u8" where
  "lo8 w = ucast (w AND 0xff)"

definition byte_at :: "nat \<Rightarrow> 'a::len word \<Rightarrow> u8" where
  "byte_at k w = ucast (drop_bit (8 * k) w AND 0xff)"

definition le16 :: "u8 \<Rightarrow> u8 \<Rightarrow> u16" where
  "le16 a b = ucast a OR push_bit 8 (ucast b)"

definition le32 :: "u8 \<Rightarrow> u8 \<Rightarrow> u8 \<Rightarrow> u8 \<Rightarrow> u32" where
  "le32 a b c d = ucast a OR push_bit 8 (ucast b) OR push_bit 16 (ucast c) OR push_bit 24 (ucast d)"

lemma word_0xff_mask: "(0xff :: 'a::len word) = mask 8"
  by (simp add: mask_eq_exp_minus_1)

lemma bit_byte_at: "bit (byte_at k w) n \<longleftrightarrow> n < 8 \<and> bit w (8 * k + n)"
  unfolding byte_at_def word_0xff_mask
  by (auto simp: bit_simps dest: bit_imp_le_length)

lemma bit_le16:
  "bit (le16 a b) n \<longleftrightarrow> (if n < 8 then bit a n else n < 16 \<and> bit b (n - 8))"
  unfolding le16_def
  by (auto simp: bit_simps dest: bit_imp_le_length)

lemma lo8_byte_at: "lo8 w = byte_at 0 w"
  by (simp add: lo8_def byte_at_def)

lemma le16_split [byte_simps]:
  "le16 (byte_at 0 w) (byte_at 1 w) = w" "le16 (byte_at 0 w) (byte_at (Suc 0) w) = w"
  by (rule bit_word_eqI; auto simp: bit_le16 bit_byte_at)+

lemma byte_at_le16 [byte_simps]:
  "byte_at 0 (le16 a b) = a" "byte_at 1 (le16 a b) = b" "byte_at (Suc 0) (le16 a b) = b"
  by (rule bit_word_eqI; auto simp: bit_le16 bit_byte_at dest: bit_imp_le_length)+

lemma bit_le32:
  "bit (le32 a b c d) n \<longleftrightarrow>
     (if n < 8 then bit a n else if n < 16 then bit b (n - 8)
      else if n < 24 then bit c (n - 16) else n < 32 \<and> bit d (n - 24))"
  unfolding le32_def
  by (auto simp: bit_simps dest: bit_imp_le_length)

lemma le32_split [byte_simps]:
  "le32 (byte_at 0 w) (byte_at 1 w) (byte_at 2 w) (byte_at 3 w) = w"
  by (rule bit_word_eqI) (auto simp: bit_le32 bit_byte_at)

lemma unat_of_nat_small: "n < 2 ^ LENGTH('a) \<Longrightarrow> unat (of_nat n :: 'a::len word) = n"
  by (simp add: unsigned_of_nat take_bit_nat_eq_self)

lemma le32_sum:
  "le32 a b c d = ucast a + 256 * ucast b + 65536 * ucast c + 16777216 * ucast d"
proof -
  have p: "2 ^ k * w = push_bit k w" for k and w :: u32 by (simp add: push_bit_eq_mult mult.commute)
  have b: "bit (ucast x :: u32) n \<longleftrightarrow> bit x n" for x :: u8 and n
    by (auto simp: bit_simps dest: bit_imp_le_length)
  have l: "bit x n \<Longrightarrow> n < 8" for x :: u8 and n by (auto dest: bit_imp_le_length)
  have 1: "ucast a OR push_bit 8 (ucast b) = (ucast a + push_bit 8 (ucast b) :: u32)"
    by (rule disjunctive_add [symmetric]) (auto simp: bit_push_bit_iff b dest: l)
  have 2: "(ucast a OR push_bit 8 (ucast b)) OR push_bit 16 (ucast c)
      = ((ucast a OR push_bit 8 (ucast b)) + push_bit 16 (ucast c) :: u32)"
    by (rule disjunctive_add [symmetric]) (auto simp: bit_push_bit_iff bit_or_iff b dest!: l)
  have 3: "((ucast a OR push_bit 8 (ucast b)) OR push_bit 16 (ucast c)) OR push_bit 24 (ucast d)
      = (((ucast a OR push_bit 8 (ucast b)) OR push_bit 16 (ucast c)) + push_bit 24 (ucast d) :: u32)"
    by (rule disjunctive_add [symmetric]) (auto simp: bit_push_bit_iff bit_or_iff b dest!: l)
  have "le32 a b c d = ucast a + push_bit 8 (ucast b) + push_bit 16 (ucast c) + push_bit 24 (ucast d)"
    unfolding le32_def or.assoc [symmetric] by (subst 3, subst 2, subst 1, rule refl)
  then show ?thesis using p [of 8] p [of 16] p [of 24] by simp
qed

lemma ucast_inc:
  fixes b :: u8
  shows "b + 1 \<noteq> 0 \<Longrightarrow> ucast (b + 1) = (ucast b + 1 :: u32)"
    "b + 1 = 0 \<Longrightarrow> (ucast b :: u32) = 255"
proof -
  assume "b + 1 \<noteq> 0"
  then have "unat (1 + b) = Suc (unat b)" by (intro unatSuc) (simp add: add.commute)
  then have "(of_nat (unat (b + 1)) :: u32) = of_nat (unat b) + 1" by (simp add: add.commute)
  then show "ucast (b + 1) = (ucast b + 1 :: u32)" by (simp only: of_nat_unat)
next
  assume "b + 1 = 0"
  then have "b = -1" by (simp add: eq_neg_iff_add_eq_0)
  moreover have "(-1 :: u8) = 255" by simp
  ultimately have "b = 255" by (rule trans)
  then show "(ucast b :: u32) = 255" by simp
qed

lemma byte_at_le32 [byte_simps]:
  "byte_at 0 (le32 a b c d) = a" "byte_at 1 (le32 a b c d) = b" "byte_at (Suc 0) (le32 a b c d) = b"
  "byte_at 2 (le32 a b c d) = c" "byte_at 3 (le32 a b c d) = d"
  by (rule bit_word_eqI; auto simp: bit_le32 bit_byte_at dest: bit_imp_le_length)+

lemma le32_inc:
  "le32 b0 b1 b2 b3 + 1 =
    (if b0 + 1 \<noteq> 0 then le32 (b0 + 1) b1 b2 b3 else if b1 + 1 \<noteq> 0 then le32 0 (b1 + 1) b2 b3
     else if b2 + 1 \<noteq> 0 then le32 0 0 (b2 + 1) b3 else le32 0 0 0 (b3 + 1))"
proof -
  have "(16777216 :: u32) * ucast (b3 + 1) = 16777216 * ucast b3 + 16777216"
    by (cases "b3 + 1 = 0") (simp_all add: ucast_inc distrib_left)
  then show ?thesis
    by (simp add: le32_sum ucast_inc distrib_left)
qed

text \<open>Integers in structures, as little-endian bytes.\<close>

definition u16_bytes :: "u16 \<Rightarrow> u8 list" where
  "u16_bytes w = [byte_at 0 w, byte_at 1 w]"

definition u32_bytes :: "u32 \<Rightarrow> u8 list" where
  "u32_bytes w = [byte_at 0 w, byte_at 1 w, byte_at 2 w, byte_at 3 w]"

definition u16_at :: "u8 list \<Rightarrow> nat \<Rightarrow> u16" where
  "u16_at bs i = le16 (bs ! i) (bs ! (i + 1))"

definition u32_at :: "u8 list \<Rightarrow> nat \<Rightarrow> u32" where
  "u32_at bs i = le32 (bs ! i) (bs ! (i + 1)) (bs ! (i + 2)) (bs ! (i + 3))"

lemma length_bytes [simp]: "length (u32_bytes w) = 4" "length (u16_bytes v) = 2"
  by (simp_all add: u32_bytes_def u16_bytes_def)

lemma u32_at_bytes: "d ! a = byte_at 0 w \<Longrightarrow> d ! (a + 1) = byte_at 1 w \<Longrightarrow> d ! (a + 2) = byte_at 2 w \<Longrightarrow> d ! (a + 3) = byte_at 3 w \<Longrightarrow>
    u32_at d a = w"
  unfolding u32_at_def by (simp only: le32_split)

lemma fold_update_upt:
  "n \<le> length xs \<Longrightarrow> fold (\<lambda>i s. s[i := f i (s ! i)]) [0..<n] xs
    = map (\<lambda>i. f i (xs ! i)) [0..<n] @ drop n xs"
proof (induction n)
  case (Suc n)
  then have "drop n xs = xs ! n # drop (Suc n) xs" by (simp add: Cons_nth_drop_Suc)
  then show ?case using Suc by (simp add: list_update_append nth_append)
qed simp

lemma word_xor_cancel_right [simp]: "(a XOR b = c XOR b) \<longleftrightarrow> a = (c :: 'a::len word)"
proof
  assume "a XOR b = c XOR b"
  then have "(a XOR b) XOR b = (c XOR b) XOR b" by (rule arg_cong)
  then show "a = c" by (simp only: xor.assoc xor_self_eq xor.right_neutral)
qed simp

lemma word_xor_cancel_left [simp]: "(b XOR a = b XOR c) \<longleftrightarrow> a = (c :: 'a::len word)"
  by (simp add: xor.commute [of b])

lemma word_xor_eq_0 [simp]: "a XOR b = 0 \<longleftrightarrow> a = (b :: 'a::len word)"
  using word_xor_cancel_right [of a b b] by simp

definition opt_buf :: "'a list option \<Rightarrow> 'a list" where
  "opt_buf b = (case b of None \<Rightarrow> [] | Some xs \<Rightarrow> xs)"

lemma opt_buf_simps [simp]: "opt_buf None = []" "opt_buf (Some xs) = xs"
  by (simp_all add: opt_buf_def)

section \<open>Array loops\<close>

lemma nth_update_if: "i < length xs \<Longrightarrow> xs[k := x] ! i = (if k = i then x else xs ! i)"
  by (cases "k = i") simp_all

text \<open>The search loop \<open>for (i = 0; i < n; i++) if (P i) break;\<close>.\<close>

lemma find_upt_None: "List.find P [0..<n] = None \<longleftrightarrow> (\<forall>i<n. \<not> P i)"
  by (auto simp: find_None_iff)

lemma find_upt_Some: "List.find P [0..<n] = Some i \<longleftrightarrow> i < n \<and> P i \<and> (\<forall>j<i. \<not> P j)"
  by (auto simp: find_Some_iff)

lemma find_append:
  "List.find P (xs @ ys) = (case List.find P xs of None \<Rightarrow> List.find P ys | Some x \<Rightarrow> Some x)"
  by (induction xs) auto

lemma find_upt_cong: "(\<And>i. i < n \<Longrightarrow> P i = Q i) \<Longrightarrow> List.find P [0..<n] = List.find Q [0..<n]"
  by (rule find_cong) auto

text \<open>The removal loop \<open>for (j = i; j < m; j++) xs[j] = xs[j + 1];\<close>.\<close>

lemma fold_shift_left:
  "i \<le> m \<Longrightarrow> m < length xs \<Longrightarrow> fold (\<lambda>j xs. xs[j := xs ! (j + 1)]) [i..<m] xs
    = take i xs @ take (m - i) (drop (Suc i) xs) @ drop m xs"
proof (induction m)
  case (Suc m)
  show ?case
  proof (cases "i \<le> m")
    case True
    let ?ys = "take i xs @ take (m - i) (drop (Suc i) xs) @ drop m xs"
    have d: "drop m xs = xs ! m # xs ! Suc m # drop (Suc (Suc m)) xs"
      using Suc.prems by (simp add: Cons_nth_drop_Suc)
    have l: "length (take i xs @ take (m - i) (drop (Suc i) xs)) = m" using True Suc.prems by simp
    have "((take i xs @ take (m - i) (drop (Suc i) xs)) @ drop m xs) ! Suc m = xs ! Suc m"
      using Suc.prems by (simp only: nth_append l) simp
    then have "?ys ! Suc m = xs ! Suc m" by simp
    moreover have "?ys[m := xs ! Suc m] = take i xs @ take (m - i) (drop (Suc i) xs) @ xs ! Suc m # drop (Suc m) xs"
    proof -
      have "(as @ bs)[m := x] = as @ bs[0 := x]" if "length as = m" for as bs :: "'a list" and x
        using that by (simp add: list_update_append)
      from this [OF l] have "((take i xs @ take (m - i) (drop (Suc i) xs)) @ drop m xs)[m := xs ! Suc m]
          = (take i xs @ take (m - i) (drop (Suc i) xs)) @ (drop m xs)[0 := xs ! Suc m]" .
      moreover have "drop (Suc m) xs = xs ! Suc m # drop (Suc (Suc m)) xs"
        using Suc.prems by (simp add: Cons_nth_drop_Suc)
      ultimately show ?thesis using d by simp
    qed
    moreover have "take (Suc m - i) (drop (Suc i) xs) = take (m - i) (drop (Suc i) xs) @ [xs ! Suc m]"
      using True Suc.prems by (simp add: Suc_diff_le take_Suc_conv_app_nth)
    ultimately show ?thesis
      using Suc True by simp
  next
    case False
    then have "i = Suc m" using Suc.prems by simp
    then show ?thesis by simp
  qed
qed simp

lemma length_fold_update [simp]:
  "length (fold (\<lambda>i w. w[i := g i w]) js v) = length v"
  by (induction js arbitrary: v) auto

lemma sorted_wrt_remove:
  assumes "sorted_wrt P xs"
  shows "sorted_wrt P (take i xs @ drop (Suc i) xs)"
proof -
  have "sorted_wrt P (take i xs @ drop i xs)" using assms by simp
  moreover have "set (drop (Suc i) xs) \<subseteq> set (drop i xs)" by (rule set_drop_subset_set_drop) simp
  moreover have "sorted_wrt P (drop (Suc i) xs)" using assms by (rule sorted_wrt_drop)
  ultimately show ?thesis unfolding sorted_wrt_append by blast
qed

lemma take_shift_left:
  "i < n \<Longrightarrow> n \<le> length xs \<Longrightarrow> take (n - 1) (fold (\<lambda>j xs. xs[j := xs ! (j + 1)]) [i..<n - 1] xs)
    = take i (take n xs) @ drop (Suc i) (take n xs)"
proof -
  assume h: "i < n" "n \<le> length xs"
  then obtain m where m: "n = Suc m" "i \<le> m" by (cases n) auto
  have l: "length (take i xs @ take (m - i) (drop (Suc i) xs)) = m" using h m by simp
  have "take m (as @ bs) = as" if "length as = m" for as bs :: "'a list" using that by simp
  from this [OF l] have "take m ((take i xs @ take (m - i) (drop (Suc i) xs)) @ drop m xs)
      = take i xs @ take (m - i) (drop (Suc i) xs)" .
  then show ?thesis
    using fold_shift_left [of i m xs] h m by (simp add: drop_take)
qed

end
