(* ===== verification/Link_Frame.thy ===== *)
theory Link_Frame
  imports Ardu_Prelude
begin

text \<open>
  The link frame codec, \<open>link/link_frame.c\<close>: CRC-16/CCITT, frame encode and decode, the
  tag-length-value payload fields and the byte-stream reassembler. A frame pointer or buffer
  pointer is an \<open>option\<close>; buffers are byte lists of their allocated size.
\<close>

definition LINK_MAGIC :: u16 where [simp]: "LINK_MAGIC = 0xAB07"
definition LINK_VERSION :: u8 where [simp]: "LINK_VERSION = 1"
definition LINK_MAX_PAYLOAD :: nat where [simp]: "LINK_MAX_PAYLOAD = 240"
definition LINK_HEADER_LEN :: nat where [simp]: "LINK_HEADER_LEN = 9"
definition LINK_MAX_FRAME :: nat where [simp]: "LINK_MAX_FRAME = 251"

record link_frame =
  fr_version :: u8
  fr_flags :: u8
  fr_channel :: u8
  fr_msg_id :: u16
  fr_length :: u16
  fr_payload :: "u8 list"

record link_stream =
  st_buf :: "u8 list"
  st_len :: nat

section \<open>Definitions\<close>

subsection \<open>CRC-16\<close>

definition crc16_bit :: "u16 \<Rightarrow> u16" where
  "crc16_bit crc = (if crc AND 0x8000 \<noteq> 0 then push_bit 1 crc XOR 0x1021 else push_bit 1 crc)"

definition crc16_byte :: "u16 \<Rightarrow> u8 \<Rightarrow> u16" where
  "crc16_byte crc b = (crc16_bit ^^ 8) (crc XOR push_bit 8 (ucast b))"

definition link_crc16 :: "u8 list \<Rightarrow> nat \<Rightarrow> u16" where
  "link_crc16 data len = foldl crc16_byte 0xffff (take len data)"

subsection \<open>Frame encode and decode\<close>

definition link_frame_zero :: link_frame where
  "link_frame_zero = \<lparr>fr_version = 0, fr_flags = 0, fr_channel = 0, fr_msg_id = 0, fr_length = 0,
     fr_payload = replicate LINK_MAX_PAYLOAD 0\<rparr>"

definition link_frame_header :: "link_frame \<Rightarrow> u8 list" where
  "link_frame_header f =
     [byte_at 0 LINK_MAGIC, byte_at 1 LINK_MAGIC,
      (if fr_version f \<noteq> 0 then fr_version f else LINK_VERSION),
      fr_flags f, fr_channel f,
      byte_at 0 (fr_msg_id f), byte_at 1 (fr_msg_id f),
      byte_at 0 (fr_length f), byte_at 1 (fr_length f)]"

definition link_frame_encode ::
    "link_frame option \<Rightarrow> u8 list option \<Rightarrow> nat \<Rightarrow> int \<times> u8 list option" where
  "link_frame_encode frame out cap =
     (case (frame, out) of
        (Some f, Some buf) \<Rightarrow>
          (if unat (fr_length f) > LINK_MAX_PAYLOAD then (-1, out)
           else let n = unat (fr_length f); total = LINK_HEADER_LEN + n + 2 in
             if cap < total then (-1, out)
             else let b1 = blit buf 0 (link_frame_header f);
                      b2 = blit b1 LINK_HEADER_LEN (take n (fr_payload f));
                      crc = link_crc16 b2 (LINK_HEADER_LEN + n);
                      b3 = blit b2 (LINK_HEADER_LEN + n) [byte_at 0 crc, byte_at 1 crc]
                  in (int total, Some b3))
      | _ \<Rightarrow> (-1, out))"

definition link_frame_decode ::
    "u8 list option \<Rightarrow> nat \<Rightarrow> link_frame option \<Rightarrow> int \<times> link_frame option" where
  "link_frame_decode inp n frame =
     (case (inp, frame) of
        (Some b, Some _) \<Rightarrow>
          (if n < LINK_HEADER_LEN + 2 then (-1, frame)
           else if b ! 0 \<noteq> byte_at 0 LINK_MAGIC \<or> b ! 1 \<noteq> byte_at 1 LINK_MAGIC then (-1, frame)
           else let len = le16 (b ! 7) (b ! 8); l = unat len in
             if l > LINK_MAX_PAYLOAD \<or> n < LINK_HEADER_LEN + l + 2 then (-1, frame)
             else let crc = link_crc16 b (LINK_HEADER_LEN + l);
                      got = le16 (b ! (LINK_HEADER_LEN + l)) (b ! (LINK_HEADER_LEN + l + 1)) in
               if crc \<noteq> got then (-1, frame)
               else (int (LINK_HEADER_LEN + l + 2),
                     Some \<lparr>fr_version = b ! 2, fr_flags = b ! 3, fr_channel = b ! 4,
                       fr_msg_id = le16 (b ! 5) (b ! 6), fr_length = len,
                       fr_payload = blit (replicate LINK_MAX_PAYLOAD 0) 0
                         (slice LINK_HEADER_LEN l b)\<rparr>))
      | _ \<Rightarrow> (-1, frame))"

subsection \<open>Tag-length-value fields\<close>

definition link_tlv_put ::
    "u8 list option \<Rightarrow> nat \<Rightarrow> nat option \<Rightarrow> u8 \<Rightarrow> u8 list option \<Rightarrow> u8 \<Rightarrow> (u8 list \<times> nat) option" where
  "link_tlv_put buf cap used tag val len =
     (case (buf, used) of
        (Some b, Some at) \<Rightarrow>
          (if len > 0 \<and> val = None then None
           else if at + 2 + unat len > cap then None
           else let b1 = b[at := tag, at + 1 := len];
                    b2 = (case val of None \<Rightarrow> b1 | Some v \<Rightarrow> blit b1 (at + 2) (take (unat len) v))
                in Some (b2, at + 2 + unat len))
      | _ \<Rightarrow> None)"

definition link_tlv_put_u8 ::
    "u8 list option \<Rightarrow> nat \<Rightarrow> nat option \<Rightarrow> u8 \<Rightarrow> u8 \<Rightarrow> (u8 list \<times> nat) option" where
  "link_tlv_put_u8 buf cap used tag v = link_tlv_put buf cap used tag (Some [v]) 1"

definition link_tlv_put_u16 ::
    "u8 list option \<Rightarrow> nat \<Rightarrow> nat option \<Rightarrow> u8 \<Rightarrow> u16 \<Rightarrow> (u8 list \<times> nat) option" where
  "link_tlv_put_u16 buf cap used tag v =
     link_tlv_put buf cap used tag (Some [byte_at 0 v, byte_at 1 v]) 2"

definition link_tlv_put_u32 ::
    "u8 list option \<Rightarrow> nat \<Rightarrow> nat option \<Rightarrow> u8 \<Rightarrow> u32 \<Rightarrow> (u8 list \<times> nat) option" where
  "link_tlv_put_u32 buf cap used tag v =
     link_tlv_put buf cap used tag (Some [byte_at 0 v, byte_at 1 v, byte_at 2 v, byte_at 3 v]) 4"

definition link_tlv_put_str ::
    "u8 list option \<Rightarrow> nat \<Rightarrow> nat option \<Rightarrow> u8 \<Rightarrow> u8 list option \<Rightarrow> (u8 list \<times> nat) option" where
  "link_tlv_put_str buf cap used tag text =
     (let t = (case text of None \<Rightarrow> [] | Some s \<Rightarrow> s) in
      if length t > 255 then None
      else link_tlv_put buf cap used tag (Some t) (of_nat (length t)))"

text \<open>
  \<open>link_tlv_get\<close> returns the bytes it copies to \<open>out\<close> (their number is what it stores in
  \<open>*out_len\<close>); \<open>out\<close> and \<open>out_len\<close> say whether these pointers are non-null.
\<close>

function link_tlv_scan :: "u8 list \<Rightarrow> nat \<Rightarrow> u8 \<Rightarrow> bool \<Rightarrow> nat \<Rightarrow> nat \<Rightarrow> u8 list option" where
  "link_tlv_scan b n tag out cap i =
     (if i + 2 \<le> n then
        let t = b ! i; len = b ! (i + 1) in
        if i + 2 + unat len > n then None
        else if t = tag then
          (if unat len > cap \<or> (len > 0 \<and> \<not> out) then None else Some (slice (i + 2) (unat len) b))
        else link_tlv_scan b n tag out cap (i + 2 + unat len)
      else None)"
  by pat_completeness auto
termination
  by (relation "measure (\<lambda>(b, n, tag, out, cap, i). n - i)") auto

declare link_tlv_scan.simps [simp del]

definition link_tlv_get ::
    "u8 list option \<Rightarrow> nat \<Rightarrow> u8 \<Rightarrow> bool \<Rightarrow> nat \<Rightarrow> bool \<Rightarrow> u8 list option" where
  "link_tlv_get buf n tag out cap out_len =
     (case buf of
        None \<Rightarrow> None
      | Some b \<Rightarrow> if \<not> out_len then None else link_tlv_scan b n tag out cap 0)"

subsection \<open>Stream reassembly\<close>

definition magic_at :: "u8 list \<Rightarrow> nat \<Rightarrow> nat \<Rightarrow> bool" where
  "magic_at buf len i \<longleftrightarrow>
     i + 1 < len \<and> buf ! i = byte_at 0 LINK_MAGIC \<and> buf ! (i + 1) = byte_at 1 LINK_MAGIC"

definition stream_shift :: "nat \<Rightarrow> link_stream \<Rightarrow> link_stream" where
  \<comment> \<open>\<open>memmove(buf, buf + k, len - k); len -= k\<close>\<close>
  "stream_shift k s =
     s\<lparr>st_buf := blit (st_buf s) 0 (slice k (st_len s - k) (st_buf s)), st_len := st_len s - k\<rparr>"

definition stream_put :: "link_stream \<Rightarrow> u8 \<Rightarrow> link_stream" where
  "stream_put s b =
     (let s1 = (if st_len s \<ge> LINK_MAX_FRAME then stream_shift 1 s else s)
      in s1\<lparr>st_buf := (st_buf s1)[st_len s1 := b], st_len := st_len s1 + 1\<rparr>)"

function stream_seek :: "u8 list \<Rightarrow> nat \<Rightarrow> nat \<Rightarrow> nat" where
  "stream_seek buf len start =
     (if start + 1 < len \<and> \<not> magic_at buf len start then stream_seek buf len (start + 1)
      else start)"
  by pat_completeness auto
termination
  by (relation "measure (\<lambda>(buf, len, start). len - start)") auto

declare stream_seek.simps [simp del]

definition stream_sync :: "link_stream \<Rightarrow> link_stream" where
  "stream_sync s =
     (let start = stream_seek (st_buf s) (st_len s) 0
      in if start > 0 then stream_shift start s else s)"

lemma st_len_stream_sync: "st_len (stream_sync s) \<le> st_len s"
  by (simp add: stream_sync_def stream_shift_def Let_def)

lemma link_frame_decode_pos:
  "link_frame_decode inp n frame = (r, f) \<Longrightarrow> \<not> r < 0 \<Longrightarrow> 11 \<le> r"
  by (auto simp: link_frame_decode_def Let_def split: option.splits if_splits)

function link_stream_drain ::
    "(u8 list \<Rightarrow> nat \<Rightarrow> 'u \<Rightarrow> int \<times> 'u) \<Rightarrow> link_stream \<Rightarrow> 'u \<Rightarrow> int \<times> link_stream \<times> 'u" where
  "link_stream_drain on_frame s user =
     (let s1 = stream_sync s in
      if st_len s1 < LINK_HEADER_LEN then (0, s1, user)
      else let l = unat (le16 (st_buf s1 ! 7) (st_buf s1 ! 8)) in
        if l > LINK_MAX_PAYLOAD then link_stream_drain on_frame (stream_shift 1 s1) user
        else let total = LINK_HEADER_LEN + l + 2 in
          if st_len s1 < total then (0, s1, user)
          else let used = fst (link_frame_decode (Some (st_buf s1)) total (Some link_frame_zero)) in
            if used < 0 then link_stream_drain on_frame (stream_shift 1 s1) user
            else let r = on_frame (st_buf s1) (nat used) user in
              if fst r \<noteq> 0 then (-1, s1, snd r)
              else link_stream_drain on_frame (stream_shift (nat used) s1) (snd r))"
  by pat_completeness auto
termination
proof (relation "measure (\<lambda>(on_frame, s, user). st_len s)", goal_cases)
  case 1
  show ?case by simp
next
  case (2 on_frame s user s1 l)
  then show ?case using st_len_stream_sync [of s] by (simp add: stream_shift_def)
next
  case (3 on_frame s user s1 l total used)
  then show ?case using st_len_stream_sync [of s] by (simp add: stream_shift_def)
next
  case (4 on_frame s user s1 l total used r)
  then have "11 \<le> used"
    by (metis link_frame_decode_pos prod.collapse)
  with 4 show ?case using st_len_stream_sync [of s] by (simp add: stream_shift_def)
qed

declare link_stream_drain.simps [simp del]

definition link_stream_push ::
    "link_stream option \<Rightarrow> u8 list option \<Rightarrow> nat \<Rightarrow>
     (u8 list \<Rightarrow> nat \<Rightarrow> 'u \<Rightarrow> int \<times> 'u) option \<Rightarrow> 'u \<Rightarrow> int \<times> link_stream option \<times> 'u" where
  "link_stream_push stream data n on_frame user =
     (case (stream, on_frame) of
        (Some s, Some cb) \<Rightarrow>
          (if n > 0 \<and> data = None then (-1, stream, user)
           else let s1 = (case data of None \<Rightarrow> s | Some d \<Rightarrow> foldl stream_put s (take n d));
                    r = link_stream_drain cb s1 user
                in (fst r, Some (fst (snd r)), snd (snd r)))
      | _ \<Rightarrow> (-1, stream, user))"

section \<open>The checksum\<close>

text \<open>
  One shift step is injective, because bit 0 of the result tells whether the polynomial was
  added. So a whole byte step is injective in the register and in the byte.
\<close>

lemma and_0x8000_iff: "(c AND 0x8000 :: u16) \<noteq> 0 \<longleftrightarrow> bit c 15"
proof -
  have "(0x8000 :: u16) = 2 ^ 15" by simp
  then show ?thesis by (simp only: and_exp_eq_0_iff_not_bit not_not)
qed

lemma bit_shl1: "bit (push_bit 1 c) n \<longleftrightarrow> 0 < n \<and> n < 16 \<and> bit c (n - 1)" for c :: u16
  by (cases n) (simp_all only: bit_push_bit_iff possible_bit_word, simp_all)

lemma crc16_bit_0: "bit (crc16_bit c) 0 \<longleftrightarrow> bit c 15"
proof -
  have k: "bit (0x1021 :: u16) 0" by simp
  have z: "\<not> bit (push_bit 1 c) 0" by (simp only: bit_shl1) simp
  show ?thesis
    by (cases "bit c 15") (simp_all only: crc16_bit_def and_0x8000_iff bit_xor_iff k z if_True if_False
        simp_thms)
qed

lemma crc16_bit_inj: "crc16_bit c = crc16_bit d \<longleftrightarrow> c = d"
proof
  assume eq: "crc16_bit c = crc16_bit d"
  then have top: "bit c 15 \<longleftrightarrow> bit d 15"
    using crc16_bit_0 [of c] crc16_bit_0 [of d] by (simp only:)
  have "push_bit 1 c = push_bit 1 d"
    using eq top
    by (auto simp only: crc16_bit_def and_0x8000_iff word_xor_cancel_right split: if_splits)
  then have sh: "bit (push_bit 1 c) (Suc n) \<longleftrightarrow> bit (push_bit 1 d) (Suc n)" for n
    by (simp only:)
  show "c = d"
  proof (rule bit_word_eqI)
    fix n assume n: "n < LENGTH(16)"
    show "bit c n \<longleftrightarrow> bit d n"
    proof (cases "n = 15")
      case True
      with top show ?thesis by simp
    next
      case False
      with n sh [of n] show ?thesis by (simp only: bit_shl1) auto
    qed
  qed
qed simp

lemma crc16_bits_inj: "(crc16_bit ^^ n) c = (crc16_bit ^^ n) d \<longleftrightarrow> c = d"
  by (induction n) (simp_all add: crc16_bit_inj)

lemma crc16_byte_reg_inj: "crc16_byte c b = crc16_byte d b \<longleftrightarrow> c = d"
  by (simp add: crc16_byte_def crc16_bits_inj)

lemma crc16_byte_inj: "crc16_byte c a = crc16_byte c b \<longleftrightarrow> a = b"
proof -
  have "push_bit 8 (ucast a :: u16) = push_bit 8 (ucast b) \<Longrightarrow> a = b"
  proof (rule bit_word_eqI)
    fix n
    assume h: "push_bit 8 (ucast a :: u16) = push_bit 8 (ucast b)" and "n < LENGTH(8)"
    have "bit (push_bit 8 (ucast a :: u16)) (n + 8) \<longleftrightarrow> bit (push_bit 8 (ucast b :: u16)) (n + 8)"
      by (simp only: h)
    then show "bit a n \<longleftrightarrow> bit b n"
      using \<open>n < LENGTH(8)\<close> by (simp add: bit_simps)
  qed
  then show ?thesis by (auto simp: crc16_byte_def crc16_bits_inj)
qed

lemma foldl_crc16_inj: "foldl crc16_byte c xs = foldl crc16_byte d xs \<longleftrightarrow> c = d"
  by (induction xs arbitrary: c d) (simp_all add: crc16_byte_reg_inj)

text \<open>
  The shift step is linear over XOR, and a register whose high byte is zero is shifted by eight
  places without feedback. So two byte steps are sixteen shift steps on the register XORed with
  the two bytes, which is injective in the pair of bytes.
\<close>

lemma push_bit_1_xor: "push_bit 1 (c XOR d) = push_bit 1 c XOR push_bit 1 d" for c d :: u16
  by (rule push_bit_xor)

lemma crc16_bit_xor: "crc16_bit (c XOR d) = crc16_bit c XOR crc16_bit d"
proof -
  have top: "bit (c XOR d) 15 \<longleftrightarrow> bit c 15 \<noteq> bit d 15"
    by (simp only: bit_xor_iff)
  show ?thesis
    unfolding crc16_bit_def and_0x8000_iff top push_bit_1_xor
    by (cases "bit c 15"; cases "bit d 15")
      (simp_all only: simp_thms if_True if_False xor.assoc xor.left_commute xor.commute xor_self_eq
        xor.left_neutral xor.right_neutral)
qed

lemma crc16_bits_xor: "(crc16_bit ^^ n) (c XOR d) = (crc16_bit ^^ n) c XOR (crc16_bit ^^ n) d"
  by (induction n) (simp_all add: crc16_bit_xor)

lemma crc16_bits_low: "k \<le> 8 \<Longrightarrow> (crc16_bit ^^ k) (ucast (b :: u8)) = push_bit k (ucast b)"
proof (induction k)
  case (Suc k)
  have "\<not> bit (push_bit k (ucast b :: u16)) 15"
    using Suc.prems by (auto simp: bit_simps dest: bit_imp_le_length)
  with Suc show ?case
    by (simp only: funpow.simps comp_apply crc16_bit_def and_0x8000_iff if_False push_bit_push_bit
        Suc_leD plus_1_eq_Suc)
qed simp

lemma crc16_two_bytes:
  "crc16_byte (crc16_byte c a) b = (crc16_bit ^^ 16) (c XOR push_bit 8 (ucast a) XOR ucast b)"
proof -
  have "(crc16_bit ^^ 16) x = (crc16_bit ^^ 8) ((crc16_bit ^^ 8) x)" for x
    by (simp flip: funpow_add comp_apply [of "crc16_bit ^^ 8" "crc16_bit ^^ 8"])
  then show ?thesis
    by (simp only: crc16_byte_def crc16_bits_xor crc16_bits_low order_refl xor.assoc)
qed

lemma le16_parts: "push_bit 8 (ucast a) XOR ucast b = le16 b a"
  by (rule bit_word_eqI) (auto simp: bit_le16 bit_simps dest: bit_imp_le_length)

lemma crc16_two_bytes_inj:
  "crc16_byte (crc16_byte c a) b = crc16_byte (crc16_byte c a') b' \<longleftrightarrow> a = a' \<and> b = b'"
proof -
  have "le16 b a = le16 b' a' \<longleftrightarrow> a = a' \<and> b = b'"
    by (metis byte_at_le16(1,2))
  then show ?thesis
    by (simp only: crc16_two_bytes crc16_bits_inj xor.assoc word_xor_cancel_left le16_parts)
qed

section \<open>Frames on the wire\<close>

text \<open>
  \<open>link_frame_bytes\<close> is the byte sequence of the frame layout documented in
  \<open>link_frame.h\<close>; \<open>link_frame_norm\<close> is what a receiver sees of a frame (a zero version is
  sent as the current one, and the payload array is zero past the length).
\<close>

definition link_frame_wf :: "link_frame \<Rightarrow> bool" where
  "link_frame_wf f \<longleftrightarrow>
     length (fr_payload f) = LINK_MAX_PAYLOAD \<and> unat (fr_length f) \<le> LINK_MAX_PAYLOAD"

definition link_frame_body :: "link_frame \<Rightarrow> u8 list" where
  "link_frame_body f = link_frame_header f @ take (unat (fr_length f)) (fr_payload f)"

definition link_frame_bytes :: "link_frame \<Rightarrow> u8 list" where
  "link_frame_bytes f =
     (let crc = foldl crc16_byte 0xffff (link_frame_body f)
      in link_frame_body f @ [byte_at 0 crc, byte_at 1 crc])"

definition link_frame_norm :: "link_frame \<Rightarrow> link_frame" where
  "link_frame_norm f =
     f\<lparr>fr_version := (if fr_version f \<noteq> 0 then fr_version f else LINK_VERSION),
       fr_payload := take (unat (fr_length f)) (fr_payload f)
         @ replicate (LINK_MAX_PAYLOAD - unat (fr_length f)) 0\<rparr>"

lemma length_link_frame_header [simp]: "length (link_frame_header f) = 9"
  by (simp add: link_frame_header_def)

lemma length_link_frame_body [simp]:
  "link_frame_wf f \<Longrightarrow> length (link_frame_body f) = 9 + unat (fr_length f)"
  by (simp add: link_frame_body_def link_frame_wf_def)

lemma length_link_frame_bytes [simp]:
  "link_frame_wf f \<Longrightarrow> length (link_frame_bytes f) = 9 + unat (fr_length f) + 2"
  by (simp add: link_frame_bytes_def Let_def)

lemma link_frame_encode_eq:
  assumes "link_frame_wf f" "9 + unat (fr_length f) + 2 \<le> cap" "cap \<le> length buf"
  shows "link_frame_encode (Some f) (Some buf) cap
    = (int (9 + unat (fr_length f) + 2), Some (blit buf 0 (link_frame_bytes f)))"
proof -
  let ?n = "unat (fr_length f)"
  let ?b2 = "blit (blit buf 0 (link_frame_header f)) 9 (take ?n (fr_payload f))"
  have b2: "?b2 = link_frame_body f @ drop (9 + ?n) buf"
    using assms by (auto simp: blit_def link_frame_body_def link_frame_wf_def min_absorb2 add.commute)
  then have "take (9 + ?n) ?b2 = link_frame_body f"
    using assms by simp
  with assms b2 show ?thesis
    by (simp add: link_frame_encode_def link_frame_wf_def Let_def link_crc16_def blit_def
        link_frame_bytes_def link_frame_body_def)
qed

lemma link_frame_encode_fail:
  assumes "link_frame_wf f" "cap < 9 + unat (fr_length f) + 2"
  shows "link_frame_encode (Some f) (Some buf) cap = (-1, Some buf)"
  using assms by (simp add: link_frame_encode_def link_frame_wf_def Let_def)

lemma header_nth:
  "link_frame_header f ! 0 = byte_at 0 LINK_MAGIC"
  "link_frame_header f ! 1 = byte_at 1 LINK_MAGIC"
  "link_frame_header f ! 2 = (if fr_version f \<noteq> 0 then fr_version f else LINK_VERSION)"
  "link_frame_header f ! 3 = fr_flags f"
  "link_frame_header f ! 4 = fr_channel f"
  "link_frame_header f ! 5 = byte_at 0 (fr_msg_id f)"
  "link_frame_header f ! 6 = byte_at 1 (fr_msg_id f)"
  "link_frame_header f ! 7 = byte_at 0 (fr_length f)"
  "link_frame_header f ! 8 = byte_at 1 (fr_length f)"
  by (simp_all add: link_frame_header_def del: LINK_MAGIC_def)

lemma bytes_header_nth:
  "i < 9 \<Longrightarrow> (link_frame_bytes f @ rest) ! i = link_frame_header f ! i"
  by (simp add: link_frame_bytes_def link_frame_body_def Let_def nth_append)

lemma link_frame_decode_bytes:
  assumes wf: "link_frame_wf f" and n: "length (link_frame_bytes f) \<le> n"
  shows "link_frame_decode (Some (link_frame_bytes f @ rest)) n (Some g)
    = (int (length (link_frame_bytes f)), Some (link_frame_norm f))"
proof -
  let ?n = "unat (fr_length f)" and ?b = "link_frame_bytes f @ rest"
  let ?crc = "foldl crc16_byte 0xffff (link_frame_body f)"
  have hd: "?b ! i = link_frame_header f ! i" if "i < 9" for i
    using that by (rule bytes_header_nth)
  have crc: "link_crc16 ?b (9 + ?n) = ?crc"
    using wf by (simp add: link_crc16_def link_frame_bytes_def Let_def)
  have tail: "?b ! (9 + ?n) = byte_at 0 ?crc" "?b ! (9 + ?n + 1) = byte_at 1 ?crc"
    using wf by (simp_all add: link_frame_bytes_def Let_def nth_append)
  have pl: "slice 9 ?n ?b = take ?n (fr_payload f)"
    using wf by (simp add: slice_def link_frame_bytes_def link_frame_body_def Let_def link_frame_wf_def)
  have len: "length (take ?n (fr_payload f)) = ?n" "?n \<le> 240"
    using wf by (simp_all add: link_frame_wf_def)
  have l: "unat (le16 (byte_at 0 (fr_length f)) (byte_at 1 (fr_length f))) = ?n"
    by (simp only: le16_split(1))
  show ?thesis
    using n len
    by (simp add: link_frame_decode_def hd header_nth Let_def le16_split crc tail [simplified]
        pl blit_def link_frame_norm_def length_link_frame_bytes [OF wf]
        del: LINK_MAGIC_def One_nat_def)
qed

section \<open>Fields\<close>

text \<open>
  A payload area is well formed up to \<open>used\<close> when it is a sequence of complete fields.
  \<open>tlv_fields\<close> lists them.
\<close>

fun tlv_bytes :: "(u8 \<times> u8 list) list \<Rightarrow> u8 list" where
  "tlv_bytes [] = []"
| "tlv_bytes ((t, v) # fs) = t # of_nat (length v) # v @ tlv_bytes fs"

definition tlv_wf :: "(u8 \<times> u8 list) list \<Rightarrow> bool" where
  "tlv_wf fs \<longleftrightarrow> (\<forall>(t, v) \<in> set fs. length v \<le> 255)"

definition tlv_lookup :: "(u8 \<times> u8 list) list \<Rightarrow> u8 \<Rightarrow> u8 list option" where
  "tlv_lookup fs t = map_of fs t"

definition tlv_area :: "u8 list \<Rightarrow> nat \<Rightarrow> (u8 \<times> u8 list) list \<Rightarrow> bool" where
  "tlv_area buf used fs \<longleftrightarrow> tlv_wf fs \<and> used \<le> length buf \<and> take used buf = tlv_bytes fs"

lemma tlv_bytes_append: "tlv_bytes (fs @ gs) = tlv_bytes fs @ tlv_bytes gs"
  by (induction fs rule: tlv_bytes.induct) simp_all

lemma tlv_area_empty [simp]: "tlv_area buf 0 []"
  by (simp add: tlv_area_def tlv_wf_def)

lemma unat_of_nat_u8 [simp]: "n \<le> 255 \<Longrightarrow> unat (of_nat n :: u8) = n"
  by (simp add: unat_of_nat)

lemma list_update_pair_blit:
  "at + 2 \<le> length b \<Longrightarrow> b[at := x, Suc at := y] = blit b at [x, y]"
proof (rule nth_equalityI)
  fix i
  assume h: "at + 2 \<le> length b" "i < length (b[at := x, Suc at := y])"
  have "Suc (Suc (i - 2)) = i" if "\<not> i \<le> Suc at" using that by arith
  with h show "b[at := x, Suc at := y] ! i = blit b at [x, y] ! i"
    by (auto simp: blit_def nth_append nth_list_update nth_Cons' split: if_splits)
qed (simp add: blit_def)

lemma link_tlv_put_area:
  assumes area: "tlv_area buf used fs" and len: "length v \<le> 255"
    and fit: "used + 2 + length v \<le> cap" and cap: "cap \<le> length buf"
  obtains buf' where
    "link_tlv_put (Some buf) cap (Some used) t (Some v) (of_nat (length v))
       = Some (buf', used + 2 + length v)"
    "tlv_area buf' (used + 2 + length v) (fs @ [(t, v)])" "length buf' = length buf"
proof -
  let ?b = "blit (blit buf used [t, of_nat (length v)]) (used + 2) v"
  have eq: "link_tlv_put (Some buf) cap (Some used) t (Some v) (of_nat (length v))
      = Some (?b, used + 2 + length v)"
    using assms by (simp add: link_tlv_put_def list_update_pair_blit)
  have "take (used + 2 + length v) ?b = take used buf @ [t, of_nat (length v)] @ v"
    using fit cap by (simp add: blit_def)
  then have "tlv_area ?b (used + 2 + length v) (fs @ [(t, v)])"
    using assms by (auto simp: tlv_area_def tlv_wf_def tlv_bytes_append)
  moreover have "length ?b = length buf" using fit cap by (simp add: buf_simps)
  ultimately show thesis using eq that by blast
qed

lemma link_tlv_put_ex:
  assumes "tlv_area buf used fs" "length v \<le> 255" "used + 2 + length v \<le> cap" "cap \<le> length buf"
    and "used' = used + 2 + length v" "l = of_nat (length v)"
  shows "\<exists>buf'. link_tlv_put (Some buf) cap (Some used) t (Some v) l = Some (buf', used') \<and>
    tlv_area buf' used' (fs @ [(t, v)]) \<and> length buf' = length buf"
  unfolding assms(5,6) using link_tlv_put_area [OF assms(1-4), of t] by blast

lemma link_tlv_scan_append:
  assumes "length pre = i" and "n = length (pre @ tlv_bytes fs)" and "tlv_wf fs"
  shows "link_tlv_scan (pre @ tlv_bytes fs @ rest) n tag out cap i =
    (case tlv_lookup fs tag of
       None \<Rightarrow> None
     | Some v \<Rightarrow> if length v > cap \<or> (v \<noteq> [] \<and> \<not> out) then None else Some v)"
  using assms
proof (induction fs arbitrary: pre i rule: tlv_bytes.induct)
  case 1
  then show ?case by (simp add: link_tlv_scan.simps tlv_lookup_def)
next
  case (2 t v fs)
  let ?b = "pre @ tlv_bytes ((t, v) # fs) @ rest"
  have v: "length v \<le> 255" and wf: "tlv_wf fs" using "2.prems" by (auto simp: tlv_wf_def)
  have nth: "?b ! i = t" "?b ! Suc i = of_nat (length v)"
    using "2.prems" by (simp_all add: nth_append)
  have sl: "slice (i + 2) (length v) ?b = v"
    using "2.prems" by (simp add: slice_def)
  have le: "i + 2 \<le> n" "i + 2 + length v \<le> n" using "2.prems" by auto
  show ?case
  proof (cases "t = tag")
    case True
    have "(0 < (of_nat (length v) :: u8)) \<longleftrightarrow> v \<noteq> []"
      using v by (simp add: word_less_nat_alt)
    then show ?thesis
      using True nth sl le v
      by (subst link_tlv_scan.simps) (simp add: Let_def tlv_lookup_def del: tlv_bytes.simps append_Cons)
  next
    case False
    have "link_tlv_scan ((pre @ t # of_nat (length v) # v) @ tlv_bytes fs @ rest) n tag out cap
        (i + 2 + length v)
      = (case tlv_lookup fs tag of None \<Rightarrow> None
         | Some v \<Rightarrow> if length v > cap \<or> (v \<noteq> [] \<and> \<not> out) then None else Some v)"
      using "2.prems" wf by (intro "2.IH") auto
    moreover have "(pre @ t # of_nat (length v) # v) @ tlv_bytes fs @ rest = ?b" by simp
    ultimately show ?thesis
      using False nth le v
      by (subst link_tlv_scan.simps) (simp add: Let_def tlv_lookup_def del: tlv_bytes.simps append_Cons append_assoc)
  qed
qed

lemma link_tlv_get_area:
  assumes "tlv_area buf used fs"
  shows "link_tlv_get (Some buf) used tag out cap True =
    (case tlv_lookup fs tag of
       None \<Rightarrow> None
     | Some v \<Rightarrow> if length v > cap \<or> (v \<noteq> [] \<and> \<not> out) then None else Some v)"
proof -
  have tk: "take used buf = tlv_bytes fs" and "used \<le> length buf"
    using assms by (simp_all add: tlv_area_def)
  then have "buf = tlv_bytes fs @ drop used buf" "used = length (tlv_bytes fs)"
    by (metis append_take_drop_id, metis length_take min.absorb2)
  then show ?thesis
    using link_tlv_scan_append [of "[]" 0 used fs "drop used buf" tag out cap] assms
    by (simp add: link_tlv_get_def tlv_area_def)
qed

section \<open>The byte stream\<close>

text \<open>
  \<open>deframe\<close> is the specification of the reassembler on plain byte lists: it returns the
  complete frames in order and the bytes that stay pending.
\<close>

definition stream_wf :: "link_stream \<Rightarrow> bool" where
  "stream_wf s \<longleftrightarrow> length (st_buf s) = LINK_MAX_FRAME \<and> st_len s \<le> LINK_MAX_FRAME"

definition stream_pending :: "link_stream \<Rightarrow> u8 list" where
  "stream_pending s = take (st_len s) (st_buf s)"

fun drop_junk :: "u8 list \<Rightarrow> u8 list" where
  "drop_junk (x # y # zs) =
     (if x = byte_at 0 LINK_MAGIC \<and> y = byte_at 1 LINK_MAGIC then x # y # zs
      else drop_junk (y # zs))"
| "drop_junk xs = xs"

definition frame_total :: "u8 list \<Rightarrow> nat" where
  "frame_total xs = LINK_HEADER_LEN + unat (le16 (xs ! 7) (xs ! 8)) + 2"

definition frame_ok :: "u8 list \<Rightarrow> bool" where
  "frame_ok xs \<longleftrightarrow>
     fst (link_frame_decode (Some xs) (frame_total xs) (Some link_frame_zero)) \<ge> 0"

lemma length_drop_junk: "length (drop_junk xs) \<le> length xs"
  by (induction xs rule: drop_junk.induct) auto

lemma drop_junk_magic:
  "2 \<le> length (drop_junk xs) \<Longrightarrow>
     \<exists>zs. drop_junk xs = byte_at 0 LINK_MAGIC # byte_at 1 LINK_MAGIC # zs"
  by (induction xs rule: drop_junk.induct) (auto simp del: LINK_MAGIC_def)

lemma drop_junk_append_fixed:
  "2 \<le> length (drop_junk xs) \<Longrightarrow> drop_junk (drop_junk xs @ ys) = drop_junk xs @ ys"
  using drop_junk_magic [of xs] by (auto simp del: LINK_MAGIC_def)

lemma drop_junk_idem [simp]: "drop_junk (drop_junk xs) = drop_junk xs"
  by (induction xs rule: drop_junk.induct) (simp_all del: LINK_MAGIC_def)

lemma drop_junk_append: "drop_junk (xs @ ys) = drop_junk (drop_junk xs @ ys)"
  by (induction xs rule: drop_junk.induct) (simp_all del: LINK_MAGIC_def)

function deframe :: "u8 list \<Rightarrow> u8 list list \<times> u8 list" where
  "deframe xs =
     (let ys = drop_junk xs in
      if length ys < LINK_HEADER_LEN then ([], ys)
      else if frame_total ys > LINK_MAX_FRAME then deframe (tl ys)
      else if length ys < frame_total ys then ([], ys)
      else if frame_ok ys
        then let r = deframe (drop (frame_total ys) ys) in (take (frame_total ys) ys # fst r, snd r)
      else deframe (tl ys))"
  by pat_completeness auto
termination
proof (relation "measure length", goal_cases)
  case (2 xs ys)
  then show ?case using length_drop_junk [of xs] by simp
next
  case (3 xs ys)
  then show ?case using length_drop_junk [of xs] by (simp add: frame_total_def)
next
  case (4 xs ys)
  then show ?case using length_drop_junk [of xs] by simp
qed simp

declare deframe.simps [simp del]

lemma deframe_drop_junk: "deframe (drop_junk xs) = deframe xs"
  by (simp add: deframe.simps [of "drop_junk xs"] deframe.simps [of xs])

text \<open>The first decision of the reassembler depends on the bytes it looks at only.\<close>

lemma frame_total_append:
  "9 \<le> length xs \<Longrightarrow> frame_total (xs @ ys) = frame_total xs"
  by (simp add: frame_total_def nth_append)

lemma frame_ok_iff:
  "frame_ok xs \<longleftrightarrow>
     (let l = unat (le16 (xs ! 7) (xs ! 8)) in
      xs ! 0 = byte_at 0 LINK_MAGIC \<and> xs ! 1 = byte_at 1 LINK_MAGIC \<and> l \<le> LINK_MAX_PAYLOAD \<and>
      foldl crc16_byte 0xffff (take (9 + l) xs) = le16 (xs ! (9 + l)) (xs ! (10 + l)))"
  by (auto simp: frame_ok_def link_frame_decode_def frame_total_def link_crc16_def Let_def
      not_less simp del: LINK_MAGIC_def One_nat_def)

lemma frame_ok_append:
  assumes "frame_total xs \<le> length xs"
  shows "frame_ok (xs @ ys) = frame_ok xs"
proof -
  let ?l = "unat (le16 (xs ! 7) (xs ! 8))"
  have len: "11 + ?l \<le> length xs" using assms by (simp add: frame_total_def)
  then have nth: "(xs @ ys) ! i = xs ! i" if "i < 11 + ?l" for i
    using that by (simp add: nth_append)
  have tk: "take (9 + ?l) (xs @ ys) = take (9 + ?l) xs" using len by simp
  have ll: "le16 ((xs @ ys) ! 7) ((xs @ ys) ! 8) = le16 (xs ! 7) (xs ! 8)" by (simp add: nth)
  have nths: "(xs @ ys) ! 0 = xs ! 0" "(xs @ ys) ! 1 = xs ! 1"
    "(xs @ ys) ! (9 + ?l) = xs ! (9 + ?l)" "(xs @ ys) ! (10 + ?l) = xs ! (10 + ?l)"
    by (simp_all add: nth)
  show ?thesis
    unfolding frame_ok_iff Let_def ll tk nths ..
qed

text \<open>Cutting the input anywhere does not change the frames or the rest.\<close>

lemma deframe_append:
  "deframe (xs @ ys) =
     (let r = deframe xs; r' = deframe (snd r @ ys) in (fst r @ fst r', snd r'))"
proof (induction xs rule: deframe.induct)
  case (1 xs)
  let ?z = "drop_junk xs"
  have start: "deframe (xs @ ys) = deframe (?z @ ys)"
    by (metis deframe_drop_junk drop_junk_append)
  show ?case
  proof (cases "length ?z < 9 \<or> frame_total ?z \<le> 251 \<and> length ?z < frame_total ?z")
    case True
    then have "deframe xs = ([], ?z)" by (subst deframe.simps) (auto simp: Let_def)
    then show ?thesis by (simp add: start)
  next
    case False
    then have len: "9 \<le> length ?z" by simp
    then have junk: "drop_junk (?z @ ys) = ?z @ ys"
      by (intro drop_junk_append_fixed) simp
    have tot: "frame_total (?z @ ys) = frame_total ?z"
      using len by (rule frame_total_append)
    have tl: "tl (?z @ ys) = tl ?z @ ys" using len by (cases ?z) auto
    consider (long) "frame_total ?z > 251" | (ok) "frame_total ?z \<le> 251" "frame_ok ?z"
      | (bad) "frame_total ?z \<le> 251" "\<not> frame_ok ?z" by linarith
    then show ?thesis
    proof cases
      case long
      then have "deframe xs = deframe (tl ?z)" "deframe (?z @ ys) = deframe (tl ?z @ ys)"
        using len by (simp_all add: deframe.simps [of xs] deframe.simps [of "?z @ ys"] junk tot tl)
      with long len show ?thesis using "1.IH"(1) by (simp add: start)
    next
      case bad
      with False len have "frame_total ?z \<le> length ?z" by simp
      with bad len have "deframe xs = deframe (tl ?z)" "deframe (?z @ ys) = deframe (tl ?z @ ys)"
        by (simp_all add: deframe.simps [of xs] deframe.simps [of "?z @ ys"] junk tot tl frame_ok_append)
      with bad len \<open>frame_total ?z \<le> length ?z\<close> show ?thesis using "1.IH"(3) by (simp add: start)
    next
      case ok
      with False len have c: "frame_total ?z \<le> length ?z" by simp
      let ?d = "drop (frame_total ?z) ?z"
      have "deframe xs = (take (frame_total ?z) ?z # fst (deframe ?d), snd (deframe ?d))"
        "deframe (?z @ ys)
          = (take (frame_total ?z) ?z # fst (deframe (?d @ ys)), snd (deframe (?d @ ys)))"
        using ok c len
        by (simp_all add: deframe.simps [of xs] deframe.simps [of "?z @ ys"] junk tot frame_ok_append Let_def)
      with ok len c show ?thesis using "1.IH"(2) by (simp add: start Let_def)
    qed
  qed
qed

text \<open>The array operations of the reassembler, seen on the pending bytes.\<close>

lemma stream_shift_pending:
  assumes "stream_wf s" "k \<le> st_len s"
  shows "stream_wf (stream_shift k s)" "stream_pending (stream_shift k s) = drop k (stream_pending s)"
    "st_len (stream_shift k s) = st_len s - k"
  using assms
  by (auto simp: stream_wf_def stream_pending_def stream_shift_def blit_def slice_def drop_take)

lemma stream_put_pending:
  assumes "stream_wf s"
  shows "stream_wf (stream_put s b)"
    "stream_pending (stream_put s b) =
       (if length (stream_pending s) \<ge> LINK_MAX_FRAME then tl (stream_pending s)
        else stream_pending s) @ [b]"
proof -
  let ?s1 = "if st_len s \<ge> LINK_MAX_FRAME then stream_shift 1 s else s"
  have s1: "stream_wf ?s1" "st_len ?s1 < LINK_MAX_FRAME"
    using assms by (auto simp: stream_shift_pending stream_wf_def [of s] stream_shift_pending(3))
  have len: "length (stream_pending s) = st_len s"
    using assms by (simp add: stream_pending_def stream_wf_def)
  have p1: "stream_pending ?s1 = (if length (stream_pending s) \<ge> LINK_MAX_FRAME
      then tl (stream_pending s) else stream_pending s)"
    using assms stream_shift_pending(2) [OF assms, of 1] len by (auto simp: drop_Suc)
  have put: "stream_put s b = ?s1\<lparr>st_buf := (st_buf ?s1)[st_len ?s1 := b], st_len := st_len ?s1 + 1\<rparr>"
    by (simp add: stream_put_def Let_def)
  from s1 show "stream_wf (stream_put s b)"
    unfolding put stream_wf_def by simp
  have "stream_pending (stream_put s b) = stream_pending ?s1 @ [b]"
    using s1 unfolding put stream_pending_def stream_wf_def
    by (simp add: take_Suc_conv_app_nth)
  then show "stream_pending (stream_put s b) =
       (if length (stream_pending s) \<ge> LINK_MAX_FRAME then tl (stream_pending s)
        else stream_pending s) @ [b]"
    unfolding p1 .
qed

lemma stream_puts_pending:
  assumes "stream_wf s" "length (stream_pending s) + length bs \<le> LINK_MAX_FRAME"
  shows "stream_wf (foldl stream_put s bs) \<and>
    stream_pending (foldl stream_put s bs) = stream_pending s @ bs"
  using assms
proof (induction bs arbitrary: s)
  case (Cons b bs)
  then have "stream_wf (stream_put s b)" "stream_pending (stream_put s b) = stream_pending s @ [b]"
    using stream_put_pending [of s b] by simp_all
  then show ?case using Cons.IH [of "stream_put s b"] Cons.prems by simp
qed simp

lemma stream_seek_junk:
  "len \<le> length buf \<Longrightarrow> i \<le> len \<Longrightarrow> stream_seek buf len i \<le> len \<and>
     drop (stream_seek buf len i) (take len buf) = drop_junk (drop i (take len buf))"
proof (induction buf len i rule: stream_seek.induct)
  case (1 buf len i)
  let ?t = "take len buf"
  show ?case
  proof (cases "i + 1 < len")
    case True
    then have d: "drop i ?t = buf ! i # buf ! (i + 1) # drop (i + 2) ?t"
      "drop (i + 1) ?t = buf ! (i + 1) # drop (i + 2) ?t"
      using "1.prems" by (simp_all add: Cons_nth_drop_Suc [symmetric])
    show ?thesis
    proof (cases "magic_at buf len i")
      case magic: True
      then show ?thesis using True d
        by (simp add: stream_seek.simps [of buf len i] magic_at_def del: LINK_MAGIC_def)
    next
      case False
      then have "drop_junk (drop i ?t) = drop_junk (drop (i + 1) ?t)"
        using True unfolding d by (auto simp: magic_at_def simp del: LINK_MAGIC_def)
      with False True show ?thesis
        using "1.IH" "1.prems" by (simp add: stream_seek.simps [of buf len i])
    qed
  next
    case False
    then have "length (drop i ?t) \<le> 1" using "1.prems" by simp
    then have "drop_junk (drop i ?t) = drop i ?t"
      by (cases "drop i ?t" rule: drop_junk.cases) auto
    with False show ?thesis using "1.prems" by (simp add: stream_seek.simps [of buf len i])
  qed
qed

lemma stream_sync_pending:
  assumes "stream_wf s"
  shows "stream_wf (stream_sync s)" "stream_pending (stream_sync s) = drop_junk (stream_pending s)"
proof -
  have "stream_seek (st_buf s) (st_len s) 0 \<le> st_len s"
    "drop (stream_seek (st_buf s) (st_len s) 0) (stream_pending s) = drop_junk (stream_pending s)"
    using stream_seek_junk [of "st_len s" "st_buf s" 0] assms
    by (auto simp: stream_wf_def stream_pending_def)
  then show "stream_wf (stream_sync s)"
    "stream_pending (stream_sync s) = drop_junk (stream_pending s)"
    using assms stream_shift_pending [OF assms, of "stream_seek (st_buf s) (st_len s) 0"]
    by (auto simp: stream_sync_def Let_def)
qed

text \<open>A handler that records the frames it is given and accepts them all.\<close>

definition stream_log :: "u8 list \<Rightarrow> nat \<Rightarrow> u8 list list \<Rightarrow> int \<times> u8 list list" where
  "stream_log buf n seen = (0, seen @ [take n buf])"

lemma decode_used:
  "fst (link_frame_decode (Some b) (frame_total b) (Some link_frame_zero)) =
     (if frame_ok b then int (frame_total b) else -1)"
  by (auto simp: frame_ok_def frame_total_def link_frame_decode_def Let_def)

lemma stream_pending_prefix:
  assumes "stream_wf s"
  shows "st_buf s = stream_pending s @ drop (st_len s) (st_buf s)"
    "length (stream_pending s) = st_len s"
  using assms by (auto simp: stream_pending_def stream_wf_def)

text \<open>
  One round of the reassembler stops, skips a byte or takes a frame; \<open>round_stops\<close> and
  \<open>round_skips\<close> say which on the pending bytes, for the array loop and for \<open>deframe\<close> alike.
\<close>

definition round_stops :: "u8 list \<Rightarrow> bool" where
  "round_stops z \<longleftrightarrow> length z < 9 \<or> frame_total z \<le> 251 \<and> length z < frame_total z"

definition round_skips :: "u8 list \<Rightarrow> bool" where
  "round_skips z \<longleftrightarrow> frame_total z > 251 \<or> \<not> frame_ok z"

lemma deframe_round:
  "z = drop_junk xs \<Longrightarrow> deframe xs =
     (if round_stops z then ([], z) else if round_skips z then deframe (tl z)
      else (take (frame_total z) z # fst (deframe (drop (frame_total z) z)),
            snd (deframe (drop (frame_total z) z))))"
  by (subst deframe.simps) (auto simp: round_stops_def round_skips_def Let_def)

lemma link_stream_drain_round:
  assumes "stream_wf s" and s1: "s1 = stream_sync s" and z: "z = stream_pending s1"
  shows "link_stream_drain stream_log s seen =
    (if round_stops z then (0, s1, seen)
     else if round_skips z then link_stream_drain stream_log (stream_shift 1 s1) seen
     else link_stream_drain stream_log (stream_shift (frame_total z) s1)
            (seen @ [take (frame_total z) z]))"
proof -
  have wf: "stream_wf s1" using stream_sync_pending [OF assms(1)] s1 by simp
  note buf = stream_pending_prefix [OF wf, folded z]
  define l where "l = unat (le16 (st_buf s1 ! 7) (st_buf s1 ! 8))"
  show ?thesis
  proof (cases "st_len s1 < 9")
    case True
    then show ?thesis
      using buf by (subst link_stream_drain.simps) (simp add: s1 [symmetric] round_stops_def)
  next
    case False
    then have len: "9 \<le> length z" by (simp add: buf)
    have tot: "frame_total z = 11 + l" "frame_total (st_buf s1) = frame_total z"
      using frame_total_append [OF len, of "drop (st_len s1) (st_buf s1)"] buf(1)
      by (simp_all add: frame_total_def l_def)
    have used: "fst (link_frame_decode (Some (st_buf s1)) (11 + l) (Some link_frame_zero))
        = (if frame_ok z then int (frame_total z) else -1)" if "frame_total z \<le> length z"
      using decode_used [of "st_buf s1"] frame_ok_append [OF that, of "drop (st_len s1) (st_buf s1)"]
        buf(1) tot by simp
    have tk: "take (frame_total z) (st_buf s1) = take (frame_total z) z" if "frame_total z \<le> length z"
      using that buf by (simp add: z stream_pending_def min_def)
    show ?thesis
      using False used tk buf tot
      by (subst link_stream_drain.simps)
        (auto simp: s1 [symmetric] l_def [symmetric] Let_def round_stops_def round_skips_def stream_log_def
          nat_add_distrib)
  qed
qed

lemma link_stream_drain_deframe:
  "stream_wf s \<Longrightarrow> \<exists>s'. link_stream_drain stream_log s seen = (0, s', seen @ fst (deframe (stream_pending s)))
     \<and> stream_wf s' \<and> stream_pending s' = snd (deframe (stream_pending s))"
proof (induction "st_len s" arbitrary: s seen rule: less_induct)
  case less
  define s1 where "s1 = stream_sync s"
  define z where "z = stream_pending s1"
  have wf: "stream_wf s1" and z': "z = drop_junk (stream_pending s)" and le: "st_len s1 \<le> st_len s"
    using stream_sync_pending [OF less.prems] st_len_stream_sync [of s] by (auto simp: s1_def z_def)
  have len: "length z = st_len s1" using stream_pending_prefix [OF wf] by (simp add: z_def)
  note rounds = link_stream_drain_round [OF less.prems s1_def z_def] deframe_round [OF z']
  have next_round: "\<exists>s'. link_stream_drain stream_log (stream_shift k s1) seen'
        = (0, s', seen' @ fst (deframe (drop k z)))
      \<and> stream_wf s' \<and> stream_pending s' = snd (deframe (drop k z))"
    if "0 < k" "k \<le> length z" for k seen'
    using less.hyps [of "stream_shift k s1" seen'] stream_shift_pending [OF wf, of k] that le len
    by (simp add: z_def)
  show ?case
  proof (cases "round_stops z")
    case True
    then show ?thesis using rounds wf by (simp add: z_def)
  next
    case False
    then have "9 \<le> length z" "frame_total z \<le> 251 \<longrightarrow> frame_total z \<le> length z" "0 < frame_total z"
      by (auto simp: round_stops_def frame_total_def)
    then show ?thesis
      using rounds False next_round [of 1 seen]
        next_round [of "frame_total z" "seen @ [take (frame_total z) z]"]
      by (cases "round_skips z") (auto simp: round_skips_def drop_Suc)
  qed
qed

text \<open>An encoded frame at the front of the input is taken whole.\<close>

lemma frame_bytes_front:
  assumes "link_frame_wf f"
  shows "drop_junk (link_frame_bytes f @ rest) = link_frame_bytes f @ rest"
    "frame_total (link_frame_bytes f @ rest) = length (link_frame_bytes f)"
    "frame_ok (link_frame_bytes f @ rest)"
proof -
  let ?b = "link_frame_bytes f @ rest"
  show tot: "frame_total ?b = length (link_frame_bytes f)"
    using assms by (simp add: frame_total_def bytes_header_nth header_nth le16_split)
  show "frame_ok ?b"
    unfolding frame_ok_def tot by (simp add: link_frame_decode_bytes [OF assms])
  obtain zs where "?b = byte_at 0 LINK_MAGIC # byte_at 1 LINK_MAGIC # zs"
    by (simp add: link_frame_bytes_def link_frame_body_def link_frame_header_def Let_def)
  then show "drop_junk ?b = ?b" by (simp del: LINK_MAGIC_def)
qed

lemma deframe_frame:
  assumes "link_frame_wf f"
  shows "deframe (link_frame_bytes f @ rest)
    = (link_frame_bytes f # fst (deframe rest), snd (deframe rest))"
proof -
  have "length (link_frame_bytes f) \<le> 251" "11 \<le> length (link_frame_bytes f)"
    using assms by (simp_all add: link_frame_wf_def)
  then show ?thesis
    using deframe_round [OF refl, of "link_frame_bytes f @ rest"]
    by (simp add: frame_bytes_front [OF assms] round_stops_def round_skips_def)
qed

lemma deframe_frames:
  "(\<forall>f \<in> set fs. link_frame_wf f) \<Longrightarrow>
     deframe (concat (map link_frame_bytes fs)) = (map link_frame_bytes fs, [])"
proof (induction fs)
  case Nil
  then show ?case by (simp add: deframe.simps)
qed (simp add: deframe_frame)

text \<open>What stays pending is an incomplete frame, so there is always room for one more byte.\<close>

lemma length_deframe_rest: "length (snd (deframe xs)) \<le> 250"
proof (induction xs rule: deframe.induct)
  case (1 xs)
  then show ?case by (subst deframe.simps) (auto simp: Let_def)
qed

fun chunks_fit :: "u8 list \<Rightarrow> u8 list list \<Rightarrow> bool" where
  "chunks_fit r [] = True"
| "chunks_fit r (c # cs) =
     (length r + length c \<le> LINK_MAX_FRAME \<and> chunks_fit (snd (deframe (r @ c))) cs)"

lemma single_bytes_fit:
  "length r \<le> 250 \<Longrightarrow> (\<forall>c \<in> set cs. length c \<le> 1) \<Longrightarrow> chunks_fit r cs"
proof (induction cs arbitrary: r)
  case (Cons c cs)
  then show ?case using length_deframe_rest [of "r @ c"] by force
qed simp

fun link_stream_pushes :: "link_stream \<Rightarrow> u8 list list \<Rightarrow> u8 list list \<Rightarrow> link_stream \<times> u8 list list" where
  "link_stream_pushes s seen [] = (s, seen)"
| "link_stream_pushes s seen (c # cs) =
     (case link_stream_push (Some s) (Some c) (length c) (Some stream_log) seen of
        (_, Some s', seen') \<Rightarrow> link_stream_pushes s' seen' cs
      | (_, None, seen') \<Rightarrow> (s, seen'))"

lemma link_stream_push_deframe:
  assumes "stream_wf s" "length (stream_pending s) + length c \<le> LINK_MAX_FRAME"
  obtains s' where
    "link_stream_push (Some s) (Some c) (length c) (Some stream_log) seen
      = (0, Some s', seen @ fst (deframe (stream_pending s @ c)))"
    "stream_wf s'" "stream_pending s' = snd (deframe (stream_pending s @ c))"
proof -
  have "stream_wf (foldl stream_put s c)" "stream_pending (foldl stream_put s c) = stream_pending s @ c"
    using stream_puts_pending [OF assms] by auto
  then show thesis
    using link_stream_drain_deframe [of "foldl stream_put s c" seen] that
    by (auto simp: link_stream_push_def Let_def)
qed

lemma deframe_rest: "deframe (snd (deframe xs)) = ([], snd (deframe xs))"
  using deframe_append [of xs "[]"] by (simp add: Let_def prod_eq_iff)

lemma link_stream_pushes_deframe:
  assumes "stream_wf s" "chunks_fit (stream_pending s) cs"
    and "deframe (stream_pending s) = ([], stream_pending s)"
  shows "\<exists>s'. link_stream_pushes s seen cs = (s', seen @ fst (deframe (stream_pending s @ concat cs)))
    \<and> stream_wf s' \<and> stream_pending s' = snd (deframe (stream_pending s @ concat cs))"
  using assms
proof (induction cs arbitrary: s seen)
  case (Cons c cs)
  let ?r = "deframe (stream_pending s @ c)"
  obtain s1 where s1: "link_stream_push (Some s) (Some c) (length c) (Some stream_log) seen
      = (0, Some s1, seen @ fst ?r)" "stream_wf s1" "stream_pending s1 = snd ?r"
    using Cons.prems link_stream_push_deframe [of s c seen] by auto
  have "\<exists>s'. link_stream_pushes s1 (seen @ fst ?r) cs
        = (s', (seen @ fst ?r) @ fst (deframe (stream_pending s1 @ concat cs)))
      \<and> stream_wf s' \<and> stream_pending s' = snd (deframe (stream_pending s1 @ concat cs))"
    using Cons.prems s1 by (intro Cons.IH) (simp_all add: deframe_rest)
  then show ?case
    using s1 deframe_append [of "stream_pending s @ c" "concat cs"] by (simp add: Let_def)
qed simp

section \<open>Properties\<close>

text \<open>
  Frame round trip. Encoding a frame whose payload fits into a large enough buffer returns
  the frame's length, and decoding the written buffer returns that length and the same frame,
  with a zero version replaced by the current one and the payload array zeroed past its length.
\<close>

theorem link_frame_roundtrip:
  assumes "link_frame_wf f" and "9 + unat (fr_length f) + 2 \<le> cap" and "cap \<le> length buf"
  shows "\<exists>buf' n. link_frame_encode (Some f) (Some buf) cap = (n, Some buf') \<and>
    n = int (9 + unat (fr_length f) + 2) \<and> length buf' = length buf \<and>
    link_frame_decode (Some buf') (nat n) (Some g) = (n, Some (link_frame_norm f))"
proof -
  have "length (link_frame_bytes f) \<le> length buf" using assms by simp
  then have len: "length (blit buf 0 (link_frame_bytes f)) = length buf" by simp
  have "blit buf 0 (link_frame_bytes f) = link_frame_bytes f @ drop (length (link_frame_bytes f)) buf"
    by (simp add: blit_def)
  then have "link_frame_decode (Some (blit buf 0 (link_frame_bytes f)))
      (9 + unat (fr_length f) + 2) (Some g)
    = (int (9 + unat (fr_length f) + 2), Some (link_frame_norm f))"
    using link_frame_decode_bytes [OF assms(1)] length_link_frame_bytes [OF assms(1)] by simp
  then show ?thesis
    using link_frame_encode_eq [OF assms] len by (metis nat_int)
qed

definition demo_frame :: link_frame where
  "demo_frame = \<lparr>fr_version = 0, fr_flags = 1, fr_channel = 4, fr_msg_id = 0x1234, fr_length = 3,
     fr_payload = [7, 8, 9] @ replicate 237 5\<rparr>"

lemma demo_frame_wf: "link_frame_wf demo_frame"
  by (simp add: link_frame_wf_def demo_frame_def)

theorem link_frame_roundtrip_witness:
  "\<exists>buf' n. link_frame_encode (Some demo_frame) (Some (replicate 20 0)) 20 = (n, Some buf') \<and>
    n = 14 \<and> length buf' = 20 \<and>
    link_frame_decode (Some buf') (nat n) (Some link_frame_zero) = (n, Some (link_frame_norm demo_frame))"
  using link_frame_roundtrip [OF demo_frame_wf, of 20 "replicate 20 0" link_frame_zero]
  by (simp add: demo_frame_def)

text \<open>
  The checksum detects every corruption that is confined to two adjacent bytes of the frame
  (so every burst of at most nine bits, and every burst of sixteen bits aligned to bytes): the
  checksums of the two messages differ whenever the byte pairs differ.
\<close>

theorem link_crc16_two_bytes:
  "link_crc16 (pre @ [a, b] @ post) (length pre + 2 + length post)
     = link_crc16 (pre @ [a', b'] @ post) (length pre + 2 + length post)
   \<longleftrightarrow> a = a' \<and> b = b'"
  by (simp add: link_crc16_def foldl_crc16_inj crc16_two_bytes_inj)

text \<open>
  Field round trip. Appending a field that fits succeeds, keeps the payload a sequence of
  complete fields, is found by its tag when the tag is new, and does not change what any other
  tag finds.
\<close>

theorem link_tlv_put_get:
  assumes "tlv_area buf used fs" and "length v \<le> 255"
    and "used + 2 + length v \<le> cap" and "cap \<le> length buf"
  shows "\<exists>buf'. link_tlv_put (Some buf) cap (Some used) t (Some v) (of_nat (length v))
      = Some (buf', used + 2 + length v)
    \<and> tlv_area buf' (used + 2 + length v) (fs @ [(t, v)])
    \<and> (tlv_lookup fs t = None \<longrightarrow> length v \<le> n \<longrightarrow>
         link_tlv_get (Some buf') (used + 2 + length v) t True n True = Some v)
    \<and> (t' \<noteq> t \<longrightarrow> link_tlv_get (Some buf') (used + 2 + length v) t' out n True
         = link_tlv_get (Some buf) used t' out n True)"
proof -
  obtain buf' where put: "link_tlv_put (Some buf) cap (Some used) t (Some v) (of_nat (length v))
      = Some (buf', used + 2 + length v)"
    and area: "tlv_area buf' (used + 2 + length v) (fs @ [(t, v)])"
    using link_tlv_put_area [OF assms] by metis
  have "tlv_lookup (fs @ [(t, v)]) t = (case tlv_lookup fs t of None \<Rightarrow> Some v | Some w \<Rightarrow> Some w)"
    "t' \<noteq> t \<Longrightarrow> tlv_lookup (fs @ [(t, v)]) t' = tlv_lookup fs t'"
    by (auto simp: tlv_lookup_def map_add_def split: option.splits)
  then show ?thesis
    using put area link_tlv_get_area [OF area] link_tlv_get_area [OF assms(1)] by simp
qed

theorem link_tlv_put_get_witness:
  "\<exists>buf'. link_tlv_put (Some (replicate 8 0)) 8 (Some 0) 3 (Some [65, 66]) (of_nat (length [65, 66 :: u8]))
      = Some (buf', 4)
    \<and> link_tlv_get (Some buf') 4 3 True 2 True = Some [65, 66]"
proof -
  have "tlv_area (replicate 8 0) 0 []" by simp
  from link_tlv_put_get [OF this, of "[65, 66]" 8 3 2 3 True]
  show ?thesis by (auto simp: tlv_lookup_def numeral_eq_Suc)
qed

text \<open>
  C4: Stream reassembly. A sequence of encoded frames is cut into pushes in any way in which each push, together
  with the bytes still pending before it, has at most the 251 bytes of the buffer (\<open>chunks_fit\<close>; always so for pushes of
  single bytes). Then the handler is given exactly those frames, in order, and no byte stays pending. Beyond that bound
  \<open>link_stream_push\<close> drops the oldest bytes before it looks for frames, and a frame can be lost.
\<close>

theorem link_stream_delivery:
  assumes "\<forall>f \<in> set fs. link_frame_wf f" and "concat cs = concat (map link_frame_bytes fs)"
    and "chunks_fit [] cs" and "stream_wf s" and "st_len s = 0"
  shows "\<exists>s'. link_stream_pushes s [] cs = (s', map link_frame_bytes fs) \<and> stream_wf s' \<and>
    stream_pending s' = []"
proof -
  have "stream_pending s = []" using assms(5) by (simp add: stream_pending_def)
  moreover have "deframe [] = ([], [])" by (simp add: deframe.simps)
  ultimately show ?thesis
    using link_stream_pushes_deframe [of s cs "[]"] assms deframe_frames [OF assms(1)] by simp
qed

theorem link_stream_delivery_witness:
  "\<exists>s'. link_stream_pushes \<lparr>st_buf = replicate 251 0, st_len = 0\<rparr> []
      (map (\<lambda>b. [b]) (link_frame_bytes demo_frame @ link_frame_bytes demo_frame))
    = (s', [link_frame_bytes demo_frame, link_frame_bytes demo_frame]) \<and> stream_wf s' \<and>
    stream_pending s' = []"
proof -
  have "concat (map (\<lambda>b. [b]) xs) = xs" for xs :: "u8 list" by (induction xs) auto
  then show ?thesis
    using link_stream_delivery [of "[demo_frame, demo_frame]"
        "map (\<lambda>b. [b]) (link_frame_bytes demo_frame @ link_frame_bytes demo_frame)"
        "\<lparr>st_buf = replicate 251 0, st_len = 0\<rparr>"]
    by (simp add: demo_frame_wf single_bytes_fit stream_wf_def)
qed

end
