(* ===== verification/Link_Crypto.thy ===== *)
theory Link_Crypto
  imports Ardu_Prelude
begin

text \<open>
  AES-128-GCM of the link layer (\<^verbatim>\<open>link/link_crypto.c\<close>): key schedule, block cipher, counter
  mode, GHASH and the two entry points. Blocks are byte lists of length 16 updated by index, in the
  order the C loops do it; output buffers are passed in and returned. The lemmas relate the byte
  routines to 128-bit and 32-bit word arithmetic, show that the block cipher is a permutation of the
  blocks, and that the two entry points form an authenticated encryption scheme in the sense of the
  locale \<open>aead\<close>, which is what the session layer relies on.
\<close>

section \<open>The block cipher\<close>

definition k_sbox :: "u8 list" where
  "k_sbox =
    [0x63, 0x7c, 0x77, 0x7b, 0xf2, 0x6b, 0x6f, 0xc5, 0x30, 0x01, 0x67, 0x2b,
     0xfe, 0xd7, 0xab, 0x76, 0xca, 0x82, 0xc9, 0x7d, 0xfa, 0x59, 0x47, 0xf0,
     0xad, 0xd4, 0xa2, 0xaf, 0x9c, 0xa4, 0x72, 0xc0, 0xb7, 0xfd, 0x93, 0x26,
     0x36, 0x3f, 0xf7, 0xcc, 0x34, 0xa5, 0xe5, 0xf1, 0x71, 0xd8, 0x31, 0x15,
     0x04, 0xc7, 0x23, 0xc3, 0x18, 0x96, 0x05, 0x9a, 0x07, 0x12, 0x80, 0xe2,
     0xeb, 0x27, 0xb2, 0x75, 0x09, 0x83, 0x2c, 0x1a, 0x1b, 0x6e, 0x5a, 0xa0,
     0x52, 0x3b, 0xd6, 0xb3, 0x29, 0xe3, 0x2f, 0x84, 0x53, 0xd1, 0x00, 0xed,
     0x20, 0xfc, 0xb1, 0x5b, 0x6a, 0xcb, 0xbe, 0x39, 0x4a, 0x4c, 0x58, 0xcf,
     0xd0, 0xef, 0xaa, 0xfb, 0x43, 0x4d, 0x33, 0x85, 0x45, 0xf9, 0x02, 0x7f,
     0x50, 0x3c, 0x9f, 0xa8, 0x51, 0xa3, 0x40, 0x8f, 0x92, 0x9d, 0x38, 0xf5,
     0xbc, 0xb6, 0xda, 0x21, 0x10, 0xff, 0xf3, 0xd2, 0xcd, 0x0c, 0x13, 0xec,
     0x5f, 0x97, 0x44, 0x17, 0xc4, 0xa7, 0x7e, 0x3d, 0x64, 0x5d, 0x19, 0x73,
     0x60, 0x81, 0x4f, 0xdc, 0x22, 0x2a, 0x90, 0x88, 0x46, 0xee, 0xb8, 0x14,
     0xde, 0x5e, 0x0b, 0xdb, 0xe0, 0x32, 0x3a, 0x0a, 0x49, 0x06, 0x24, 0x5c,
     0xc2, 0xd3, 0xac, 0x62, 0x91, 0x95, 0xe4, 0x79, 0xe7, 0xc8, 0x37, 0x6d,
     0x8d, 0xd5, 0x4e, 0xa9, 0x6c, 0x56, 0xf4, 0xea, 0x65, 0x7a, 0xae, 0x08,
     0xba, 0x78, 0x25, 0x2e, 0x1c, 0xa6, 0xb4, 0xc6, 0xe8, 0xdd, 0x74, 0x1f,
     0x4b, 0xbd, 0x8b, 0x8a, 0x70, 0x3e, 0xb5, 0x66, 0x48, 0x03, 0xf6, 0x0e,
     0x61, 0x35, 0x57, 0xb9, 0x86, 0xc1, 0x1d, 0x9e, 0xe1, 0xf8, 0x98, 0x11,
     0x69, 0xd9, 0x8e, 0x94, 0x9b, 0x1e, 0x87, 0xe9, 0xce, 0x55, 0x28, 0xdf,
     0x8c, 0xa1, 0x89, 0x0d, 0xbf, 0xe6, 0x42, 0x68, 0x41, 0x99, 0x2d, 0x0f,
     0xb0, 0x54, 0xbb, 0x16]"

definition k_rcon :: "u8 list" where
  "k_rcon = [0x00, 0x01, 0x02, 0x04, 0x08, 0x10, 0x20, 0x40, 0x80, 0x1b, 0x36]"

definition xtime :: "u8 \<Rightarrow> u8" where
  "xtime x = push_bit 1 x XOR (if x AND 0x80 \<noteq> 0 then 0x1b else 0)"

definition sbox :: "u8 \<Rightarrow> u8" where
  "sbox x = k_sbox ! unat x"

text \<open>One pass of the key schedule loop, with the word \<open>temp\<close> copied out of the schedule.\<close>

definition expand_temp :: "nat \<Rightarrow> u8 list \<Rightarrow> u8 list" where
  "expand_temp i round_key =
    (let temp = slice ((i - 1) * 4) 4 round_key in
     if i mod 4 = 0
     then [sbox (temp ! 1) XOR k_rcon ! (i div 4), sbox (temp ! 2), sbox (temp ! 3), sbox (temp ! 0)]
     else temp)"

definition expand_step :: "nat \<Rightarrow> u8 list \<Rightarrow> u8 list" where
  "expand_step i round_key =
    (let temp = expand_temp i round_key in
     fold (\<lambda>j rk. rk[i * 4 + j := rk ! ((i - 4) * 4 + j) XOR temp ! j]) [0..<4] round_key)"

definition expand_key :: "u8 list \<Rightarrow> u8 list" where
  "expand_key key = fold expand_step [4..<44] (blit (replicate 176 0) 0 (take 16 key))"

definition add_round_key :: "u8 list \<Rightarrow> u8 list \<Rightarrow> u8 list" where
  "add_round_key state round_key = fold (\<lambda>i s. s[i := s ! i XOR round_key ! i]) [0..<16] state"

definition sub_bytes :: "u8 list \<Rightarrow> u8 list" where
  "sub_bytes state = fold (\<lambda>i s. s[i := sbox (s ! i)]) [0..<16] state"

definition shift_rows :: "u8 list \<Rightarrow> u8 list" where
  "shift_rows s0 =
    (let t = s0 ! 1;
         s1 = s0[1 := s0 ! 5];
         s2 = s1[5 := s1 ! 9];
         s3 = s2[9 := s2 ! 13];
         s4 = s3[13 := t];
         t = s4 ! 2;
         s5 = s4[2 := s4 ! 10];
         s6 = s5[10 := t];
         t = s6 ! 6;
         s7 = s6[6 := s6 ! 14];
         s8 = s7[14 := t];
         t = s8 ! 15;
         s9 = s8[15 := s8 ! 11];
         s10 = s9[11 := s9 ! 7];
         s11 = s10[7 := s10 ! 3]
     in s11[3 := t])"

definition mix_column :: "u8 \<Rightarrow> u8 \<Rightarrow> u8 \<Rightarrow> u8 \<Rightarrow> u8 list" where
  "mix_column a0 a1 a2 a3 =
    [xtime a0 XOR (xtime a1 XOR a1) XOR a2 XOR a3,
     a0 XOR xtime a1 XOR (xtime a2 XOR a2) XOR a3,
     a0 XOR a1 XOR xtime a2 XOR (xtime a3 XOR a3),
     (xtime a0 XOR a0) XOR a1 XOR a2 XOR xtime a3]"

definition mix_columns :: "u8 list \<Rightarrow> u8 list" where
  "mix_columns state =
    fold (\<lambda>c s. blit s (c * 4)
        (mix_column (s ! (c * 4)) (s ! (c * 4 + 1)) (s ! (c * 4 + 2)) (s ! (c * 4 + 3))))
      [0..<4] state"

definition aes_round :: "u8 list \<Rightarrow> nat \<Rightarrow> u8 list \<Rightarrow> u8 list" where
  "aes_round round_key r state =
    add_round_key (mix_columns (shift_rows (sub_bytes state))) (drop (r * 16) round_key)"

definition aes_encrypt_block :: "u8 list \<Rightarrow> u8 list \<Rightarrow> u8 list" where
  "aes_encrypt_block round_key inp =
    (let state = add_round_key inp round_key;
         state = fold (aes_round round_key) [1..<10] state
     in add_round_key (shift_rows (sub_bytes state)) (drop 160 round_key))"

section \<open>Counter mode and GHASH\<close>

definition xor_block :: "u8 list \<Rightarrow> u8 list \<Rightarrow> u8 list" where
  "xor_block dst src = fold (\<lambda>i d. d[i := d ! i XOR src ! i]) [0..<16] dst"

definition shift_right_block :: "u8 list \<Rightarrow> u8 list" where
  "shift_right_block v =
    (let lsb = v ! 15 AND 1;
         v' = fold (\<lambda>i w. w[i := drop_bit 1 (w ! i) OR push_bit 7 (w ! (i - 1))]) (rev [1..<16]) v;
         v' = v'[0 := drop_bit 1 (v' ! 0)]
     in if lsb \<noteq> 0 then v'[0 := v' ! 0 XOR 0xe1] else v')"

definition gcm_mul_step :: "u8 list \<Rightarrow> nat \<Rightarrow> nat \<Rightarrow> u8 list \<times> u8 list \<Rightarrow> u8 list \<times> u8 list" where
  "gcm_mul_step x i b zv =
    (case zv of (z, v) \<Rightarrow>
      (if x ! i AND push_bit (7 - b) 1 \<noteq> 0 then xor_block z v else z, shift_right_block v))"

definition gcm_mul :: "u8 list \<Rightarrow> u8 list \<Rightarrow> u8 list" where
  "gcm_mul x h = fst (fold (\<lambda>i. fold (gcm_mul_step x i) [0..<8]) [0..<16] (replicate 16 0, h))"

function ghash_loop :: "u8 list \<Rightarrow> u8 list \<Rightarrow> u8 list \<Rightarrow> nat \<Rightarrow> nat \<Rightarrow> u8 list" where
  "ghash_loop y h data len off =
    (if off < len
     then let n = min 16 (len - off);
              block = blit (replicate 16 0) 0 (slice off n data)
          in ghash_loop (gcm_mul (xor_block y block) h) h data len (off + n)
     else y)"
  by pat_completeness auto
termination by (relation "measure (\<lambda>(y, h, data, len, off). len - off)") auto

declare ghash_loop.simps [simp del]

definition ghash_update :: "u8 list \<Rightarrow> u8 list \<Rightarrow> u8 list \<Rightarrow> nat \<Rightarrow> u8 list" where
  "ghash_update y h data len = ghash_loop y h data len 0"

definition put_be64 :: "u8 list \<Rightarrow> nat \<Rightarrow> u64 \<Rightarrow> u8 list" where
  "put_be64 out at v =
    fst (fold (\<lambda>i (out, v). (out[at + i := ucast (v AND 0xff)], drop_bit 8 v)) (rev [0..<8]) (out, v))"

fun inc32_from :: "nat \<Rightarrow> u8 list \<Rightarrow> u8 list" where
  "inc32_from i counter =
    (if i < 12 then counter
     else let counter = counter[i := counter ! i + 1]
          in if counter ! i \<noteq> 0 then counter else inc32_from (i - 1) counter)"

declare inc32_from.simps [simp del]

definition inc32 :: "u8 list \<Rightarrow> u8 list" where
  "inc32 counter = inc32_from 15 counter"

definition gcm_tag ::
    "u8 list \<Rightarrow> u8 list \<Rightarrow> u8 list \<Rightarrow> u8 list \<Rightarrow> nat \<Rightarrow> u8 list \<Rightarrow> nat \<Rightarrow> u8 list" where
  "gcm_tag round_key h j0 aad aad_len ct ct_len =
    (let y = replicate 16 0;
         y = (if aad_len > 0 then ghash_update y h aad aad_len else y);
         y = (if ct_len > 0 then ghash_update y h ct ct_len else y);
         lengths = put_be64 (replicate 16 0) 0 (of_nat aad_len * 8);
         lengths = put_be64 lengths 8 (of_nat ct_len * 8);
         y = ghash_update y h lengths 16
     in xor_block y (aes_encrypt_block round_key j0))"

function ctr_loop ::
    "u8 list \<Rightarrow> u8 list \<Rightarrow> u8 list \<Rightarrow> u8 list \<Rightarrow> nat \<Rightarrow> nat \<Rightarrow> u8 list" where
  "ctr_loop round_key counter inp out len off =
    (if off < len
     then let n = min 16 (len - off);
              counter = inc32 counter;
              stream = aes_encrypt_block round_key counter;
              out = blit out off (map (\<lambda>i. inp ! (off + i) XOR stream ! i) [0..<n])
          in ctr_loop round_key counter inp out len (off + n)
     else out)"
  by pat_completeness auto
termination by (relation "measure (\<lambda>(rk, c, inp, out, len, off). len - off)") auto

declare ctr_loop.simps [simp del]

definition ctr_xor :: "u8 list \<Rightarrow> u8 list \<Rightarrow> u8 list \<Rightarrow> u8 list \<Rightarrow> nat \<Rightarrow> u8 list" where
  "ctr_xor round_key counter inp out len = ctr_loop round_key counter inp out len 0"

section \<open>Entry points\<close>

text \<open>
  The pointers are options. The result is the return value, the ciphertext buffer and the tag
  (for decryption: the plaintext buffer) after the call.
\<close>

definition gcm_j0 :: "u8 list \<Rightarrow> u8 list" where
  "gcm_j0 nonce = (blit (replicate 16 0) 0 (take 12 nonce))[15 := 1]"

definition link_aesgcm_encrypt ::
    "u8 list option \<Rightarrow> u8 list option \<Rightarrow> u8 list option \<Rightarrow> nat \<Rightarrow> u8 list option \<Rightarrow> nat \<Rightarrow>
     u8 list option \<Rightarrow> u8 list option \<Rightarrow> int \<times> u8 list option \<times> u8 list option" where
  "link_aesgcm_encrypt key nonce aad aad_len pt pt_len ct tag =
    (if key = None \<or> nonce = None \<or> tag = None \<or> (pt_len > 0 \<and> (pt = None \<or> ct = None)) \<or>
        (aad_len > 0 \<and> aad = None)
     then (-1, ct, tag)
     else
       let round_key = expand_key (the key);
           h = aes_encrypt_block round_key (replicate 16 0);
           j0 = gcm_j0 (the nonce);
           ct' = (if pt_len > 0 then Some (ctr_xor round_key j0 (the pt) (the ct) pt_len) else ct)
       in (0, ct', Some (gcm_tag round_key h j0 (opt_buf aad) aad_len
                           (opt_buf ct') pt_len)))"

definition link_aesgcm_decrypt ::
    "u8 list option \<Rightarrow> u8 list option \<Rightarrow> u8 list option \<Rightarrow> nat \<Rightarrow> u8 list option \<Rightarrow> nat \<Rightarrow>
     u8 list option \<Rightarrow> u8 list option \<Rightarrow> int \<times> u8 list option" where
  "link_aesgcm_decrypt key nonce aad aad_len ct ct_len tag pt =
    (if key = None \<or> nonce = None \<or> tag = None \<or> (ct_len > 0 \<and> (ct = None \<or> pt = None)) \<or>
        (aad_len > 0 \<and> aad = None)
     then (-1, pt)
     else
       let round_key = expand_key (the key);
           h = aes_encrypt_block round_key (replicate 16 0);
           j0 = gcm_j0 (the nonce);
           expect = gcm_tag round_key h j0 (opt_buf aad) aad_len
                      (opt_buf ct) ct_len;
           diff = fold (\<lambda>i d. d OR (expect ! i XOR the tag ! i)) [0..<16] 0
       in if diff \<noteq> 0 then (-1, pt)
          else (0, if ct_len > 0 then Some (ctr_xor round_key j0 (the ct) (the pt) ct_len) else pt))"


section \<open>Closed forms of the byte loops\<close>

definition blk16 :: "u8 list \<Rightarrow> bool" where
  "blk16 v \<longleftrightarrow> length v = 16"

lemma blk16_cases:
  assumes "blk16 v"
  obtains a0 a1 a2 a3 a4 a5 a6 a7 a8 a9 a10 a11 a12 a13 a14 a15
  where "v = [a0, a1, a2, a3, a4, a5, a6, a7, a8, a9, a10, a11, a12, a13, a14, a15]"
  using assms by (auto simp: blk16_def length_Suc_conv numeral_eq_Suc)

lemma add_round_key_eq:
  "blk16 s \<Longrightarrow> add_round_key s rk = map (\<lambda>i. s ! i XOR rk ! i) [0..<16]"
  using fold_update_upt [of 16 s "\<lambda>i b. b XOR rk ! i"]
  by (simp add: add_round_key_def blk16_def)

lemma xor_block_eq: "blk16 d \<Longrightarrow> xor_block d s = map (\<lambda>i. d ! i XOR s ! i) [0..<16]"
  using fold_update_upt [of 16 d "\<lambda>i b. b XOR s ! i"]
  by (simp add: xor_block_def blk16_def)

lemma sub_bytes_eq: "blk16 s \<Longrightarrow> sub_bytes s = map sbox s"
  using fold_update_upt [of 16 s "\<lambda>i. sbox"]
  by (intro nth_equalityI) (simp_all add: sub_bytes_def blk16_def)

lemma shift_rows_eq:
  "shift_rows [a0, a1, a2, a3, a4, a5, a6, a7, a8, a9, a10, a11, a12, a13, a14, a15]
    = [a0, a5, a10, a15, a4, a9, a14, a3, a8, a13, a2, a7, a12, a1, a6, a11]"
  by (simp add: shift_rows_def Let_def)

lemma mix_columns_eq:
  "mix_columns [a0, a1, a2, a3, a4, a5, a6, a7, a8, a9, a10, a11, a12, a13, a14, a15]
    = mix_column a0 a1 a2 a3 @ mix_column a4 a5 a6 a7 @ mix_column a8 a9 a10 a11
      @ mix_column a12 a13 a14 a15"
  by (simp add: mix_columns_def mix_column_def upt_rec blit_def)

lemma blk16_ops [simp]:
  "blk16 s \<Longrightarrow> blk16 (add_round_key s rk)"
  "blk16 s \<Longrightarrow> blk16 (xor_block s rk)"
  "blk16 s \<Longrightarrow> blk16 (sub_bytes s)"
  "blk16 s \<Longrightarrow> blk16 (shift_rows s)"
  "blk16 s \<Longrightarrow> blk16 (mix_columns s)"
  subgoal by (simp add: add_round_key_eq) (simp add: blk16_def)
  subgoal by (simp add: xor_block_eq) (simp add: blk16_def)
  subgoal by (simp add: sub_bytes_eq) (simp add: blk16_def)
  subgoal by (erule blk16_cases) (simp add: shift_rows_eq blk16_def)
  subgoal by (erule blk16_cases) (simp add: mix_columns_eq mix_column_def blk16_def)
  done

lemma aes_round_blk16 [simp]: "blk16 s \<Longrightarrow> blk16 (aes_round rk r s)"
  by (simp add: aes_round_def)

lemma aes_rounds_blk16 [simp]: "blk16 s \<Longrightarrow> blk16 (fold (aes_round rk) rs s)"
  by (induction rs arbitrary: s) auto

lemma aes_encrypt_block_blk16 [simp]: "blk16 b \<Longrightarrow> blk16 (aes_encrypt_block rk b)"
  by (simp add: aes_encrypt_block_def Let_def)

lemma length_aes_encrypt_block [simp]: "blk16 b \<Longrightarrow> length (aes_encrypt_block rk b) = 16"
  using aes_encrypt_block_blk16 by (simp only: blk16_def)

section \<open>Blocks as 128-bit words\<close>

definition be128 :: "u8 list \<Rightarrow> 128 word" where
  "be128 v = foldl (\<lambda>w b. push_bit 8 w OR ucast b) 0 v"

lemma bit_be128:
  "length v \<le> 16 \<Longrightarrow>
    bit (be128 v) n \<longleftrightarrow> n < 8 * length v \<and> bit (v ! (length v - 1 - n div 8)) (n mod 8)"
proof (induction v arbitrary: n rule: rev_induct)
  case (snoc b v)
  have "bit (be128 (v @ [b])) n \<longleftrightarrow> (8 \<le> n \<and> n < 128 \<and> bit (be128 v) (n - 8)) \<or> (n < 8 \<and> bit b n)"
    by (auto simp: be128_def bit_simps bit_word_of_int_iff dest: bit_imp_le_length)
  note step = this
  show ?case
  proof (cases "n < 8")
    case True
    then show ?thesis using step by (simp add: nth_append)
  next
    case False
    then obtain m where m: "n = m + 8" by (metis add.commute le_Suc_ex not_less)
    moreover have "(m + 8) div 8 = Suc (m div 8)" by simp
    moreover have "0 < length v" if "m < 8 * length v" using that by (cases v) auto
    ultimately show ?thesis
      using step snoc by (cases "m < 8 * length v") (simp_all add: nth_append)
  qed
qed (simp add: be128_def)

lemma bit_be128_byte:
  "blk16 v \<Longrightarrow> i < 16 \<Longrightarrow> m < 8 \<Longrightarrow> bit (be128 v) (8 * (15 - i) + m) \<longleftrightarrow> bit (v ! i) m"
proof -
  assume h: "blk16 v" "i < 16" "m < 8"
  then have "8 * (15 - i) + m < 128" by simp
  then show ?thesis using h by (simp add: bit_be128 blk16_def)
qed

lemma be128_inj: "blk16 v \<Longrightarrow> blk16 w \<Longrightarrow> be128 v = be128 w \<longleftrightarrow> v = w"
proof
  assume h: "blk16 v" "blk16 w" "be128 v = be128 w"
  show "v = w"
  proof (rule nth_equalityI)
    fix i assume i: "i < length v"
    show "v ! i = w ! i"
    proof (rule bit_word_eqI)
      fix n assume n: "n < LENGTH(8)"
      have "bit (be128 v) (8 * (15 - i) + n) = bit (be128 w) (8 * (15 - i) + n)" using h by simp
      then show "bit (v ! i) n = bit (w ! i) n"
        using h(1,2) i n by (simp add: bit_be128_byte blk16_def [of v])
    qed
  qed (use h in \<open>simp add: blk16_def\<close>)
qed simp

lemma be128_xor_block:
  "blk16 v \<Longrightarrow> blk16 w \<Longrightarrow> be128 (xor_block v w) = be128 v XOR be128 w"
proof (rule bit_word_eqI)
  fix n assume "blk16 v" "blk16 w" and n: "n < LENGTH(128)"
  moreover have "[0..<16] ! (15 - n div 8) = 15 - n div 8" by (subst nth_upt) auto
  ultimately show "bit (be128 (xor_block v w)) n = bit (be128 v XOR be128 w) n"
    by (simp add: bit_be128 blk16_def bit_xor_iff xor_block_eq)
qed

definition ghash_shift :: "128 word \<Rightarrow> 128 word" where
  "ghash_shift V = drop_bit 1 V XOR (if bit V 0 then push_bit 120 0xe1 else 0)"

lemma fold_update_down:
  "n \<le> length v \<Longrightarrow> i < length v \<Longrightarrow>
    fold (\<lambda>i w. w[i := g (w ! i) (w ! (i - 1))]) (rev [1..<n]) v ! i
      = (if 1 \<le> i \<and> i < n then g (v ! i) (v ! (i - 1)) else v ! i)"
proof (induction n arbitrary: v)
  case (Suc n)
  then show ?case by (cases "n = 0") (auto simp: nth_list_update)
qed simp

lemma shift_right_blk16 [simp]: "blk16 v \<Longrightarrow> blk16 (shift_right_block v)"
  by (simp add: shift_right_block_def Let_def blk16_def)

lemma nth_shift_right:
  assumes "blk16 v" "i < 16"
  shows "shift_right_block v ! i =
    (if i = 0 then drop_bit 1 (v ! 0) XOR (if bit (v ! 15) 0 then 0xe1 else 0)
     else drop_bit 1 (v ! i) OR push_bit 7 (v ! (i - 1)))"
proof -
  let ?w = "fold (\<lambda>i w. w[i := drop_bit 1 (w ! i) OR push_bit 7 (w ! (i - 1))]) (rev [1..<16]) v"
  have w: "?w ! j = (if 1 \<le> j then drop_bit 1 (v ! j) OR push_bit 7 (v ! (j - 1)) else v ! j)"
    if "j < 16" for j
    using that assms fold_update_down [of 16 v j "\<lambda>a b. drop_bit 1 a OR push_bit 7 b"]
    by (simp add: blk16_def)
  have "v ! 15 AND 1 \<noteq> 0 \<longleftrightarrow> bit (v ! 15) 0"
    using and_exp_eq_0_iff_not_bit [of "v ! 15" 0] by simp
  moreover have "length ?w = 16" using assms by (simp add: blk16_def)
  ultimately show ?thesis
    using assms(2) w [of i] w [of 0]
    by (simp only: shift_right_block_def Let_def) (auto simp: nth_list_update)
qed

lemma bit_shift_xor:
  fixes V c :: "'a::len word"
  shows "bit (drop_bit 1 V XOR (if b then c else 0)) n \<longleftrightarrow> (bit V (Suc n) \<noteq> (b \<and> bit c n))"
  by (cases b) (auto simp only: bit_xor_iff bit_drop_bit_eq comp_def plus_1_eq_Suc if_True if_False bit_0_eq bot_apply bot_bool_def)

lemma bit_shift_carry:
  fixes x y :: u8
  assumes "m < 8"
  shows "bit (drop_bit 1 x OR push_bit 7 y) m \<longleftrightarrow> (if m < 7 then bit x (Suc m) else bit y 0)"
proof -
  have x: "\<not> bit x 8" using bit_imp_le_length [of x 8] by auto
  have "m < 7 \<or> m = 7" using assms by auto
  then show ?thesis
    using x by (auto simp: bit_or_iff bit_drop_bit_eq bit_push_bit_iff comp_def)
qed

lemma be128_shift_right:
  assumes "blk16 v"
  shows "be128 (shift_right_block v) = ghash_shift (be128 v)"
proof (rule bit_word_eqI)
  fix n assume "n < LENGTH(128)"
  then have n: "n < 128" by simp
  have l: "length v = 16" "length (shift_right_block v) = 16"
    using assms shift_right_blk16 [OF assms] by (simp_all only: blk16_def)
  define k m where "k = n div 8" and "m = n mod 8"
  then have nk: "n = 8 * k + m" "m < 8" "k < 16" using n by auto
  have e1: "bit (push_bit 120 0xe1 :: 128 word) n \<longleftrightarrow> k = 15 \<and> bit (0xe1 :: u8) m"
  proof -
    have p: "bit (push_bit 120 w) n \<longleftrightarrow> k = 15 \<and> bit w m" for w :: "128 word"
    proof -
      have "120 \<le> n \<longleftrightarrow> k = 15" "k = 15 \<Longrightarrow> n - 120 = m" using nk by auto
      then show ?thesis using n by (auto simp: bit_push_bit_iff)
    qed
    have q: "bit (0xe1 :: 128 word) m = bit (0xe1 :: u8) m"
      using nk(2) bit_ucast_iff [of "0xe1 :: u8" m, where ?'a = 128] by simp
    show ?thesis unfolding p q by (rule refl)
  qed
  have V: "bit (be128 v) (Suc n) \<longleftrightarrow> (if m < 7 then bit (v ! (15 - k)) (Suc m) else k < 15 \<and> bit (v ! (14 - k)) 0)"
  proof (cases "m < 7")
    case True
    then have "Suc n div 8 = k" "Suc n mod 8 = Suc m" "Suc n < 128" using nk by auto
    then show ?thesis using True l by (simp add: bit_be128)
  next
    case False
    then have "m = 7" using nk by simp
    then have "Suc n div 8 = Suc k" "Suc n mod 8 = 0" "Suc n < 128 \<longleftrightarrow> k < 15" using nk by auto
    then show ?thesis using False l by (simp add: bit_be128)
  qed
  have 0: "bit (be128 v) 0 \<longleftrightarrow> bit (v ! 15) 0" using l by (simp add: bit_be128)
  show "bit (be128 (shift_right_block v)) n = bit (ghash_shift (be128 v)) n"
  proof -
    have "bit (be128 (shift_right_block v)) n \<longleftrightarrow> bit (shift_right_block v ! (15 - k)) m"
      using l n by (simp add: bit_be128 k_def m_def)
    also have "\<dots> \<longleftrightarrow> (bit (be128 v) (Suc n) \<noteq> (bit (be128 v) 0 \<and> bit (push_bit 120 0xe1 :: 128 word) n))"
    proof (cases "k = 15")
      case True
      moreover have "\<not> bit (v ! 0) (Suc m)" if "\<not> m < 7"
        using that bit_imp_le_length [of "v ! 0" "Suc m"] by auto
      moreover have s: "shift_right_block v ! (15 - k) = drop_bit 1 (v ! 0) XOR (if bit (v ! 15) 0 then 0xe1 else 0)"
        using nth_shift_right [OF assms, of 0] True by simp
      ultimately show ?thesis
        unfolding V 0 e1 s bit_shift_xor by auto
    next
      case False
      then have "15 - k \<noteq> 0" "15 - k < 16" "15 - k - 1 = 14 - k" using nk by auto
      then have s: "shift_right_block v ! (15 - k) = drop_bit 1 (v ! (15 - k)) OR push_bit 7 (v ! (14 - k))"
        using nth_shift_right [OF assms, of "15 - k"] by simp
      show ?thesis
        unfolding V 0 e1 s bit_shift_carry [OF nk(2)] using False nk by auto
    qed
    also have "\<dots> \<longleftrightarrow> bit (ghash_shift (be128 v)) n" by (simp only: ghash_shift_def bit_shift_xor)
    finally show ?thesis .
  qed
qed
text \<open>
  Multiplication in GF(2^128) as in SP 800-38D, algorithm 1: bit 127 of the word is the leftmost
  bit of the block.
\<close>

primrec gf128_acc :: "nat \<Rightarrow> 128 word \<Rightarrow> 128 word \<Rightarrow> 128 word \<Rightarrow> 128 word" where
  "gf128_acc 0 X Z V = Z"
| "gf128_acc (Suc n) X Z V = gf128_acc n X (if bit X n then Z XOR V else Z) (ghash_shift V)"

definition gf128_mul :: "128 word \<Rightarrow> 128 word \<Rightarrow> 128 word" where
  "gf128_mul X Y = gf128_acc 128 X 0 Y"

lemma gcm_mul_steps:
  assumes "blk16 x" "blk16 z" "blk16 v" "i < 16" "k \<le> 8"
  shows "\<exists>z' v'. fold (gcm_mul_step x i) [8 - k..<8] (z, v) = (z', v') \<and> blk16 z' \<and> blk16 v' \<and>
    gf128_acc (8 * (15 - i) + k) (be128 x) (be128 z) (be128 v)
      = gf128_acc (8 * (15 - i)) (be128 x) (be128 z') (be128 v')"
  using assms
proof (induction k arbitrary: z v)
  case (Suc k)
  have up: "[7 - k..<8] = (7 - k) # [8 - k..<8]"
  proof -
    have "Suc (7 - k) = 8 - k" "7 - k < 8" using Suc.prems by auto
    then show ?thesis by (metis upt_conv_Cons)
  qed
  let ?z = "if bit (x ! i) k then xor_block z v else z"
  have "x ! i AND push_bit (7 - (7 - k)) 1 \<noteq> 0 \<longleftrightarrow> bit (x ! i) k"
    using Suc.prems and_exp_eq_0_iff_not_bit [of "x ! i" k] by simp
  then have step: "gcm_mul_step x i (7 - k) (z, v) = (?z, shift_right_block v)"
    by (simp add: gcm_mul_step_def)
  have b: "bit (be128 x) (8 * (15 - i) + k) \<longleftrightarrow> bit (x ! i) k"
    using Suc.prems by (simp add: bit_be128_byte)
  have z: "blk16 ?z" "be128 ?z = (if bit (x ! i) k then be128 z XOR be128 v else be128 z)"
    using Suc.prems by (auto simp: be128_xor_block)
  show ?case
    using Suc.IH [of ?z "shift_right_block v"] Suc.prems z
    by (cases "bit (x ! i) k") (simp_all add: up step b be128_shift_right)
qed auto

lemma gcm_mul_bytes:
  assumes "blk16 x" "blk16 z" "blk16 v" "j \<le> 16"
  shows "be128 (fst (fold (\<lambda>i. fold (gcm_mul_step x i) [0..<8]) [16 - j..<16] (z, v)))
    = gf128_acc (8 * j) (be128 x) (be128 z) (be128 v)"
  using assms
proof (induction j arbitrary: z v)
  case (Suc j)
  have i: "16 - Suc j = 15 - j" "Suc (15 - j) = 16 - j" "15 - j < 16" "15 - (15 - j) = j"
    using Suc.prems by auto
  have up: "[16 - Suc j..<16] = (15 - j) # [16 - j..<16]" using i by (metis upt_conv_Cons)
  obtain z' v' where s: "fold (gcm_mul_step x (15 - j)) [0..<8] (z, v) = (z', v')" "blk16 z'" "blk16 v'"
    and acc: "gf128_acc (8 * j + 8) (be128 x) (be128 z) (be128 v) = gf128_acc (8 * j) (be128 x) (be128 z') (be128 v')"
    using gcm_mul_steps [of x z v "15 - j" 8] Suc.prems i by auto
  have "8 * Suc j = 8 * j + 8" by simp
  then show ?case
    using Suc.IH [of z' v'] Suc.prems s acc by (simp only: up) simp
qed simp

lemma be128_zero: "be128 (replicate 16 0) = 0"
  by (rule bit_word_eqI) (simp add: bit_be128)

lemma gcm_mul_gf128: "blk16 x \<Longrightarrow> blk16 h \<Longrightarrow> be128 (gcm_mul x h) = gf128_mul (be128 x) (be128 h)"
  using gcm_mul_bytes [of x "replicate 16 0" h 16]
  by (simp add: gcm_mul_def gf128_mul_def be128_zero blk16_def)

section \<open>Counter mode\<close>

lemma inc32_carry:
  assumes "length p = 12"
  shows "inc32 (p @ [b3, b2, b1, b0]) = p @
    (if b0 + 1 \<noteq> 0 then [b3, b2, b1, b0 + 1] else if b1 + 1 \<noteq> 0 then [b3, b2, b1 + 1, 0]
     else if b2 + 1 \<noteq> 0 then [b3, b2 + 1, 0, 0] else [b3 + 1, 0, 0, 0])"
  using assms
  by (simp add: inc32_def inc32_from.simps [of 15] inc32_from.simps [of 14] inc32_from.simps [of 13]
      inc32_from.simps [of 12] inc32_from.simps [of 11] Let_def nth_append list_update_append)

lemma inc32_le32:
  assumes "length p = 12"
  shows "inc32 (p @ [b3, b2, b1, b0]) =
    (let w = le32 b0 b1 b2 b3 + 1 in p @ [byte_at 3 w, byte_at 2 w, byte_at 1 w, byte_at 0 w])"
  using assms by (simp add: inc32_carry le32_inc Let_def byte_simps)


lemma inc32_from_length [simp]: "length (inc32_from i c) = length c"
  by (induction i c rule: inc32_from.induct) (subst inc32_from.simps, simp add: Let_def)

lemma inc32_blk16 [simp]: "blk16 c \<Longrightarrow> blk16 (inc32 c)"
  by (simp add: inc32_def blk16_def)

text \<open>The key stream that counter mode adds to its input.\<close>

function keystream :: "u8 list \<Rightarrow> u8 list \<Rightarrow> nat \<Rightarrow> u8 list" where
  "keystream rk c n =
    (if n = 0 then []
     else take n (aes_encrypt_block rk (inc32 c)) @ keystream rk (inc32 c) (n - 16))"
  by pat_completeness auto
termination by (relation "measure (\<lambda>(rk, c, n). n)") auto

declare keystream.simps [simp del]

lemma length_keystream [simp]: "blk16 c \<Longrightarrow> length (keystream rk c n) = n"
  by (induction rk c n rule: keystream.induct) (subst keystream.simps, auto)

lemma ctr_loop_keystream:
  assumes "blk16 c" "off \<le> len" "len \<le> length out" "len \<le> length inp"
  shows "ctr_loop rk c inp out len off = take off out @
    map2 (XOR) (take (len - off) (drop off inp)) (keystream rk c (len - off)) @ drop len out"
  using assms
proof (induction rk c inp out len off rule: ctr_loop.induct)
  case (1 rk c inp out len off)
  show ?case
  proof (cases "off < len")
    case True
    let ?n = "min 16 (len - off)" and ?s = "aes_encrypt_block rk (inc32 c)"
    let ?x = "map (\<lambda>i. inp ! (off + i) XOR ?s ! i) [0..<?n]"
    have s: "length ?s = 16"
      using 1(2-) by simp
    have x: "?x = map2 (XOR) (take ?n (drop off inp)) (take (len - off) ?s)"
      using 1(2-) s by (intro nth_equalityI) (auto simp: add.commute)
    have k: "keystream rk c (len - off) = take (len - off) ?s @ keystream rk (inc32 c) (len - (off + ?n))"
      using True by (subst keystream.simps) (auto simp: min_def)
    have e: "?n + (len - (off + ?n)) = len - off" using True by arith
    have i: "take (len - off) (drop off inp) = take ?n (drop off inp) @ take (len - (off + ?n)) (drop (off + ?n) inp)"
      using take_add [of ?n "len - (off + ?n)" "drop off inp"]
      unfolding e by (simp add: add.commute)
    have tail: "?x @ map2 (XOR) (take (len - (off + ?n)) (drop (off + ?n) inp)) (keystream rk (inc32 c) (len - (off + ?n)))
      = map2 (XOR) (take (len - off) (drop off inp)) (keystream rk c (len - off))"
      unfolding x k i using 1(2-) True s by (subst zip_append) auto
    have "ctr_loop rk c inp out len off = ctr_loop rk (inc32 c) inp (blit out off ?x) len (off + ?n)"
      using True by (subst ctr_loop.simps) (simp add: Let_def)
    also have "\<dots> = take (off + ?n) (blit out off ?x) @
        map2 (XOR) (take (len - (off + ?n)) (drop (off + ?n) inp)) (keystream rk (inc32 c) (len - (off + ?n)))
        @ drop len (blit out off ?x)"
      using 1(2-) True by (intro 1(1) [OF True refl refl refl refl]) auto
    also have "take (off + ?n) (blit out off ?x) = take off out @ ?x"
      using take_blit_end [of off out ?x] 1(2-) True by simp
    also have "drop len (blit out off ?x) = drop len out"
      using 1(2-) True by (simp add: blit_def)
    finally show ?thesis using tail by simp
  next
    case False
    then show ?thesis using 1(2-) by (subst ctr_loop.simps) (simp add: keystream.simps)
  qed
qed

lemma ctr_xor_keystream:
  assumes "blk16 c" "len \<le> length out" "len \<le> length inp"
  shows "ctr_xor rk c inp out len = map2 (XOR) (take len inp) (keystream rk c len) @ drop len out"
  using ctr_loop_keystream [of c 0 len out inp rk] assms by (simp add: ctr_xor_def)

lemma length_ctr_xor [simp]:
  "blk16 c \<Longrightarrow> len \<le> length out \<Longrightarrow> len \<le> length inp \<Longrightarrow> length (ctr_xor rk c inp out len) = length out"
  by (simp add: ctr_xor_keystream)

lemma map2_xor_twice:
  "length xs = length ks \<Longrightarrow> map2 (XOR) (map2 (XOR) xs ks) ks = (xs :: u8 list)"
  by (intro nth_equalityI) (simp_all add: xor.assoc)

lemma ctr_xor_involution:
  assumes "blk16 c" "len \<le> length out" "len \<le> length inp" "len \<le> length out'"
  shows "take len (ctr_xor rk c (ctr_xor rk c inp out len) out' len) = take len inp"
  using assms by (simp add: ctr_xor_keystream map2_xor_twice)

lemma gcm_j0_blk16 [simp]: "length nonce = 12 \<Longrightarrow> blk16 (gcm_j0 nonce)"
  by (simp add: gcm_j0_def blk16_def)

section \<open>Tag computation depends on the covered bytes only\<close>

lemma slice_take: "off + n \<le> len \<Longrightarrow> slice off n (take len d) = slice off n d"
  by (simp add: slice_def drop_take min_def)

lemma ghash_loop_take: "ghash_loop y h (take len d) len off = ghash_loop y h d len off"
proof (induction y h d len off rule: ghash_loop.induct)
  case (1 y h d len off)
  show ?case
    using 1 [OF _ refl refl]
    by (subst (1 2) ghash_loop.simps) (simp add: Let_def slice_take)
qed

lemma gcm_tag_take:
  "gcm_tag rk h j0 (take al a) al (take cl c) cl = gcm_tag rk h j0 a al c cl"
  by (simp add: gcm_tag_def ghash_update_def ghash_loop_take Let_def)

lemma gcm_tag_cong:
  assumes "take al a = take al a'" "take cl c = take cl c'"
  shows "gcm_tag rk h j0 a al c cl = gcm_tag rk h j0 a' al c' cl"
  using gcm_tag_take [of rk h j0 al a cl c] gcm_tag_take [of rk h j0 al a' cl c'] assms by simp

lemma fold_or_diff:
  "fold (\<lambda>i d. d OR (f i XOR g i)) js (acc :: u8) = 0 \<longleftrightarrow> acc = 0 \<and> (\<forall>i\<in>set js. f i = g i)"
proof (induction js arbitrary: acc)
  case (Cons i js)
  have "acc OR (f i XOR g i) = 0 \<longleftrightarrow> acc = 0 \<and> f i = g i"
    by (simp add: or_eq_0_iff)
  then show ?case using Cons by simp
qed simp
lemma gcm_mul_step_blk16: "blk16 (fst zv) \<Longrightarrow> blk16 (fst (gcm_mul_step x i b zv))"
  by (cases zv) (simp add: gcm_mul_step_def)

lemma gcm_mul_blk16 [simp]: "blk16 (gcm_mul x h)"
proof -
  have 1: "blk16 (fst (fold (gcm_mul_step x i) bs zv))" if "blk16 (fst zv)" for i bs zv
    using that by (induction bs arbitrary: zv) (auto simp: gcm_mul_step_blk16)
  have "blk16 (fst (fold (\<lambda>i. fold (gcm_mul_step x i) [0..<8]) js zv))" if "blk16 (fst zv)" for js zv
    using that by (induction js arbitrary: zv) (auto simp: 1)
  then show ?thesis by (simp add: gcm_mul_def blk16_def)
qed

lemma ghash_loop_blk16: "blk16 y \<Longrightarrow> blk16 (ghash_loop y h d len off)"
  by (induction y h d len off rule: ghash_loop.induct) (subst ghash_loop.simps, simp add: Let_def)

lemma length_gcm_tag [simp]: "length (gcm_tag rk h j0 a al c cl) = 16"
proof -
  have "blk16 (gcm_tag rk h j0 a al c cl)"
    by (simp add: gcm_tag_def Let_def ghash_update_def ghash_loop_blk16 blk16_def [of "replicate 16 0"])
  then show ?thesis by (simp add: blk16_def)
qed

section \<open>Authenticated encryption\<close>

text \<open>
  What a client needs of an authenticated cipher: the ciphertext has the length of the plaintext,
  distinct plaintexts have distinct ciphertexts, decryption inverts encryption, and whatever decrypts was produced by encryption with the same
  key, nonce and associated data.
\<close>

locale aead =
  fixes ok :: "u8 list \<Rightarrow> u8 list \<Rightarrow> bool"
    and enc :: "u8 list \<Rightarrow> u8 list \<Rightarrow> u8 list \<Rightarrow> u8 list \<Rightarrow> u8 list \<times> u8 list"
    and dec :: "u8 list \<Rightarrow> u8 list \<Rightarrow> u8 list \<Rightarrow> u8 list \<Rightarrow> u8 list \<Rightarrow> u8 list option"
    and tag_len :: nat
  assumes enc_length: "ok k n \<Longrightarrow> length (fst (enc k n a p)) = length p"
    and tag_length: "ok k n \<Longrightarrow> length (snd (enc k n a p)) = tag_len"
    and enc_ct_inj: "ok k n \<Longrightarrow> fst (enc k n a p) = fst (enc k n a q) \<Longrightarrow> p = q"
    and dec_enc: "ok k n \<Longrightarrow> dec k n a (fst (enc k n a p)) (snd (enc k n a p)) = Some p"
    and dec_sound: "ok k n \<Longrightarrow> length t = tag_len \<Longrightarrow> dec k n a c t = Some p \<Longrightarrow> enc k n a p = (c, t)"
begin

lemma dec_length:
  assumes "ok k n" "length t = tag_len" "dec k n a c t = Some p"
  shows "length p = length c"
  using enc_length [OF assms(1), of a p] dec_sound [OF assms] by simp

lemma dec_iff:
  assumes "ok k n" "length t = tag_len"
  shows "dec k n a c t = Some p \<longleftrightarrow> enc k n a p = (c, t)"
  using dec_sound [OF assms] dec_enc [OF assms(1), of a p] by auto

lemma dec_other_tag:
  assumes "ok k n" "length t = tag_len" "t \<noteq> snd (enc k n a p)"
  shows "dec k n a (fst (enc k n a p)) t = None"
proof (rule ccontr)
  assume "dec k n a (fst (enc k n a p)) t \<noteq> None"
  then obtain q where q: "enc k n a q = (fst (enc k n a p), t)"
    using dec_sound [OF assms(1,2)] by blast
  then have "q = p" using enc_ct_inj [OF assms(1), of a q p] by simp
  then show False using q assms(3) by (metis snd_conv)
qed

end

text \<open>The scheme that the two entry points compute, on complete buffers.\<close>

definition gcm_ok :: "u8 list \<Rightarrow> u8 list \<Rightarrow> bool" where
  "gcm_ok k n \<longleftrightarrow> length k = 16 \<and> length n = 12"

definition gcm_seal :: "u8 list \<Rightarrow> u8 list \<Rightarrow> u8 list \<Rightarrow> u8 list \<Rightarrow> u8 list \<times> u8 list" where
  "gcm_seal k n a p =
    (case link_aesgcm_encrypt (Some k) (Some n) (Some a) (length a) (Some p) (length p)
        (Some (replicate (length p) 0)) (Some (replicate 16 0)) of
      (_, ct, tag) \<Rightarrow> (the ct, the tag))"

definition gcm_open :: "u8 list \<Rightarrow> u8 list \<Rightarrow> u8 list \<Rightarrow> u8 list \<Rightarrow> u8 list \<Rightarrow> u8 list option" where
  "gcm_open k n a c t =
    (case link_aesgcm_decrypt (Some k) (Some n) (Some a) (length a) (Some c) (length c) (Some t)
        (Some (replicate (length c) 0)) of
      (rc, pt) \<Rightarrow> if rc = 0 then pt else None)"

lemma gcm_seal_eq:
  assumes "gcm_ok k n"
  shows "gcm_seal k n a p =
    (let rk = expand_key k; c = map2 (XOR) p (keystream rk (gcm_j0 n) (length p))
     in (c, gcm_tag rk (aes_encrypt_block rk (replicate 16 0)) (gcm_j0 n) a (length a) c (length p)))"
  using assms by (simp add: gcm_seal_def link_aesgcm_encrypt_def gcm_ok_def Let_def ctr_xor_keystream)

lemma gcm_open_eq:
  assumes "gcm_ok k n" "length t = 16"
  shows "gcm_open k n a c t =
    (let rk = expand_key k
     in if gcm_tag rk (aes_encrypt_block rk (replicate 16 0)) (gcm_j0 n) a (length a) c (length c) = t
        then Some (map2 (XOR) c (keystream rk (gcm_j0 n) (length c))) else None)"
proof -
  have "(\<forall>i\<in>set [0..<16]. e ! i = t ! i) \<longleftrightarrow> e = t" if "length e = 16" for e
    using that assms by (auto simp: list_eq_iff_nth_eq)
  note tag = this [OF length_gcm_tag]
  show ?thesis
    using assms
    by (simp add: gcm_open_def link_aesgcm_decrypt_def gcm_ok_def Let_def ctr_xor_keystream
        fold_or_diff tag del: set_upt)
qed

interpretation gcm: aead gcm_ok gcm_seal gcm_open 16
proof
  fix k n a p q c t :: "u8 list"
  assume ok: "gcm_ok k n"
  then have j: "blk16 (gcm_j0 n)" by (simp add: gcm_ok_def)
  show "length (fst (gcm_seal k n a p)) = length p" and "length (snd (gcm_seal k n a p)) = 16"
    using j by (simp_all add: gcm_seal_eq [OF ok] Let_def)
  show "gcm_open k n a (fst (gcm_seal k n a p)) (snd (gcm_seal k n a p)) = Some p"
    using j by (simp add: gcm_seal_eq [OF ok] gcm_open_eq [OF ok] Let_def map2_xor_twice)
  show "p = q" if same: "fst (gcm_seal k n a p) = fst (gcm_seal k n a q)"
  proof -
    let ?ks = "keystream (expand_key k) (gcm_j0 n)"
    have "map2 (XOR) p (?ks (length p)) = map2 (XOR) q (?ks (length q))"
      using same by (simp add: gcm_seal_eq [OF ok] Let_def)
    moreover from arg_cong [OF this, of length] have "length p = length q" using j by simp
    ultimately have "map2 (XOR) (map2 (XOR) p (?ks (length p))) (?ks (length p))
        = map2 (XOR) (map2 (XOR) q (?ks (length q))) (?ks (length q))" by simp
    then show ?thesis using j by (simp add: map2_xor_twice)
  qed
  show "gcm_seal k n a p = (c, t)" if "length t = 16" "gcm_open k n a c t = Some p"
    using that j by (auto simp: gcm_seal_eq [OF ok] gcm_open_eq [OF ok] Let_def map2_xor_twice
        split: if_splits)
qed

lemma link_aesgcm_encrypt_seal:
  assumes "gcm_ok k n" "len \<le> length (opt_buf pt)" "len \<le> length ct" "al \<le> length a"
  shows "link_aesgcm_encrypt (Some k) (Some n) (Some a) al pt len (Some ct) (Some tag)
    = (0, Some (blit ct 0 (fst (gcm_seal k n (take al a) (take len (opt_buf pt))))),
       Some (snd (gcm_seal k n (take al a) (take len (opt_buf pt)))))"
proof -
  have "pt \<noteq> None" if "len > 0" using assms that by (cases pt) auto
  then show ?thesis
    using assms
    by (cases pt)
     (auto simp: link_aesgcm_encrypt_def gcm_seal_eq Let_def ctr_xor_keystream gcm_ok_def blit_def
       intro!: gcm_tag_cong)
qed

lemma link_aesgcm_decrypt_open:
  assumes "gcm_ok k n" "len \<le> length c" "len \<le> length pt" "al \<le> length a" "16 \<le> length t"
  shows "link_aesgcm_decrypt (Some k) (Some n) (Some a) al (Some c) len (Some t) (Some pt)
    = (case gcm_open k n (take al a) (take len c) (take 16 t) of
        None \<Rightarrow> (-1, Some pt) | Some p \<Rightarrow> (0, Some (blit pt 0 p)))"
proof -
  let ?rk = "expand_key k"
  let ?tag = "gcm_tag ?rk (aes_encrypt_block ?rk (replicate 16 0)) (gcm_j0 n)"
  have e: "?tag (take al a) al (take len c) len = ?tag a al c len" by (rule gcm_tag_take)
  have "(\<forall>i\<in>set [0..<16]. e ! i = t ! i) \<longleftrightarrow> e = take 16 t" if "length e = 16" for e
    using that assms by (auto simp: list_eq_iff_nth_eq)
  note tag = this [OF length_gcm_tag]
  show ?thesis
    using assms
    by (auto simp: gcm_open_eq e link_aesgcm_decrypt_def Let_def fold_or_diff tag ctr_xor_keystream
        gcm_ok_def blit_def simp del: set_upt) simp_all
qed

section \<open>The key stream in closed form\<close>

definition ctr_blk :: "u8 list \<Rightarrow> u32 \<Rightarrow> u8 list" where
  "ctr_blk p w = p @ [byte_at 3 w, byte_at 2 w, byte_at 1 w, byte_at 0 w]"

lemma inc32_ctr_blk: "length p = 12 \<Longrightarrow> inc32 (ctr_blk p w) = ctr_blk p (w + 1)"
  by (simp add: ctr_blk_def inc32_le32 Let_def le32_split [of w, simplified])

lemma keystream_blocks:
  "length p = 12 \<Longrightarrow> n \<le> 16 * k \<Longrightarrow> keystream rk (ctr_blk p w) n
    = take n (concat (map (\<lambda>j. aes_encrypt_block rk (ctr_blk p (w + of_nat j))) [1..<Suc k]))"
proof (induction k arbitrary: w n)
  case (Suc k)
  have b: "length (aes_encrypt_block rk (ctr_blk p (w + 1))) = 16"
    using Suc.prems by (intro length_aes_encrypt_block) (simp add: blk16_def ctr_blk_def)
  have up: "[1..<Suc (Suc k)] = 1 # map Suc [1..<Suc k]"
    by (simp only: map_Suc_upt upt_conv_Cons)
  show ?case
    using Suc.IH [of "n - 16" "w + 1"] Suc.prems b
    by (subst keystream.simps) (simp add: up [unfolded One_nat_def] inc32_ctr_blk comp_def add.assoc del: upt_Suc)
qed (simp add: keystream.simps)

lemma gcm_j0_ctr_blk: "length nonce = 12 \<Longrightarrow> gcm_j0 nonce = ctr_blk nonce 1"
  by (simp add: gcm_j0_def ctr_blk_def blit_def byte_at_def list_update_append numeral_eq_Suc)

section \<open>Properties\<close>

text \<open>
  Counter mode. The keystream block \<open>j\<close> (from 0) that encryption adds to the plaintext is the
  block cipher applied to the nonce followed by the big-endian 32-bit number \<open>j + 2\<close>; the output
  bytes past the plaintext length are untouched.
\<close>

theorem link_aesgcm_encrypt_ctr:
  assumes "length key = 16" "length nonce = 12" "length pt \<le> length ct" "0 < length pt"
  shows "fst (snd (link_aesgcm_encrypt (Some key) (Some nonce) None 0 (Some pt) (length pt) (Some ct)
      (Some tag)))
    = Some (map2 (XOR) pt (concat (map (\<lambda>j. aes_encrypt_block (expand_key key)
        (ctr_blk nonce (of_nat (j + 2)))) [0..<(length pt + 15) div 16])) @ drop (length pt) ct)"
proof -
  let ?rk = "expand_key key" and ?k = "(length pt + 15) div 16"
  have "keystream ?rk (gcm_j0 nonce) (length pt)
      = take (length pt) (concat (map (\<lambda>j. aes_encrypt_block ?rk (ctr_blk nonce (1 + of_nat j))) [1..<Suc ?k]))"
    using assms by (simp only: gcm_j0_ctr_blk) (rule keystream_blocks, auto)
  also have "map (\<lambda>j. aes_encrypt_block ?rk (ctr_blk nonce (1 + of_nat j))) [1..<Suc ?k]
      = map (\<lambda>j. aes_encrypt_block ?rk (ctr_blk nonce (of_nat (j + 2)))) [0..<?k]"
    by (simp only: map_Suc_upt [symmetric] One_nat_def map_map) (simp add: comp_def add.assoc [symmetric])
  finally have ks: "keystream ?rk (gcm_j0 nonce) (length pt) = take (length pt)
      (concat (map (\<lambda>j. aes_encrypt_block ?rk (ctr_blk nonce (of_nat (j + 2)))) [0..<?k]))" .
  have z: "map2 f xs (take (length xs) ys) = map2 f xs ys" for f :: "u8 \<Rightarrow> u8 \<Rightarrow> u8" and xs ys
    using take_zip [of "length xs" xs ys] by simp
  show ?thesis
    using assms by (simp add: link_aesgcm_encrypt_def Let_def ctr_xor_keystream ks z)
qed

text \<open>
  C20: GHASH multiplication. On 128-bit big-endian words the byte routine is the multiplication in
  GF(2^128) of SP 800-38D, and so it is additive in its first argument.
\<close>

theorem gcm_mul_field:
  assumes "length x = 16" "length h = 16"
  shows "be128 (gcm_mul x h) = gf128_mul (be128 x) (be128 h)"
  using gcm_mul_gf128 assms by (simp add: blk16_def)

theorem link_aesgcm_encrypt_ctr_witness:
  "fst (snd (link_aesgcm_encrypt (Some (replicate 16 7)) (Some (replicate 12 9)) None 0
      (Some (replicate 20 1)) 20 (Some (replicate 24 0)) (Some (replicate 16 0))))
    = Some (map2 (XOR) (replicate 20 1) (concat (map (\<lambda>j. aes_encrypt_block (expand_key (replicate 16 7))
        (ctr_blk (replicate 12 9) (of_nat (j + 2)))) [0..<2])) @ drop 20 (replicate 24 0))"
  using link_aesgcm_encrypt_ctr [of "replicate 16 7" "replicate 12 9" "replicate 20 1" "replicate 24 0"
      "replicate 16 0"]
  by (simp del: of_nat_add replicate_0 upt_Suc)

theorem gcm_mul_field_witness:
  "be128 (gcm_mul (replicate 16 3) (replicate 16 5)) = gf128_mul (be128 (replicate 16 3)) (be128 (replicate 16 5))"
  by (rule gcm_mul_field) simp_all

text \<open>
  C15: Authenticated round trip. Encryption into large enough buffers succeeds; decrypting its output
  with the same key, nonce and associated data succeeds and writes the plaintext; with any other
  tag decryption fails and leaves the output buffer unchanged.
\<close>

theorem link_aesgcm_roundtrip:
  assumes "length key = 16" "length nonce = 12" "al \<le> length aad" "len \<le> length pt"
    and "len \<le> length ct" "len \<le> length out"
  shows "\<exists>c t. link_aesgcm_encrypt (Some key) (Some nonce) (Some aad) al (Some pt) len (Some ct) (Some tag)
      = (0, Some c, Some t) \<and> length c = length ct \<and> length t = 16 \<and>
    link_aesgcm_decrypt (Some key) (Some nonce) (Some aad) al (Some c) len (Some t) (Some out)
      = (0, Some (blit out 0 (take len pt))) \<and>
    (\<forall>t'. length t' = 16 \<longrightarrow> t' \<noteq> t \<longrightarrow>
      link_aesgcm_decrypt (Some key) (Some nonce) (Some aad) al (Some c) len (Some t') (Some out)
        = (-1, Some out))"
proof -
  let ?s = "gcm_seal key nonce (take al aad) (take len pt)"
  have ok: "gcm_ok key nonce" using assms by (simp add: gcm_ok_def)
  have l: "length (fst ?s) = len" "length (snd ?s) = 16"
    using gcm.enc_length [OF ok] gcm.tag_length [OF ok] assms by simp_all
  have c: "take len (blit ct 0 (fst ?s)) = fst ?s" "length (blit ct 0 (fst ?s)) = length ct"
    using take_blit_end [of 0 ct "fst ?s"] l assms by simp_all
  show ?thesis
    using link_aesgcm_encrypt_seal [OF ok, of len "Some pt" ct al aad tag]
      link_aesgcm_decrypt_open [OF ok, of len "blit ct 0 (fst ?s)" out al aad] assms l c
      gcm.dec_enc [OF ok, of "take al aad" "take len pt"]
      gcm.dec_other_tag [OF ok, of _ "take al aad" "take len pt"]
    by simp
qed

theorem link_aesgcm_roundtrip_witness:
  "\<exists>c t. link_aesgcm_encrypt (Some (replicate 16 1)) (Some (replicate 12 2)) (Some [3, 4]) 2 (Some [5, 6, 7]) 3
        (Some [0, 0, 0]) (Some (replicate 16 0)) = (0, Some c, Some t) \<and>
    link_aesgcm_decrypt (Some (replicate 16 1)) (Some (replicate 12 2)) (Some [3, 4]) 2 (Some c) 3 (Some t)
        (Some [9, 9, 9]) = (0, Some [5, 6, 7])"
proof -
  have "blit [9, 9, 9] 0 (take 3 [5, 6, 7]) = [5, 6, 7 :: u8]" by (simp add: blit_def)
  then show ?thesis
    using link_aesgcm_roundtrip [of "replicate 16 1" "replicate 12 2" 2 "[3, 4]" 3 "[5, 6, 7]" "[0, 0, 0]"
        "[9, 9, 9]" "replicate 16 0"]
    by auto
qed

end
