(* ===== verification/Link_Session.thy ===== *)
theory Link_Session
  imports Link_Frame Link_Crypto
begin

text \<open>
  The encrypted session of the link layer (\<^verbatim>\<open>link/link_session.c\<close>): the hello exchange, sealing and
  opening of frames. The session record has the fields of \<open>link_session_t\<close>; the operations return
  the C return value and the updated session, frame and output buffer. Everything about the cipher
  comes from the interpretation \<open>gcm\<close> of the locale \<open>aead\<close>.
  \<open>link_session_open\<close> is meant for decoded frames, whose length is at most 240; a frame made by hand with
  a greater length would have the code read past the payload, where the model sees the end of a list.
\<close>

definition LINK_FLAG_ENCRYPTED :: u8 where [simp]: "LINK_FLAG_ENCRYPTED = 0x08"
definition LINK_CH_HELLO :: u8 where [simp]: "LINK_CH_HELLO = 0"
definition LINK_TAG_VERSION :: u8 where [simp]: "LINK_TAG_VERSION = 1"
definition LINK_TAG_KEY_ID :: u8 where [simp]: "LINK_TAG_KEY_ID = 2"
definition LINK_TAG_SESSION :: u8 where [simp]: "LINK_TAG_SESSION = 3"
definition LINK_DIR_HOST :: u8 where [simp]: "LINK_DIR_HOST = 0"
definition LINK_DIR_DEVICE :: u8 where [simp]: "LINK_DIR_DEVICE = 1"

record link_session =
  se_key :: "u8 list"
  se_key_id :: u8
  se_session :: u16
  se_tx_counter :: u64
  se_rx_counter :: u64
  se_tx_dir :: u8
  se_open :: bool

section \<open>Definitions\<close>

definition link_session_init :: "u8 list option \<Rightarrow> u8 \<Rightarrow> u8 \<Rightarrow> link_session" where
  "link_session_init key key_id tx_dir =
    \<lparr>se_key = (case key of None \<Rightarrow> replicate 16 0 | Some k \<Rightarrow> take 16 k),
     se_key_id = key_id, se_session = 0, se_tx_counter = 0, se_rx_counter = 0,
     se_tx_dir = tx_dir, se_open = False\<rparr>"

definition counter_bytes :: "u64 \<Rightarrow> u8 list" where
  "counter_bytes c =
    [byte_at 0 c, byte_at 1 c, byte_at 2 c, byte_at 3 c, byte_at 4 c, byte_at 5 c, byte_at 6 c, byte_at 7 c]"

definition nonce_for :: "link_session \<Rightarrow> u8 \<Rightarrow> u64 \<Rightarrow> u8 list" where
  "nonce_for s direction counter =
    [direction, se_key_id s, byte_at 0 (se_session s), byte_at 1 (se_session s)] @ counter_bytes counter"

definition link_session_encode_hello ::
    "link_session option \<Rightarrow> u16 \<Rightarrow> u16 \<Rightarrow> u8 list option \<Rightarrow> nat \<Rightarrow> int \<times> u8 list option" where
  "link_session_encode_hello session session_id msg_id out cap =
    (case (session, out) of
       (Some s, Some _) \<Rightarrow>
         (let fields = Option.bind (link_tlv_put_u8 (Some (fr_payload link_frame_zero)) LINK_MAX_PAYLOAD (Some 0)
                 LINK_TAG_VERSION LINK_VERSION) (\<lambda>(p, used).
               Option.bind (link_tlv_put_u8 (Some p) LINK_MAX_PAYLOAD (Some used) LINK_TAG_KEY_ID (se_key_id s)) (\<lambda>(p, used).
               link_tlv_put_u16 (Some p) LINK_MAX_PAYLOAD (Some used) LINK_TAG_SESSION session_id))
          in case fields of
               None \<Rightarrow> (-1, out)
             | Some (p, used) \<Rightarrow>
                 link_frame_encode (Some (link_frame_zero\<lparr>fr_version := LINK_VERSION, fr_channel := LINK_CH_HELLO,
                    fr_msg_id := msg_id, fr_length := of_nat used, fr_payload := p\<rparr>)) out cap)
     | _ \<Rightarrow> (-1, out))"

definition link_session_accept_hello ::
    "link_session option \<Rightarrow> link_frame option \<Rightarrow> u16 \<Rightarrow> int \<times> link_session option" where
  "link_session_accept_hello session frame session_id =
    (case (session, frame) of
       (Some s, Some f) \<Rightarrow>
         (let get = (\<lambda>tag cap. link_tlv_get (Some (fr_payload f)) (unat (fr_length f)) tag True cap True) in
          if fr_channel f \<noteq> LINK_CH_HELLO \<or> fr_flags f AND LINK_FLAG_ENCRYPTED \<noteq> 0 then (-1, session)
          else if get LINK_TAG_VERSION 1 \<noteq> Some [LINK_VERSION] then (-1, session)
          else if get LINK_TAG_KEY_ID 1 \<noteq> Some [se_key_id s] then (-1, session)
          else case get LINK_TAG_SESSION 2 of
            Some [r0, r1] \<Rightarrow>
              (let got = le16 r0 r1;
                   s' = s\<lparr>se_tx_counter := 0, se_rx_counter := 0, se_open := True\<rparr> in
               if se_tx_dir s = LINK_DIR_DEVICE then (0, Some (s'\<lparr>se_session := session_id\<rparr>))
               else if got = 0 then (-1, session)
               else (0, Some (s'\<lparr>se_session := got\<rparr>)))
          | _ \<Rightarrow> (-1, session))
     | _ \<Rightarrow> (-1, session))"

definition header_aad :: "link_frame \<Rightarrow> u8 list" where
  "header_aad f =
    [if fr_version f \<noteq> 0 then fr_version f else LINK_VERSION, fr_flags f, fr_channel f,
     byte_at 0 (fr_msg_id f), byte_at 1 (fr_msg_id f), byte_at 0 (fr_length f), byte_at 1 (fr_length f)]"

text \<open>The frame that \<open>link_session_seal\<close> builds before it encrypts into its payload.\<close>

definition seal_frame :: "u8 \<Rightarrow> u16 \<Rightarrow> nat \<Rightarrow> u64 \<Rightarrow> link_frame" where
  "seal_frame channel msg_id pt_len counter =
    link_frame_zero\<lparr>fr_version := LINK_VERSION, fr_flags := LINK_FLAG_ENCRYPTED, fr_channel := channel,
      fr_msg_id := msg_id, fr_length := of_nat (8 + pt_len + 16),
      fr_payload := blit (fr_payload link_frame_zero) 0 (counter_bytes counter)\<rparr>"

definition link_session_seal ::
    "link_session option \<Rightarrow> u8 \<Rightarrow> u16 \<Rightarrow> u8 list option \<Rightarrow> nat \<Rightarrow> u8 list option \<Rightarrow> nat \<Rightarrow>
     int \<times> link_session option \<times> u8 list option" where
  "link_session_seal session channel msg_id pt pt_len out cap =
    (case (session, out) of
       (Some s, Some _) \<Rightarrow>
         (if \<not> se_open s \<or> pt_len > LINK_MAX_PAYLOAD - 24 \<or> (pt_len > 0 \<and> pt = None)
          then (-1, session, out)
          else
            let counter = se_tx_counter s + 1;
                f = seal_frame channel msg_id pt_len counter;
                aad = header_aad f @ take 8 (fr_payload f);
                nonce = nonce_for s (se_tx_dir s) counter
            in case link_aesgcm_encrypt (Some (se_key s)) (Some nonce) (Some aad) 15 pt pt_len
                     (Some (slice 8 pt_len (fr_payload f))) (Some (slice (8 + pt_len) 16 (fr_payload f))) of
                 (rc, ct, tag) \<Rightarrow>
                   if rc \<noteq> 0 then (-1, session, out)
                   else
                     let p = blit (fr_payload f) 8 (opt_buf ct);
                         p = blit p (8 + pt_len) (opt_buf tag)
                     in case link_frame_encode (Some (f\<lparr>fr_payload := p\<rparr>)) out cap of
                          (n, out') \<Rightarrow> (n, Some (s\<lparr>se_tx_counter := counter\<rparr>), out'))
     | _ \<Rightarrow> (-1, session, out))"

definition le64 :: "u8 list \<Rightarrow> u64" where
  "le64 p = ucast (p ! 0) OR push_bit 8 (ucast (p ! 1)) OR push_bit 16 (ucast (p ! 2)) OR
     push_bit 24 (ucast (p ! 3)) OR push_bit 32 (ucast (p ! 4)) OR push_bit 40 (ucast (p ! 5)) OR
     push_bit 48 (ucast (p ! 6)) OR push_bit 56 (ucast (p ! 7))"

definition link_session_open ::
    "link_session option \<Rightarrow> link_frame option \<Rightarrow> link_frame option \<Rightarrow>
     int \<times> link_session option \<times> link_frame option" where
  "link_session_open session frame plain =
    (case (session, frame, plain) of
       (Some s, Some f, Some _) \<Rightarrow>
         (if \<not> se_open s then (-1, session, plain)
          else if fr_flags f AND LINK_FLAG_ENCRYPTED = 0 \<or> fr_length f < 24 then (-1, session, plain)
          else
            let counter = le64 (fr_payload f) in
            if counter = 0 \<or> counter \<le> se_rx_counter s then (-1, session, plain)
            else
              let ct_len = unat (fr_length f) - 24;
                  direction = (if se_tx_dir s = LINK_DIR_HOST then LINK_DIR_DEVICE else LINK_DIR_HOST);
                  nonce = nonce_for s direction counter;
                  aad = header_aad f @ take 8 (fr_payload f)
              in case link_aesgcm_decrypt (Some (se_key s)) (Some nonce) (Some aad) 15
                       (Some (drop 8 (fr_payload f))) ct_len (Some (drop (8 + ct_len) (fr_payload f)))
                       (Some (fr_payload link_frame_zero)) of
                   (rc, pt) \<Rightarrow>
                     if rc \<noteq> 0 then (-1, session, Some (link_frame_zero\<lparr>fr_payload := opt_buf pt\<rparr>))
                     else (0, Some (s\<lparr>se_rx_counter := counter\<rparr>),
                           Some \<lparr>fr_version = fr_version f,
                             fr_flags = fr_flags f AND NOT LINK_FLAG_ENCRYPTED,
                             fr_channel = fr_channel f, fr_msg_id = fr_msg_id f,
                             fr_length = of_nat ct_len, fr_payload = opt_buf pt\<rparr>))
     | _ \<Rightarrow> (-1, session, plain))"

section \<open>Counters and nonces\<close>

lemma length_counter_bytes [simp]: "length (counter_bytes c) = 8"
  by (simp add: counter_bytes_def)

lemma length_nonce_for [simp]: "length (nonce_for s d c) = 12"
  by (simp add: nonce_for_def)

lemma le64_counter_bytes: "take 8 p = counter_bytes c \<Longrightarrow> le64 p = c"
proof -
  assume h: "take 8 p = counter_bytes c"
  have nth: "p ! k = counter_bytes c ! k" if "k < 8" for k
    using that h by (metis nth_take)
  have u: "bit (ucast x :: u64) n \<longleftrightarrow> bit x n" for x :: u8 and n
    by (auto simp: bit_simps dest: bit_imp_le_length)
  show "le64 p = c"
  proof (rule bit_word_eqI)
    fix n assume "n < LENGTH(64)"
    then have n: "n < 64" by simp
    define k m where "k = n div 8" and "m = n mod 8"
    then have nk: "n = 8 * k + m" "m < 8" "k < 8" using n by auto
    then have "k = 0 \<or> k = 1 \<or> k = 2 \<or> k = 3 \<or> k = 4 \<or> k = 5 \<or> k = 6 \<or> k = 7" by auto
    then show "bit (le64 p) n = bit c n"
      using nk(1,2)
      by (elim disjE) (simp_all add: le64_def bit_or_iff bit_push_bit_iff u nth counter_bytes_def bit_byte_at)
  qed
qed

lemma nonce_for_inj: "nonce_for s d c = nonce_for s d' c' \<longleftrightarrow> d = d' \<and> c = c'"
proof -
  have "le64 (counter_bytes d) = d" for d by (rule le64_counter_bytes) simp
  then have "counter_bytes c = counter_bytes c' \<longleftrightarrow> c = c'" by metis
  then show ?thesis by (auto simp: nonce_for_def)
qed

lemma nonce_counter_inj:
  fixes ks :: "(nat \<times> 'a) list"
  assumes "n < 2 ^ 64" "sorted_wrt (<) (map fst ks)" "\<forall>k\<in>set ks. fst k < n"
  shows "inj_on (\<lambda>k. nonce_for s d (c + of_nat (fst k) + 1)) (set ks)"
proof (rule inj_onI)
  fix x y assume h: "x \<in> set ks" "y \<in> set ks" "nonce_for s d (c + of_nat (fst x) + 1) = nonce_for s d (c + of_nat (fst y) + 1)"
  then have "fst x < 2 ^ 64" "fst y < 2 ^ 64" using assms(1,3) by fastforce+
  then have "unat (of_nat (fst x) :: u64) = fst x" "unat (of_nat (fst y) :: u64) = fst y"
    by (simp_all add: unat_of_nat_small)
  moreover have "(of_nat (fst x) :: u64) = of_nat (fst y)" using h(3) by (simp add: nonce_for_inj)
  ultimately have "fst x = fst y" by metis
  moreover have "inj_on fst (set ks)" using assms(2) by (metis distinct_map strict_sorted_iff)
  ultimately show "x = y" using h(1,2) by (meson inj_onD)
qed

section \<open>What sealing produces and opening accepts\<close>

definition session_wf :: "link_session \<Rightarrow> bool" where
  "session_wf s \<longleftrightarrow> length (se_key s) = 16"

definition session_aad :: "link_frame \<Rightarrow> u64 \<Rightarrow> u8 list" where
  "session_aad f counter = header_aad f @ counter_bytes counter"

definition session_seal :: "link_session \<Rightarrow> u8 \<Rightarrow> u16 \<Rightarrow> u8 list \<Rightarrow> u8 list \<times> u8 list" where
  "session_seal s ch mid p =
    (let c = se_tx_counter s + 1
     in gcm_seal (se_key s) (nonce_for s (se_tx_dir s) c) (session_aad (seal_frame ch mid (length p) c) c) p)"

definition sealed :: "link_session \<Rightarrow> u8 \<Rightarrow> u16 \<Rightarrow> u8 list \<Rightarrow> link_frame" where
  "sealed s ch mid p =
    (let c = se_tx_counter s + 1
     in (seal_frame ch mid (length p) c)\<lparr>fr_payload := counter_bytes c @ fst (session_seal s ch mid p)
          @ snd (session_seal s ch mid p) @ replicate (216 - length p) 0\<rparr>)"

lemma session_gcm_ok [simp]: "session_wf s \<Longrightarrow> gcm_ok (se_key s) (nonce_for s' d c)"
  by (simp add: session_wf_def gcm_ok_def)

lemma length_session_seal [simp]:
  "session_wf s \<Longrightarrow> length (fst (session_seal s ch mid p)) = length p"
  "session_wf s \<Longrightarrow> length (snd (session_seal s ch mid p)) = 16"
  by (simp_all add: session_seal_def Let_def gcm.enc_length gcm.tag_length)

lemma length_header_aad [simp]: "length (header_aad f) = 7"
  by (simp add: header_aad_def)

lemma unat_seal_length: "n \<le> 216 \<Longrightarrow> unat (of_nat (24 + n) :: u16) = 24 + n"
  by (rule unat_of_nat_small) simp

lemma seal_frame_sel:
  "fr_version (seal_frame ch mid n c) = 1" "fr_flags (seal_frame ch mid n c) = 8"
  "fr_channel (seal_frame ch mid n c) = ch" "fr_msg_id (seal_frame ch mid n c) = mid"
  "fr_length (seal_frame ch mid n c) = of_nat (8 + n + 16)"
  "fr_payload (seal_frame ch mid n c) = counter_bytes c @ replicate 232 0"
  by (simp_all add: seal_frame_def link_frame_zero_def blit_def)

lemma seal_frame_version: "(seal_frame ch mid n c)\<lparr>fr_version := 1\<rparr> = seal_frame ch mid n c"
  by (simp add: seal_frame_def)

lemma sealed_wf:
  assumes "session_wf s" "length p \<le> 216"
  shows "link_frame_wf (sealed s ch mid p)" "link_frame_norm (sealed s ch mid p) = sealed s ch mid p"
  using assms
  by (simp_all add: link_frame_wf_def link_frame_norm_def sealed_def Let_def seal_frame_sel unat_seal_length
      seal_frame_version del: of_nat_add)

lemma link_session_seal_eq:
  assumes "session_wf s" "se_open s" "len \<le> 216" "len \<le> length (opt_buf pt)"
    and "len + 35 \<le> cap" "cap \<le> length out"
  shows "link_session_seal (Some s) ch mid pt len (Some out) cap
    = (int (len + 35), Some (s\<lparr>se_tx_counter := se_tx_counter s + 1\<rparr>),
       Some (blit out 0 (link_frame_bytes (sealed s ch mid (take len (opt_buf pt))))))"
proof -
  let ?c = "se_tx_counter s + 1" and ?p = "take len (opt_buf pt)"
  let ?f = "seal_frame ch mid len ?c"
  have pt: "\<not> (0 < len \<and> pt = None)" using assms by auto
  have len: "length ?p = len" using assms by simp
  have aad: "header_aad ?f @ take 8 (fr_payload ?f) = session_aad ?f ?c" "length (session_aad ?f ?c) = 15"
    by (simp_all add: session_aad_def seal_frame_sel)
  let ?ct = "slice 8 len (fr_payload ?f)" and ?tag = "slice (8 + len) 16 (fr_payload ?f)"
  have ss: "gcm_seal (se_key s) (nonce_for s (se_tx_dir s) ?c) (session_aad ?f ?c) ?p = session_seal s ch mid ?p"
    using len by (simp only: session_seal_def Let_def)
  have "link_aesgcm_encrypt (Some (se_key s)) (Some (nonce_for s (se_tx_dir s) ?c)) (Some (session_aad ?f ?c)) 15
      pt len (Some ?ct) (Some ?tag)
    = (0, Some (blit ?ct 0 (fst (session_seal s ch mid ?p))), Some (snd (session_seal s ch mid ?p)))"
    using assms aad(2) link_aesgcm_encrypt_seal [of "se_key s" "nonce_for s (se_tx_dir s) ?c" len pt ?ct 15 "session_aad ?f ?c" ?tag]
    by (simp add: ss seal_frame_sel)
  moreover have "blit ?ct 0 (fst (session_seal s ch mid ?p)) = fst (session_seal s ch mid ?p)"
    using assms len by (simp add: blit_def seal_frame_sel)
  moreover have "?f\<lparr>fr_payload := blit (blit (fr_payload ?f) 8 (fst (session_seal s ch mid ?p))) (8 + len)
      (snd (session_seal s ch mid ?p))\<rparr> = sealed s ch mid ?p"
    using assms len by (simp add: sealed_def Let_def blit_def seal_frame_sel)
  moreover have "link_frame_encode (Some (sealed s ch mid ?p)) (Some out) cap
      = (int (len + 35), Some (blit out 0 (link_frame_bytes (sealed s ch mid ?p))))"
  proof -
    have l: "unat (fr_length (sealed s ch mid ?p)) = len + 24"
      using assms len by (simp add: sealed_def Let_def seal_frame_sel unat_seal_length del: of_nat_add)
    show ?thesis
      using link_frame_encode_eq [OF sealed_wf(1), of s ?p ch mid cap out] assms len by (simp add: l)
  qed
  ultimately show ?thesis
    using assms pt unfolding link_session_seal_def by (simp add: Let_def aad(1))
qed

lemma header_aad_cong: "header_aad (f\<lparr>fr_payload := p\<rparr>) = header_aad f"
  by (simp add: header_aad_def)

definition peers :: "link_session \<Rightarrow> link_session \<Rightarrow> bool" where
  "peers s r \<longleftrightarrow> se_key r = se_key s \<and> se_key_id r = se_key_id s \<and> se_session r = se_session s \<and>
     se_tx_dir s = (if se_tx_dir r = LINK_DIR_HOST then LINK_DIR_DEVICE else LINK_DIR_HOST)"

lemma nonce_for_peer: "peers s r \<Longrightarrow> nonce_for r d c = nonce_for s d c"
  by (simp add: peers_def nonce_for_def)

definition opened :: "u8 \<Rightarrow> u16 \<Rightarrow> u8 list \<Rightarrow> link_frame" where
  "opened ch mid p = \<lparr>fr_version = 1, fr_flags = 0, fr_channel = ch, fr_msg_id = mid,
     fr_length = of_nat (length p), fr_payload = p @ replicate (240 - length p) 0\<rparr>"

lemma link_session_open_sealed:
  assumes "session_wf s" "peers s r" "se_open r" "length p \<le> 216" "se_rx_counter r < se_tx_counter s + 1"
  shows "link_session_open (Some r) (Some (sealed s ch mid p)) (Some g)
    = (0, Some (r\<lparr>se_rx_counter := se_tx_counter s + 1\<rparr>), Some (opened ch mid p))"
proof -
  let ?c = "se_tx_counter s + 1" and ?f = "sealed s ch mid p"
  have f: "fr_version ?f = 1" "fr_flags ?f = 8" "fr_channel ?f = ch" "fr_msg_id ?f = mid"
    "unat (fr_length ?f) = length p + 24"
    "fr_payload ?f = counter_bytes ?c @ fst (session_seal s ch mid p) @ snd (session_seal s ch mid p)
      @ replicate (216 - length p) 0"
    using assms by (simp_all add: sealed_def Let_def seal_frame_sel unat_seal_length del: of_nat_add)
  have len: "\<not> fr_length ?f < 24" using f(5) by (simp add: word_less_nat_alt)
  have c: "le64 (fr_payload ?f) = ?c" by (rule le64_counter_bytes) (simp add: f)
  have aad: "header_aad ?f @ take 8 (fr_payload ?f) = session_aad (seal_frame ch mid (length p) ?c) ?c"
    by (simp add: f(6) session_aad_def) (simp add: sealed_def Let_def header_aad_cong)
  let ?n = "nonce_for s (se_tx_dir s) ?c" and ?a = "session_aad (seal_frame ch mid (length p) ?c) ?c"
  have d: "link_aesgcm_decrypt (Some (se_key s)) (Some ?n) (Some ?a) 15 (Some (drop 8 (fr_payload ?f))) (length p)
      (Some (drop (8 + length p) (fr_payload ?f))) (Some (replicate 240 0)) = (0, Some (p @ replicate (240 - length p) 0))"
  proof -
    have "gcm_open (se_key s) ?n ?a (fst (session_seal s ch mid p)) (snd (session_seal s ch mid p)) = Some p"
      using assms gcm.dec_enc [of "se_key s" ?n ?a p] by (simp add: session_seal_def Let_def)
    then show ?thesis
      using assms by (subst link_aesgcm_decrypt_open) (simp_all add: f blit_def session_aad_def)
  qed
  have "se_rx_counter r < ?c \<Longrightarrow> ?c \<noteq> 0" by auto
  then show ?thesis
    using assms len c d nonce_for_peer [OF assms(2)]
    unfolding link_session_open_def
    by (simp add: Let_def f(1-5) aad opened_def link_frame_zero_def not_le peers_def)
qed

lemma link_session_open_accept:
  assumes "link_session_open (Some r) (Some f) (Some g) = (0, r', q)"
  shows "se_rx_counter r < le64 (fr_payload f)" "r' = Some (r\<lparr>se_rx_counter := le64 (fr_payload f)\<rparr>)"
  using assms
  by (auto simp: link_session_open_def Let_def not_le split: if_splits prod.splits)

lemma link_session_open_reject:
  assumes "link_session_open (Some r) (Some f) (Some g) = (rc, r', q)" "rc \<noteq> 0"
  shows "rc = -1" "r' = Some r"
  using assms
  by (auto simp: link_session_open_def Let_def split: if_splits prod.splits)

text \<open>The frames that a session accepts of a sequence it is given.\<close>

fun accepted :: "link_session \<Rightarrow> link_frame list \<Rightarrow> link_frame list" where
  "accepted r [] = []"
| "accepted r (f # fs) =
    (case link_session_open (Some r) (Some f) (Some link_frame_zero) of
       (rc, r', _) \<Rightarrow> if rc = 0 then f # accepted (the r') fs else accepted (the r') fs)"

lemma accepted_counters:
  "sorted_wrt (<) (se_rx_counter r # map (le64 \<circ> fr_payload) (accepted r fs))"
proof (induction fs arbitrary: r)
  case (Cons f fs)
  obtain rc r' q where o: "link_session_open (Some r) (Some f) (Some link_frame_zero) = (rc, r', q)"
    by (metis prod_cases3)
  show ?case
  proof (cases "rc = 0")
    case True
    with o have r': "se_rx_counter r < le64 (fr_payload f)" "r' = Some (r\<lparr>se_rx_counter := le64 (fr_payload f)\<rparr>)"
      using link_session_open_accept by auto
    show ?thesis using Cons [of "the r'"] o True r' by auto
  next
    case False
    with o have "r' = Some r" using link_session_open_reject by auto
    then show ?thesis using Cons [of r] o False by simp
  qed
qed simp

text \<open>
  The messages that a sequence of seal calls sends: for each call that returns a length, the
  plaintext and the frame that the receiver decodes from the bytes written.
\<close>

fun sent :: "link_session \<Rightarrow> (u8 \<times> u16 \<times> u8 list \<times> u8 list) list \<Rightarrow> (u8 list \<times> link_frame) list" where
  "sent s [] = []"
| "sent s ((ch, mid, pt, out) # cs) =
    (case link_session_seal (Some s) ch mid (Some pt) (length pt) (Some out) (length out) of
       (rc, s', out') \<Rightarrow>
         (if rc < 0 then [] else [(pt, the (snd (link_frame_decode out' (nat rc) (Some link_frame_zero))))])
           @ sent (the s') cs)"

text \<open>The nonce of the session, its direction and the counter that a frame carries.\<close>

definition frame_nonce :: "link_session \<Rightarrow> link_frame \<Rightarrow> u8 list" where
  "frame_nonce s f = nonce_for s (se_tx_dir s) (le64 (fr_payload f))"

definition sendable :: "link_session \<Rightarrow> u8 \<times> u16 \<times> u8 list \<times> u8 list \<Rightarrow> bool" where
  "sendable s = (\<lambda>(ch, mid, pt, out). se_open s \<and> length pt \<le> 216 \<and> length pt + 35 \<le> length out)"

lemma link_session_seal_counter:
  assumes "link_session_seal (Some s) ch mid pt len out cap = (rc, s', out')"
  shows "s' = Some s \<or> s' = Some (s\<lparr>se_tx_counter := se_tx_counter s + 1\<rparr>)"
  using assms by (auto simp: link_session_seal_def Let_def split: if_splits prod.splits option.splits)

lemma link_session_seal_decode:
  assumes "session_wf s" "se_open s" "len \<le> 216" "len \<le> length pt" "len + 35 \<le> cap" "cap \<le> length out"
  shows "\<exists>out'. link_session_seal (Some s) ch mid (Some pt) len (Some out) cap
      = (int (len + 35), Some (s\<lparr>se_tx_counter := se_tx_counter s + 1\<rparr>), Some out') \<and>
    link_frame_decode (Some out') (len + 35) (Some g) = (int (len + 35), Some (sealed s ch mid (take len pt)))"
proof -
  let ?f = "sealed s ch mid (take len pt)"
  have wf: "link_frame_wf ?f" "link_frame_norm ?f = ?f" using sealed_wf assms by auto
  have l: "length (link_frame_bytes ?f) = len + 35"
    using assms wf by (simp add: sealed_def Let_def seal_frame_sel unat_seal_length min_absorb2 del: of_nat_add)
  have "blit out 0 (link_frame_bytes ?f) = link_frame_bytes ?f @ drop (len + 35) out"
    by (simp add: blit_def l)
  then show ?thesis
    using link_session_seal_eq [of s len "Some pt" cap out ch mid] assms
      link_frame_decode_bytes [OF wf(1), of "len + 35" "drop (len + 35) out" g] wf(2) l
    by simp
qed

lemma sealed_cipher:
  assumes "session_wf s" "length p \<le> 216"
  shows "le64 (fr_payload (sealed s ch mid p)) = se_tx_counter s + 1"
    and "gcm_seal (se_key s) (nonce_for s (se_tx_dir s) (se_tx_counter s + 1))
        (header_aad (sealed s ch mid p) @ take 8 (fr_payload (sealed s ch mid p))) p
      = (slice 8 (length p) (fr_payload (sealed s ch mid p)), slice (8 + length p) 16 (fr_payload (sealed s ch mid p)))"
proof -
  let ?c = "se_tx_counter s + 1" and ?f = "sealed s ch mid p"
  have f: "fr_payload ?f = counter_bytes ?c @ fst (session_seal s ch mid p) @ snd (session_seal s ch mid p)
      @ replicate (216 - length p) 0"
    by (simp add: sealed_def Let_def)
  show "le64 (fr_payload ?f) = ?c" by (rule le64_counter_bytes) (simp add: f)
  have aad: "header_aad ?f @ take 8 (fr_payload ?f) = session_aad (seal_frame ch mid (length p) ?c) ?c"
    by (simp add: f session_aad_def) (simp add: sealed_def Let_def header_aad_cong)
  have "slice 8 (length p) (fr_payload ?f) = fst (session_seal s ch mid p)"
      "slice (8 + length p) 16 (fr_payload ?f) = snd (session_seal s ch mid p)"
    using assms(1) by (simp_all add: f slice_def)
  then show "gcm_seal (se_key s) (nonce_for s (se_tx_dir s) ?c) (header_aad ?f @ take 8 (fr_payload ?f)) p
      = (slice 8 (length p) (fr_payload ?f), slice (8 + length p) 16 (fr_payload ?f))"
    unfolding aad by (simp add: session_seal_def Let_def)
qed

text \<open>Two messages sealed in the same state of a session have the same key stream.\<close>

lemma map2_xor_cancel:
  fixes p q k :: "u8 list"
  assumes "length p = length k" "length q = length k"
  shows "map2 (XOR) (map2 (XOR) p k) (map2 (XOR) q k) = map2 (XOR) p q"
proof (rule nth_equalityI)
  show "length (map2 (XOR) (map2 (XOR) p k) (map2 (XOR) q k)) = length (map2 (XOR) p q)" using assms by simp
  fix i assume "i < length (map2 (XOR) (map2 (XOR) p k) (map2 (XOR) q k))"
  then show "map2 (XOR) (map2 (XOR) p k) (map2 (XOR) q k) ! i = map2 (XOR) p q ! i"
    using assms by (simp add: xor.assoc xor.left_commute xor.commute)
qed

lemma sealed_reuse:
  assumes "session_wf s" "length p \<le> 216" "length q = length p"
  shows "map2 (XOR) (slice 8 (length p) (fr_payload (sealed s ch mid p)))
      (slice 8 (length p) (fr_payload (sealed s ch' mid' q))) = map2 (XOR) p q"
proof -
  let ?n = "nonce_for s (se_tx_dir s) (se_tx_counter s + 1)"
  let ?k = "keystream (expand_key (se_key s)) (gcm_j0 ?n) (length p)"
  have ok: "gcm_ok (se_key s) ?n" using assms(1) by simp
  have "slice 8 (length r) (fr_payload (sealed s ch mid r)) = map2 (XOR) r ?k"
    if "length r = length p" for r ch mid
    using sealed_cipher(2) [OF assms(1), of r ch mid] assms(2) that by (simp add: gcm_seal_eq [OF ok] Let_def)
  moreover have "length ?k = length p" by simp
  ultimately show ?thesis using assms(3) map2_xor_cancel [of p ?k q] by metis
qed

lemma link_session_seal_refused:
  assumes "\<not> sendable s (ch, mid, p, out)"
  shows "fst (link_session_seal (Some s) ch mid (Some p) (length p) (Some out) (length out)) = -1"
proof -
  have l: "unat (of_nat (8 + length p + 16) :: u16) = 24 + length p" if "length p \<le> 216"
    using unat_seal_length [OF that] by (simp add: add.commute add.left_commute)
  show ?thesis
  proof (cases "se_open s \<and> length p \<le> 216")
    case True
    then have "length out < length p + 35" using assms by (auto simp: sendable_def)
    then show ?thesis
      using True l by (auto simp: link_session_seal_def Let_def link_frame_encode_def seal_frame_sel
        simp del: of_nat_add split: prod.splits)
  qed (auto simp: link_session_seal_def)
qed

text \<open>
  The frames sent are the sealed frames of the session with its counter \<open>k\<close> further on, for
  increasing \<open>k\<close>.
\<close>

definition sealed_at :: "link_session \<Rightarrow> nat \<times> u8 \<times> u16 \<times> u8 list \<Rightarrow> u8 list \<times> link_frame" where
  "sealed_at s = (\<lambda>(k, ch, mid, pt). (pt, sealed (s\<lparr>se_tx_counter := se_tx_counter s + of_nat k\<rparr>) ch mid pt))"

lemma sealed_at_later: "sealed_at (s\<lparr>se_tx_counter := se_tx_counter s + 1\<rparr>) x = sealed_at s (apfst Suc x)"
  by (cases x) (simp add: sealed_at_def add.assoc)

lemma sent_sealed:
  assumes "session_wf s"
  shows "\<exists>ks. sorted_wrt (<) (map fst ks) \<and> (\<forall>k\<in>set ks. fst k < length cs) \<and> sent s cs = map (sealed_at s) ks \<and>
    map snd ks = map (\<lambda>(ch, mid, pt, out). (ch, mid, pt)) (filter (sendable s) cs)"
  using assms
proof (induction cs arbitrary: s)
  case (Cons c cs)
  obtain ch mid pt out where c: "c = (ch, mid, pt, out)" by (metis prod_cases4)
  let ?s = "s\<lparr>se_tx_counter := se_tx_counter s + 1\<rparr>"
  have up: "session_wf ?s" "sendable ?s = sendable s" using Cons(2) by (simp_all add: session_wf_def sendable_def)
  obtain rc s' out' where o: "link_session_seal (Some s) ch mid (Some pt) (length pt) (Some out) (length out) = (rc, s', out')"
    by (metis prod_cases3)
  obtain ks where ks: "sorted_wrt (<) (map fst ks)" "\<forall>k\<in>set ks. fst k < length cs" "sent ?s cs = map (sealed_at s) (map (apfst Suc) ks)"
    "map snd ks = map (\<lambda>(ch, mid, pt, out). (ch, mid, pt)) (filter (sendable s) cs)"
    using Cons(1) [OF up(1)] by (auto simp: sealed_at_later up(2))
  have later: "sorted_wrt (<) (map fst (map (apfst Suc) ks))" "map snd (map (apfst Suc) ks) = map snd ks"
    using ks(1) by (auto simp: sorted_wrt_map)
  show ?case
  proof (cases "sendable s c")
    case True
    then obtain out' where e: "link_session_seal (Some s) ch mid (Some pt) (length pt) (Some out) (length out)
        = (int (length pt + 35), Some ?s, Some out')"
      "link_frame_decode (Some out') (length pt + 35) (Some link_frame_zero) = (int (length pt + 35), Some (sealed s ch mid pt))"
      using link_session_seal_decode [OF Cons(2), of "length pt" pt "length out" out ch mid link_frame_zero] c by (auto simp: sendable_def)
    then have "sent s (c # cs) = map (sealed_at s) ((0, ch, mid, pt) # map (apfst Suc) ks)"
      by (simp add: c ks(3) sealed_at_def nat_add_distrib del: of_nat_add)
    then show ?thesis
      using True ks(2,4) later c by (intro exI [of _ "(0, ch, mid, pt) # map (apfst Suc) ks"]) auto
  next
    case False
    then have "rc = -1" using link_session_seal_refused [of s ch mid pt out] o c by simp
    then have st: "sent s (c # cs) = sent (the s') cs" using o by (simp add: c)
    from link_session_seal_counter [OF o] consider "s' = Some s" | "s' = Some ?s" by auto
    then show ?thesis
    proof cases
      case 1
      then show ?thesis using Cons(1) [OF Cons(2)] st False by (fastforce intro: less_SucI)
    next
      case 2
      then show ?thesis
        using st False ks(2-4) later by (intro exI [of _ "map (apfst Suc) ks"]) auto
    qed
  qed
qed simp

abbreviation hello_field :: "link_frame \<Rightarrow> u8 \<Rightarrow> nat \<Rightarrow> u8 list option" where
  "hello_field f tag cap \<equiv> link_tlv_get (Some (fr_payload f)) (unat (fr_length f)) tag True cap True"

definition hello_ok :: "u8 \<Rightarrow> link_frame \<Rightarrow> bool" where
  "hello_ok key_id f \<longleftrightarrow> fr_channel f = LINK_CH_HELLO \<and> fr_flags f AND LINK_FLAG_ENCRYPTED = 0 \<and>
     hello_field f LINK_TAG_VERSION 1 = Some [LINK_VERSION] \<and> hello_field f LINK_TAG_KEY_ID 1 = Some [key_id]"

definition hello_session :: "u8 \<Rightarrow> link_frame \<Rightarrow> u16 \<Rightarrow> u16 option" where
  "hello_session dir f sid =
    (case hello_field f LINK_TAG_SESSION 2 of
       Some [r0, r1] \<Rightarrow> if dir = LINK_DIR_DEVICE then Some sid
         else if le16 r0 r1 = 0 then None else Some (le16 r0 r1)
     | _ \<Rightarrow> None)"

lemma accept_hello_eq:
  "link_session_accept_hello (Some s) (Some f) sid =
    (if hello_ok (se_key_id s) f
     then (case hello_session (se_tx_dir s) f sid of
             None \<Rightarrow> (-1, Some s)
           | Some n \<Rightarrow> (0, Some (s\<lparr>se_session := n, se_tx_counter := 0, se_rx_counter := 0, se_open := True\<rparr>)))
     else (-1, Some s))"
proof (cases "hello_ok (se_key_id s) f")
  case True
  then show ?thesis
    unfolding link_session_accept_hello_def hello_ok_def hello_session_def Let_def prod.case option.case
    by (simp split: option.split list.split)
next
  case False
  then show ?thesis
    unfolding link_session_accept_hello_def hello_ok_def Let_def prod.case option.case
    by (simp split: if_split) blast
qed

lemma accept_hello_key:
  "link_session_accept_hello (Some s) (Some f) sid = (0, Some s1) \<Longrightarrow> se_key s1 = se_key s"
  by (auto simp: accept_hello_eq split: if_splits option.splits)

lemma accept_hello_again:
  assumes "link_session_accept_hello (Some s) (Some f) sid = (0, Some s1)"
  shows "link_session_accept_hello (Some (s1\<lparr>se_tx_counter := a, se_rx_counter := b\<rparr>)) (Some f) sid = (0, Some s1)"
    "se_tx_counter s1 = 0" "se_rx_counter s1 = 0" "se_open s1"
proof -
  obtain n where n: "hello_ok (se_key_id s) f" "hello_session (se_tx_dir s) f sid = Some n"
      "s1 = s\<lparr>se_session := n, se_tx_counter := 0, se_rx_counter := 0, se_open := True\<rparr>"
    using assms by (auto simp: accept_hello_eq split: if_splits option.splits)
  then show "link_session_accept_hello (Some (s1\<lparr>se_tx_counter := a, se_rx_counter := b\<rparr>)) (Some f) sid = (0, Some s1)"
    "se_tx_counter s1 = 0" "se_rx_counter s1 = 0" "se_open s1"
    by (simp_all add: accept_hello_eq)
qed

definition hello_fields :: "u8 \<Rightarrow> u16 \<Rightarrow> (u8 \<times> u8 list) list" where
  "hello_fields kid sid = [(1, [1]), (2, [kid]), (3, [byte_at 0 sid, byte_at 1 sid])]"

lemma hello_payload:
  "\<exists>p. Option.bind (link_tlv_put_u8 (Some (replicate 240 0)) 240 (Some 0) 1 1) (\<lambda>(p, used).
      Option.bind (link_tlv_put_u8 (Some p) 240 (Some used) 2 kid) (\<lambda>(p, used).
      link_tlv_put_u16 (Some p) 240 (Some used) 3 sid)) = Some (p, 10) \<and>
    length p = 240 \<and> tlv_area p 10 (hello_fields kid sid)"
proof -
  have "\<exists>p. link_tlv_put (Some (replicate 240 0)) 240 (Some 0) 1 (Some [1]) 1 = Some (p, 3) \<and>
    tlv_area p 3 ([] @ [(1, [1])]) \<and> length p = length (replicate 240 (0 :: u8))"
    by (rule link_tlv_put_ex) simp_all
  then obtain p1 where p1: "link_tlv_put (Some (replicate 240 0)) 240 (Some 0) 1 (Some [1]) 1 = Some (p1, 3)"
    "tlv_area p1 3 ([] @ [(1, [1])])" "length p1 = 240" by (metis length_replicate)
  have "\<exists>p. link_tlv_put (Some p1) 240 (Some 3) 2 (Some [kid]) 1 = Some (p, 6) \<and>
    tlv_area p 6 (([] @ [(1, [1])]) @ [(2, [kid])]) \<and> length p = length p1"
    using p1 by (intro link_tlv_put_ex) simp_all
  then obtain p2 where p2: "link_tlv_put (Some p1) 240 (Some 3) 2 (Some [kid]) 1 = Some (p2, 6)"
    "tlv_area p2 6 (([] @ [(1, [1])]) @ [(2, [kid])])" "length p2 = 240" using p1 by metis
  let ?v = "[byte_at 0 sid, byte_at 1 sid]"
  have "\<exists>p. link_tlv_put (Some p2) 240 (Some 6) 3 (Some ?v) 2 = Some (p, 10) \<and>
    tlv_area p 10 ((([] @ [(1, [1])]) @ [(2, [kid])]) @ [(3, ?v)]) \<and> length p = length p2"
    using p2 by (intro link_tlv_put_ex) simp_all
  then show ?thesis
    using p1 p2 by (auto simp: link_tlv_put_u8_def link_tlv_put_u16_def hello_fields_def)
qed

lemma hello_frame_fields:
  assumes "tlv_area (fr_payload f) 10 (hello_fields kid sid)" "fr_length f = 10"
  shows "hello_field f 1 1 = Some [1]" "hello_field f 2 1 = Some [kid]"
    "hello_field f 3 2 = Some [byte_at 0 sid, byte_at 1 sid]"
  using link_tlv_get_area [OF assms(1)] assms(2) by (simp_all add: hello_fields_def tlv_lookup_def)

lemma seal_decode_open:
  assumes "session_wf s" "peers s r" "se_open s" "se_open r" "len \<le> 216" "len \<le> length pt"
    and "len + 35 \<le> cap" "cap \<le> length out" "se_rx_counter r < se_tx_counter s + 1"
  shows "\<exists>out' f. link_session_seal (Some s) ch mid (Some pt) len (Some out) cap
      = (int (len + 35), Some (s\<lparr>se_tx_counter := se_tx_counter s + 1\<rparr>), Some out') \<and>
    link_frame_decode (Some out') (len + 35) (Some g) = (int (len + 35), Some f) \<and>
    link_session_open (Some r) (Some f) (Some g)
      = (0, Some (r\<lparr>se_rx_counter := se_tx_counter s + 1\<rparr>), Some (opened ch mid (take len pt)))"
proof -
  have "link_session_open (Some r) (Some (sealed s ch mid (take len pt))) (Some g)
      = (0, Some (r\<lparr>se_rx_counter := se_tx_counter s + 1\<rparr>), Some (opened ch mid (take len pt)))"
    using assms by (intro link_session_open_sealed) auto
  then show ?thesis
    using link_session_seal_decode [of s len pt cap out ch mid g] assms by blast
qed

section \<open>Properties\<close>

text \<open>
  C3: Session round trip. A message sealed by one end is, after frame decoding, opened by the other
  end (same key, key id and session number, opposite direction, receive counter behind the send
  counter): it yields the same channel, message id and plaintext, and both counters advance to the
  frame's counter.
\<close>

theorem link_session_seal_open:
  assumes "session_wf s" "peers s r" "se_open s" "se_open r" "len \<le> 216" "len \<le> length pt"
    and "len + 35 \<le> cap" "cap \<le> length out" "se_rx_counter r < se_tx_counter s + 1"
  shows "\<exists>out' f. link_session_seal (Some s) ch mid (Some pt) len (Some out) cap
      = (int (len + 35), Some (s\<lparr>se_tx_counter := se_tx_counter s + 1\<rparr>), Some out') \<and>
    link_frame_decode (Some out') (len + 35) (Some g) = (int (len + 35), Some f) \<and>
    link_session_open (Some r) (Some f) (Some g)
      = (0, Some (r\<lparr>se_rx_counter := se_tx_counter s + 1\<rparr>), Some (opened ch mid (take len pt)))"
  by (rule seal_decode_open [OF assms])

definition demo_session :: "u8 \<Rightarrow> link_session" where
  "demo_session dir = \<lparr>se_key = replicate 16 7, se_key_id = 1, se_session = 5, se_tx_counter = 3,
     se_rx_counter = 2, se_tx_dir = dir, se_open = True\<rparr>"

theorem link_session_seal_open_witness:
  "\<exists>out' f. link_session_seal (Some (demo_session 1)) 2 9 (Some [1, 2, 3]) 3 (Some (replicate 60 0)) 60
      = (38, Some ((demo_session 1)\<lparr>se_tx_counter := 4\<rparr>), Some out') \<and>
    link_frame_decode (Some out') 38 (Some link_frame_zero) = (38, Some f) \<and>
    link_session_open (Some (demo_session 0)) (Some f) (Some link_frame_zero)
      = (0, Some ((demo_session 0)\<lparr>se_rx_counter := 4\<rparr>), Some (opened 2 9 [1, 2, 3]))"
  using link_session_seal_open [of "demo_session 1" "demo_session 0" 3 "[1, 2, 3]" 60 "replicate 60 0" 2 9
      link_frame_zero]
  by (simp add: demo_session_def session_wf_def peers_def)

text \<open>
  C9: Replay protection. Of any sequence of received frames, a session accepts frames with strictly
  increasing counters above its receive counter, so no frame is accepted twice.
\<close>

theorem link_session_no_replay:
  "sorted_wrt (<) (se_rx_counter r # map (le64 \<circ> fr_payload) (accepted r fs)) \<and>
   distinct (accepted r fs)"
proof -
  have "sorted_wrt (<) (map (le64 \<circ> fr_payload) (accepted r fs))"
    using accepted_counters [of r fs] by simp
  then have "distinct (map (le64 \<circ> fr_payload) (accepted r fs))"
    using strict_sorted_iff by blast
  then show ?thesis using accepted_counters by (auto simp: distinct_map)
qed

text \<open>
  C19: Nonce uniqueness. Of any sequence of fewer than \<open>2 ^ 64\<close> seal calls on a session, exactly
  the calls with a plaintext of at most 216 bytes and room for the frame send a frame, if the session is
  open. The ciphertext and tag of each frame sent are the encryption of its plaintext under the session's
  key, with the nonce of the session, of its direction and of the counter that the frame carries, and with the
  frame's header and counter as associated data; and these nonces are pairwise different.
\<close>

theorem link_session_nonces_distinct:
  assumes "session_wf s" "length cs < 2 ^ 64"
  shows "map fst (sent s cs) = map (\<lambda>(ch, mid, pt, out). pt) (filter (sendable s) cs) \<and>
    (\<forall>(p, f) \<in> set (sent s cs). gcm_seal (se_key s) (frame_nonce s f) (header_aad f @ take 8 (fr_payload f)) p
      = (slice 8 (length p) (fr_payload f), slice (8 + length p) 16 (fr_payload f))) \<and>
    distinct (map (frame_nonce s \<circ> snd) (sent s cs))"
proof -
  obtain ks where ks: "sorted_wrt (<) (map fst ks)" "\<forall>k\<in>set ks. fst k < length cs" "sent s cs = map (sealed_at s) ks"
    "map snd ks = map (\<lambda>(ch, mid, pt, out). (ch, mid, pt)) (filter (sendable s) cs)"
    using sent_sealed [OF assms(1)] by blast
  have wf: "session_wf (s\<lparr>se_tx_counter := c\<rparr>)" for c using assms(1) by (simp add: session_wf_def)
  have "\<forall>x\<in>set (map snd ks). length (snd (snd x)) \<le> 216" unfolding ks(4) by (auto simp: sendable_def)
  then have len: "length (snd (snd (snd k))) \<le> 216" if "k \<in> set ks" for k using that by auto
  have nonce: "frame_nonce s (snd (sealed_at s k)) = nonce_for s (se_tx_dir s) (se_tx_counter s + of_nat (fst k) + 1)"
    if "k \<in> set ks" for k
    using sealed_cipher(1) [OF wf, of "snd (snd (snd k))"] len [OF that]
    by (cases k) (simp add: frame_nonce_def sealed_at_def)
  have "map fst (sent s cs) = map (\<lambda>x. snd (snd x)) (map snd ks)"
    by (simp add: ks(3) sealed_at_def comp_def split_beta)
  also have "\<dots> = map (\<lambda>(ch, mid, pt, out). pt) (filter (sendable s) cs)" unfolding ks(4) by (simp add: comp_def split_beta)
  finally have pts: "map fst (sent s cs) = map (\<lambda>(ch, mid, pt, out). pt) (filter (sendable s) cs)" .
  have enc: "gcm_seal (se_key s) (frame_nonce s f) (header_aad f @ take 8 (fr_payload f)) p
      = (slice 8 (length p) (fr_payload f), slice (8 + length p) 16 (fr_payload f))"
    if pf: "sealed_at s k = (p, f)" "k \<in> set ks" for p f k
    using pf(1) nonce [OF pf(2)] sealed_cipher(2) [OF wf, of p] len [OF pf(2)]
    by (auto simp: sealed_at_def nonce_for_def split: prod.splits)
  have "inj_on (\<lambda>k. frame_nonce s (snd (sealed_at s k))) (set ks)"
    using nonce_counter_inj [OF assms(2) ks(1,2)] nonce by (simp cong: inj_on_cong)
  moreover have "distinct ks" using ks(1) by (metis distinct_map strict_sorted_iff)
  ultimately show ?thesis
    using pts enc ks(3) by (auto simp: distinct_map comp_def)
qed

theorem link_session_nonces_distinct_witness:
  "map fst (sent (demo_session 1) [(1, 2, [3], replicate 40 0), (1, 3, [4], replicate 20 0), (1, 4, [5], replicate 40 0)]) = [[3], [5]] \<and>
   distinct (map (frame_nonce (demo_session 1) \<circ> snd)
     (sent (demo_session 1) [(1, 2, [3], replicate 40 0), (1, 3, [4], replicate 20 0), (1, 4, [5], replicate 40 0)]))"
  using link_session_nonces_distinct [of "demo_session 1" "[(1, 2, [3], replicate 40 0), (1, 3, [4], replicate 20 0), (1, 4, [5], replicate 40 0)]"]
  by (simp add: session_wf_def demo_session_def sendable_def comp_def del: sent.simps)

text \<open>
  C34: The hello exchange restarts the nonce sequence. A hello frame is not authenticated. When a
  session that accepted one is given the same frame again with the same session number, after sealing a message
  and with counters that have moved in any way, it returns to the state after the first hello and seals the next message
  under the nonce of the first message again. The two frames carry the same counter, and the exclusive or of their
  ciphertexts is the exclusive or of the two plaintexts.
\<close>

theorem link_session_hello_resets:
  assumes "session_wf s" "link_session_accept_hello (Some s) (Some h) sid = (0, Some s1)"
    and "length p \<le> 216" "length q = length p" "length p + 35 \<le> length outa" "length p + 35 \<le> length outb"
  shows "\<exists>s2 s3 w1 w2 f1 f2.
    link_session_seal (Some s1) ch1 mid1 (Some p) (length p) (Some outa) (length outa)
      = (int (length p + 35), Some s2, Some w1) \<and>
    link_session_accept_hello (Some (s2\<lparr>se_tx_counter := a, se_rx_counter := b\<rparr>)) (Some h) sid = (0, Some s1) \<and>
    link_session_seal (Some s1) ch2 mid2 (Some q) (length q) (Some outb) (length outb)
      = (int (length p + 35), Some s3, Some w2) \<and>
    link_frame_decode (Some w1) (length p + 35) (Some link_frame_zero) = (int (length p + 35), Some f1) \<and>
    link_frame_decode (Some w2) (length p + 35) (Some link_frame_zero) = (int (length p + 35), Some f2) \<and>
    le64 (fr_payload f1) = 1 \<and> le64 (fr_payload f2) = 1 \<and>
    map2 (XOR) (slice 8 (length p) (fr_payload f1)) (slice 8 (length p) (fr_payload f2)) = map2 (XOR) p q"
proof -
  note again = accept_hello_again [OF assms(2)]
  have wf: "session_wf s1" using assms(1) accept_hello_key [OF assms(2)] by (simp add: session_wf_def)
  let ?f1 = "sealed s1 ch1 mid1 p" and ?f2 = "sealed s1 ch2 mid2 q" and ?s2 = "s1\<lparr>se_tx_counter := se_tx_counter s1 + 1\<rparr>"
  obtain w1 where w1: "link_session_seal (Some s1) ch1 mid1 (Some p) (length p) (Some outa) (length outa)
      = (int (length p + 35), Some ?s2, Some w1)"
    "link_frame_decode (Some w1) (length p + 35) (Some link_frame_zero) = (int (length p + 35), Some ?f1)"
    using link_session_seal_decode [OF wf again(4), of "length p" p "length outa" outa ch1 mid1 link_frame_zero] assms(3,5)
    by auto
  obtain w2 where w2: "link_session_seal (Some s1) ch2 mid2 (Some q) (length q) (Some outb) (length outb)
      = (int (length p + 35), Some ?s2, Some w2)"
    "link_frame_decode (Some w2) (length p + 35) (Some link_frame_zero) = (int (length p + 35), Some ?f2)"
    using link_session_seal_decode [OF wf again(4), of "length q" q "length outb" outb ch2 mid2 link_frame_zero] assms(3,4,6)
    by auto
  have "link_session_accept_hello (Some (?s2\<lparr>se_tx_counter := a, se_rx_counter := b\<rparr>)) (Some h) sid = (0, Some s1)"
    using again(1) by simp
  moreover have "le64 (fr_payload ?f1) = 1" "le64 (fr_payload ?f2) = 1"
    using sealed_cipher(1) [OF wf] assms(3,4) again(2) by simp_all
  ultimately show ?thesis using w1 w2 sealed_reuse [OF wf assms(3,4), of ch1 mid1 ch2 mid2] by blast
qed

definition hello_demo :: link_frame where
  "hello_demo = link_frame_zero\<lparr>fr_version := 1, fr_length := 10,
     fr_payload := [1, 1, 1, 2, 1, 1, 3, 2, 0, 0] @ replicate 230 0\<rparr>"

lemma hello_demo_fields: "tlv_area (fr_payload hello_demo) 10 (hello_fields 1 0)"
  by (simp add: hello_demo_def tlv_area_def tlv_wf_def hello_fields_def byte_at_def)

lemma hello_demo_accepted:
  "link_session_accept_hello (Some (link_session_init (Some (replicate 16 7)) 1 1)) (Some hello_demo) 1
      = (0, Some ((demo_session 1)\<lparr>se_session := 1, se_tx_counter := 0, se_rx_counter := 0\<rparr>))"
  using hello_frame_fields [OF hello_demo_fields]
  by (simp add: accept_hello_eq hello_ok_def hello_session_def link_session_init_def demo_session_def
      hello_demo_def link_frame_zero_def)

theorem link_session_hello_resets_witness:
  "let s1 = (demo_session 1)\<lparr>se_session := 1, se_tx_counter := 0, se_rx_counter := 0\<rparr> in \<exists>s2 s3 w1 w2 f1 f2.
    link_session_seal (Some s1) 1 2 (Some [65, 66]) 2 (Some (replicate 40 0)) 40 = (37, Some s2, Some w1) \<and>
    link_session_accept_hello (Some (s2\<lparr>se_tx_counter := 7, se_rx_counter := 9\<rparr>)) (Some hello_demo) 1 = (0, Some s1) \<and>
    link_session_seal (Some s1) 1 3 (Some [70, 80]) 2 (Some (replicate 40 0)) 40 = (37, Some s3, Some w2) \<and>
    link_frame_decode (Some w1) 37 (Some link_frame_zero) = (37, Some f1) \<and>
    link_frame_decode (Some w2) 37 (Some link_frame_zero) = (37, Some f2) \<and>
    le64 (fr_payload f1) = 1 \<and> le64 (fr_payload f2) = 1 \<and>
    map2 (XOR) (slice 8 2 (fr_payload f1)) (slice 8 2 (fr_payload f2)) = [65 XOR 70, 66 XOR 80]"
proof -
  have wf: "session_wf (link_session_init (Some (replicate 16 7)) 1 1)"
    by (simp add: session_wf_def link_session_init_def)
  have n: "length [65, 66 :: u8] = 2" "length [70, 80 :: u8] = 2" "length (replicate 40 (0 :: u8)) = 40" "(2 :: nat) + 35 = 37" "int 37 = 37"
    "map2 (XOR) [65, 66 :: u8] [70, 80] = [65 XOR 70, 66 XOR 80]"
    by simp_all
  show ?thesis unfolding Let_def
    by (rule link_session_hello_resets [OF wf hello_demo_accepted, where p = "[65, 66]" and q = "[70, 80]"
      and outa = "replicate 40 0" and outb = "replicate 40 0", unfolded n]) simp_all
qed

text \<open>
  The hello exchange. An encoded hello, decoded by the other end, is accepted exactly when the
  key ids agree and, on a host, the session number is not zero; an accepting device adopts its own
  session number, an accepting host the received one, with both counters reset.
\<close>

theorem link_session_hello_exchange:
  assumes "21 \<le> cap" "cap \<le> length out"
  shows "\<exists>out' f. link_session_encode_hello (Some s) sid mid (Some out) cap = (21, Some out') \<and>
    link_frame_decode (Some out') 21 (Some g) = (21, Some f) \<and>
    link_session_accept_hello (Some r) (Some f) own =
      (if se_key_id r = se_key_id s \<and> (se_tx_dir r = LINK_DIR_DEVICE \<or> sid \<noteq> 0)
       then (0, Some (r\<lparr>se_session := (if se_tx_dir r = LINK_DIR_DEVICE then own else sid),
               se_tx_counter := 0, se_rx_counter := 0, se_open := True\<rparr>))
       else (-1, Some r))"
proof -
  obtain p where p: "Option.bind (link_tlv_put_u8 (Some (replicate 240 0)) 240 (Some 0) 1 1) (\<lambda>(p, used).
      Option.bind (link_tlv_put_u8 (Some p) 240 (Some used) 2 (se_key_id s)) (\<lambda>(p, used).
      link_tlv_put_u16 (Some p) 240 (Some used) 3 sid)) = Some (p, 10)"
    "length p = 240" "tlv_area p 10 (hello_fields (se_key_id s) sid)"
    using hello_payload by blast
  let ?f = "link_frame_zero\<lparr>fr_version := 1, fr_channel := 0, fr_msg_id := mid, fr_length := 10, fr_payload := p\<rparr>"
  let ?g = "link_frame_norm ?f"
  have wf: "link_frame_wf ?f" using p by (simp add: link_frame_wf_def)
  have enc: "link_session_encode_hello (Some s) sid mid (Some out) cap = link_frame_encode (Some ?f) (Some out) cap"
    using p(1) by (simp add: link_session_encode_hello_def link_frame_zero_def)
  have area: "tlv_area (fr_payload ?g) 10 (hello_fields (se_key_id s) sid)"
    using p by (simp add: link_frame_norm_def tlv_area_def hello_fields_def)
  have acc: "link_session_accept_hello (Some r) (Some ?g) own =
      (if se_key_id r = se_key_id s \<and> (se_tx_dir r = LINK_DIR_DEVICE \<or> sid \<noteq> 0)
       then (0, Some (r\<lparr>se_session := (if se_tx_dir r = LINK_DIR_DEVICE then own else sid),
               se_tx_counter := 0, se_rx_counter := 0, se_open := True\<rparr>))
       else (-1, Some r))"
    using hello_frame_fields [OF area]
    by (simp add: accept_hello_eq hello_ok_def hello_session_def link_frame_norm_def link_frame_zero_def
        byte_simps)
  show ?thesis
    using enc acc link_frame_encode_eq [OF wf] wf assms
      link_frame_decode_bytes [OF wf, of 21 "drop 21 out" g] length_link_frame_bytes [OF wf]
    by (simp add: blit_def)
qed

theorem link_session_hello_exchange_witness:
  "\<exists>out' f. link_session_encode_hello (Some (demo_session 0)) 9 2 (Some (replicate 30 0)) 30 = (21, Some out') \<and>
    link_frame_decode (Some out') 21 (Some link_frame_zero) = (21, Some f) \<and>
    link_session_accept_hello (Some (demo_session 1)) (Some f) 4 =
      (0, Some ((demo_session 1)\<lparr>se_session := 4, se_tx_counter := 0, se_rx_counter := 0\<rparr>))"
  using link_session_hello_exchange [of 30 "replicate 30 0" "demo_session 0" 9 2 link_frame_zero "demo_session 1" 4]
  by (simp add: demo_session_def)

text \<open>
  C16: Authenticity. A frame that a session opens carries, after its counter, the ciphertext and tag
  that encrypting the returned plaintext with the session's key, the peer's nonce for that counter
  and the frame's header as associated data produces.
\<close>

theorem link_session_open_authentic:
  assumes "session_wf r" "link_frame_wf f"
    and "link_session_open (Some r) (Some f) (Some g) = (0, Some r', Some q)"
  shows "let n = unat (fr_length f) - 24; c = le64 (fr_payload f);
      d = (if se_tx_dir r = LINK_DIR_HOST then LINK_DIR_DEVICE else LINK_DIR_HOST)
    in gcm_seal (se_key r) (nonce_for r d c) (header_aad f @ take 8 (fr_payload f)) (take n (fr_payload q))
      = (slice 8 n (fr_payload f), slice (8 + n) 16 (fr_payload f)) \<and> fr_length q = of_nat n"
proof -
  define n c d where "n = unat (fr_length f) - 24" and "c = le64 (fr_payload f)"
    and "d = (if se_tx_dir r = LINK_DIR_HOST then LINK_DIR_DEVICE else LINK_DIR_HOST)"
  let ?aad = "header_aad f @ take 8 (fr_payload f)" and ?pl = "fr_payload f"
  let ?dec = "link_aesgcm_decrypt (Some (se_key r)) (Some (nonce_for r d c)) (Some ?aad) 15
      (Some (drop 8 ?pl)) n (Some (drop (8 + n) ?pl)) (Some (fr_payload link_frame_zero))"
  have wf: "length ?pl = 240" "unat (fr_length f) \<le> 240" using assms(2) by (simp_all add: link_frame_wf_def)
  have dec: "\<not> fr_length f < 24" "fst ?dec = 0" "fr_payload q = opt_buf (snd ?dec)" "fr_length q = of_nat n"
    using assms(3)
    by (auto simp: link_session_open_def Let_def n_def c_def d_def split: if_splits prod.splits)
  then have n: "n + 24 \<le> 240" using wf by (simp add: n_def word_less_nat_alt)
  have "?dec = (case gcm_open (se_key r) (nonce_for r d c) (take 15 ?aad) (take n (drop 8 ?pl)) (take 16 (drop (8 + n) ?pl)) of
        None \<Rightarrow> (-1, Some (fr_payload link_frame_zero))
      | Some p \<Rightarrow> (0, Some (blit (fr_payload link_frame_zero) 0 p)))"
    using assms(1) wf n by (intro link_aesgcm_decrypt_open) (auto simp: link_frame_zero_def)
  then obtain p where p: "gcm_open (se_key r) (nonce_for r d c) ?aad (slice 8 n ?pl) (slice (8 + n) 16 ?pl) = Some p"
    "fr_payload q = blit (fr_payload link_frame_zero) 0 p"
    using dec wf by (auto simp: slice_def split: option.splits)
  have "gcm_seal (se_key r) (nonce_for r d c) ?aad p = (slice 8 n ?pl, slice (8 + n) 16 ?pl)"
    using assms(1) wf n p by (intro gcm.dec_sound) auto
  moreover have "length p = n"
    using gcm.dec_length [OF session_gcm_ok [OF assms(1)] _ p(1)] wf n by simp
  ultimately show ?thesis
    unfolding Let_def n_def [symmetric] c_def [symmetric] d_def [symmetric]
    using p(2) dec(4) by (simp add: blit_def)
qed

theorem link_session_open_authentic_witness:
  "let f = sealed (demo_session 1) 2 9 [1, 2, 3] in
    gcm_seal (replicate 16 7) (nonce_for (demo_session 0) 1 4) (header_aad f @ take 8 (fr_payload f)) [1, 2, 3]
      = (slice 8 3 (fr_payload f), slice 11 16 (fr_payload f))"
proof -
  let ?s = "demo_session 1" and ?r = "demo_session 0" and ?f = "sealed (demo_session 1) 2 9 [1, 2, 3]"
  have wf: "session_wf ?s" "session_wf ?r" "link_frame_wf ?f"
    using sealed_wf(1) [of ?s "[1, 2, 3]"] by (simp_all add: session_wf_def demo_session_def)
  have open_ok: "link_session_open (Some ?r) (Some ?f) (Some link_frame_zero)
      = (0, Some (?r\<lparr>se_rx_counter := se_tx_counter ?s + 1\<rparr>), Some (opened 2 9 [1, 2, 3]))"
    using wf by (intro link_session_open_sealed) (simp_all add: peers_def demo_session_def)
  have "unat (fr_length ?f) = 27" "le64 (fr_payload ?f) = 4"
    by (simp_all add: sealed_def Let_def seal_frame_sel demo_session_def le64_counter_bytes)
  then show ?thesis
    using link_session_open_authentic [OF wf(2,3) open_ok]
    by (simp add: Let_def opened_def demo_session_def [of 0])
qed

end
