(* ===== verification/Aes_Cipher.thy ===== *)
theory Aes_Cipher
  imports Link_Crypto
begin

text \<open>
  The AES block cipher of \<^verbatim>\<open>link/link_crypto.c\<close> against FIPS-197: the substitution table is the
  affine image of the inverse in GF(2^8) (checked entry by entry), every layer of a round is
  injective, and so the cipher is a permutation of the 16-byte blocks under every key schedule.
\<close>

lemma length_k_sbox: "length k_sbox = 256"
  by (simp add: k_sbox_def)
primrec radix_distinct :: "nat \<Rightarrow> u8 list \<Rightarrow> bool" where
  "radix_distinct 0 xs = (length xs \<le> 1)"
| "radix_distinct (Suc k) xs =
    (radix_distinct k (filter (\<lambda>x. bit x k) xs) \<and> radix_distinct k (filter (\<lambda>x. \<not> bit x k) xs))"

lemma radix_distinct: "radix_distinct k xs \<Longrightarrow> distinct xs"
proof (induction k arbitrary: xs)
  case 0
  then show ?case by (cases xs) auto
next
  case (Suc k)
  then have d: "distinct (filter (\<lambda>x. bit x k) xs)" "distinct (filter (\<lambda>x. \<not> bit x k) xs)"
    by auto
  have "distinct ys" if "distinct (filter P ys)" "distinct (filter (\<lambda>x. \<not> P x) ys)" for P and ys :: "u8 list"
    using that by (induction ys) (auto split: if_splits)
  then show ?case using d .
qed

lemma distinct_k_sbox: "distinct k_sbox"
  by (rule radix_distinct [of 8]) code_simp

lemma sbox_inj: "sbox x = sbox y \<longleftrightarrow> x = y"
proof -
  have "unat z < 2 ^ LENGTH(8)" for z :: u8 by (rule unsigned_less)
  then show ?thesis
    using nth_eq_iff_index_eq [OF distinct_k_sbox, of "unat x" "unat y"] length_k_sbox
    by (simp add: sbox_def word_unat_eq_iff)
qed
lemma xtime_xor: "xtime (a XOR b) = xtime a XOR xtime b"
proof -
  have h: "x AND 0x80 \<noteq> 0 \<longleftrightarrow> bit x 7" for x :: u8
    using and_exp_eq_0_iff_not_bit [of x 7] by simp
  show ?thesis
    unfolding xtime_def h by (simp only: push_bit_xor bit_xor_iff) (auto simp: ac_simps simp del: push_bit_numeral)
qed
definition mul9 :: "u8 \<Rightarrow> u8" where "mul9 a = xtime (xtime (xtime a)) XOR a"
definition mul11 :: "u8 \<Rightarrow> u8" where "mul11 a = xtime (xtime (xtime a)) XOR xtime a XOR a"
definition mul13 :: "u8 \<Rightarrow> u8" where "mul13 a = xtime (xtime (xtime a)) XOR xtime (xtime a) XOR a"
definition mul14 :: "u8 \<Rightarrow> u8" where
  "mul14 a = xtime (xtime (xtime a)) XOR xtime (xtime a) XOR xtime a"

definition inv_mix_column :: "u8 list \<Rightarrow> u8 list" where
  "inv_mix_column b =
    [mul14 (b!0) XOR mul11 (b!1) XOR mul13 (b!2) XOR mul9 (b!3),
     mul9 (b!0) XOR mul14 (b!1) XOR mul11 (b!2) XOR mul13 (b!3),
     mul13 (b!0) XOR mul9 (b!1) XOR mul14 (b!2) XOR mul11 (b!3),
     mul11 (b!0) XOR mul13 (b!1) XOR mul9 (b!2) XOR mul14 (b!3)]"

lemma inv_mix_column: "inv_mix_column (mix_column a0 a1 a2 a3) = [a0, a1, a2, a3]"
  by (simp add: inv_mix_column_def mix_column_def mul9_def mul11_def mul13_def mul14_def xtime_xor
      xor.assoc xor.left_commute xor.commute)

lemma add_round_key_inj:
  "blk16 s \<Longrightarrow> blk16 t \<Longrightarrow> add_round_key s rk = add_round_key t rk \<longleftrightarrow> s = t"
  by (auto simp: add_round_key_eq list_eq_iff_nth_eq blk16_def)

lemma sub_bytes_inj: "blk16 s \<Longrightarrow> blk16 t \<Longrightarrow> sub_bytes s = sub_bytes t \<longleftrightarrow> s = t"
  by (simp add: sub_bytes_eq inj_map_eq_map inj_def sbox_inj)

lemma shift_rows_inj: "blk16 s \<Longrightarrow> blk16 t \<Longrightarrow> shift_rows s = shift_rows t \<longleftrightarrow> s = t"
  by (erule blk16_cases, erule blk16_cases) (auto simp: shift_rows_eq)

lemma mix_column_inj: "mix_column a0 a1 a2 a3 = mix_column b0 b1 b2 b3 \<longleftrightarrow> [a0, a1, a2, a3] = [b0, b1, b2, b3]"
proof
  assume "mix_column a0 a1 a2 a3 = mix_column b0 b1 b2 b3"
  then have "inv_mix_column (mix_column a0 a1 a2 a3) = inv_mix_column (mix_column b0 b1 b2 b3)"
    by (rule arg_cong)
  then show "[a0, a1, a2, a3] = [b0, b1, b2, b3]" by (simp only: inv_mix_column)
qed simp

lemma length_mix_column [simp]: "length (mix_column a b c d) = 4"
  by (simp add: mix_column_def)

lemma mix_columns_inj: "blk16 s \<Longrightarrow> blk16 t \<Longrightarrow> mix_columns s = mix_columns t \<longleftrightarrow> s = t"
  by (erule blk16_cases, erule blk16_cases) (simp add: mix_columns_eq mix_column_inj)

lemma aes_rounds_inj:
  "blk16 s \<Longrightarrow> blk16 t \<Longrightarrow> fold (aes_round rk) rs s = fold (aes_round rk) rs t \<longleftrightarrow> s = t"
  by (induction rs arbitrary: s t)
    (auto simp: aes_round_def add_round_key_inj mix_columns_inj shift_rows_inj sub_bytes_inj)

lemma aes_encrypt_block_inj:
  "blk16 s \<Longrightarrow> blk16 t \<Longrightarrow> aes_encrypt_block rk s = aes_encrypt_block rk t \<longleftrightarrow> s = t"
  by (simp add: aes_encrypt_block_def Let_def add_round_key_inj shift_rows_inj sub_bytes_inj
      aes_rounds_inj)

lemma aes_encrypt_block_bij: "bij_betw (aes_encrypt_block rk) {b. blk16 b} {b. blk16 b}"
proof -
  have inj: "inj_on (aes_encrypt_block rk) {b. blk16 b}"
    by (auto intro: inj_onI simp: aes_encrypt_block_inj)
  have fin: "finite {b. blk16 b}"
    using finite_lists_length_eq [of "UNIV :: u8 set" 16] by (simp add: blk16_def)
  have "aes_encrypt_block rk ` {b. blk16 b} = {b. blk16 b}"
    by (rule endo_inj_surj [OF fin _ inj]) auto
  then show ?thesis using inj by (simp add: bij_betw_def)
qed

section \<open>The S-box\<close>

primrec gf_mul_acc :: "nat \<Rightarrow> u8 \<Rightarrow> u8 \<Rightarrow> u8" where
  "gf_mul_acc 0 a b = 0"
| "gf_mul_acc (Suc n) a b = (if b AND 1 \<noteq> 0 then a else 0) XOR gf_mul_acc n (xtime a) (drop_bit 1 b)"

definition gf_mul :: "u8 \<Rightarrow> u8 \<Rightarrow> u8" where
  "gf_mul = gf_mul_acc 8"

definition rotl8 :: "nat \<Rightarrow> u8 \<Rightarrow> u8" where
  "rotl8 k x = push_bit k x OR drop_bit (8 - k) x"

definition sbox_affine :: "u8 \<Rightarrow> u8" where
  "sbox_affine x = x XOR rotl8 1 x XOR rotl8 2 x XOR rotl8 3 x XOR rotl8 4 x XOR 0x63"
definition sbox_affine_inv :: "u8 \<Rightarrow> u8" where
  "sbox_affine_inv x = rotl8 1 x XOR rotl8 3 x XOR rotl8 6 x XOR 0x05"

fun sbox_ok :: "u8 list \<Rightarrow> u8 \<Rightarrow> bool" where
  "sbox_ok [] x = True"
| "sbox_ok (s # ss) x = (let y = sbox_affine_inv s in
    (if x = 0 then y = 0 else gf_mul x y = 1) \<and> sbox_affine y = s \<and> sbox_ok ss (x + 1))"

lemma sbox_ok: "sbox_ok k_sbox 0"
  by code_simp
lemma sbox_ok_nth:
  "sbox_ok ss x \<Longrightarrow> i < length ss \<Longrightarrow>
    (let y = sbox_affine_inv (ss ! i) in
      (if x + of_nat i = 0 then y = 0 else gf_mul (x + of_nat i) y = 1) \<and> sbox_affine y = ss ! i)"
proof (induction ss x arbitrary: i rule: sbox_ok.induct)
  case (2 s ss x)
  show ?case
  proof (cases i)
    case 0
    then show ?thesis using 2 by (simp add: Let_def)
  next
    case (Suc j)
    have e: "(x + 1) + of_nat j = x + of_nat (Suc j)" by (simp add: add.assoc)
    have "sbox_ok ss (x + 1)" "j < length ss" using 2(2,3) Suc by (simp_all add: Let_def)
    from 2(1) [OF refl this] show ?thesis unfolding e Suc by (simp only: nth_Cons_Suc)
  qed
qed simp

section \<open>Properties\<close>

text \<open>
  C22: The substitution table is the one of FIPS-197: the entry of every byte is the affine image of
  its multiplicative inverse in GF(2^8), with zero mapped as its own inverse.
\<close>

theorem sbox_field_inverse:
  "\<exists>y. sbox x = sbox_affine y \<and> (if x = 0 then y = 0 else gf_mul x y = 1)"
proof -
  have "unat x < 2 ^ LENGTH(8)" by (rule unsigned_less)
  then have "unat x < length k_sbox" by (simp add: length_k_sbox)
  from sbox_ok_nth [OF sbox_ok this] show ?thesis
    by (intro exI [of _ "sbox_affine_inv (sbox x)"], cases "x = 0") (simp_all add: sbox_def Let_def)
qed

text \<open>
  C21: The block cipher is a permutation: under every key, encryption maps the 16-byte blocks
  one to one onto the 16-byte blocks.
\<close>

theorem aes_encrypt_permutation:
  "bij_betw (aes_encrypt_block (expand_key key)) {b. length b = 16} {b. length b = 16}"
  using aes_encrypt_block_bij [of "expand_key key"] by (simp add: blk16_def)

end
