(* ===== verification/Ring_Queue.thy ===== *)
theory Ring_Queue
  imports Ardu_Prelude
begin

text \<open>
  Bounded first-in first-out queues. The event bus and the input service
  each keep a ring buffer (an array, a head index and a count, and a tail index).
  \<open>ring_list\<close> reads the queued elements off such a ring; the locale \<open>bounded_queue\<close> is the contract
  that the services rely on, interpreted in each of them on the service's own push and pop.
\<close>

section \<open>Rings\<close>

definition ring_wf :: "nat \<Rightarrow> 'a list \<Rightarrow> nat \<Rightarrow> nat \<Rightarrow> nat \<Rightarrow> bool" where
  "ring_wf n buf head tail count \<longleftrightarrow>
     length buf = n \<and> head < n \<and> count \<le> n \<and> tail = (head + count) mod n"

definition ring_list :: "nat \<Rightarrow> 'a list \<Rightarrow> nat \<Rightarrow> nat \<Rightarrow> 'a list" where
  "ring_list n buf head count = map (\<lambda>i. buf ! ((head + i) mod n)) [0..<count]"

lemma length_ring_list [simp]: "length (ring_list n buf head count) = count"
  by (simp add: ring_list_def)

lemma ring_slot_fresh:
  assumes "i < c" "c < n" "h < (n::nat)"
  shows "(h + i) mod n \<noteq> (h + c) mod n"
proof
  assume "(h + i) mod n = (h + c) mod n"
  then have "n dvd c - i"
    using assms(1) mod_eq_dvd_iff_nat [of "h + i" "h + c" n] by simp
  then show False using assms by (auto dest: dvd_imp_le)
qed

lemma ring_push:
  assumes "ring_wf n buf h t c" "c < n"
  shows "ring_wf n (buf[t := x]) h ((t + 1) mod n) (c + 1)"
    and "ring_list n (buf[t := x]) h (c + 1) = ring_list n buf h c @ [x]"
proof -
  have n: "length buf = n" "h < n" "t = (h + c) mod n" using assms by (simp_all add: ring_wf_def)
  show "ring_wf n (buf[t := x]) h ((t + 1) mod n) (c + 1)"
    using assms by (simp add: ring_wf_def mod_Suc_eq)
  have "(buf[t := x]) ! ((h + i) mod n) = buf ! ((h + i) mod n)" if "i < c" for i
    using ring_slot_fresh [OF that assms(2) n(2)] n by simp
  then show "ring_list n (buf[t := x]) h (c + 1) = ring_list n buf h c @ [x]"
    using n by (simp add: ring_list_def)
qed

lemma ring_pop:
  assumes "ring_wf n buf h t c" "0 < c"
  shows "ring_wf n buf ((h + 1) mod n) t (c - 1)"
    and "ring_list n buf h c = buf ! h # ring_list n buf ((h + 1) mod n) (c - 1)"
proof -
  obtain k where k: "c = Suc k" using assms(2) by (cases c) auto
  show "ring_wf n buf ((h + 1) mod n) t (c - 1)"
    using assms by (simp add: k ring_wf_def mod_simps)
  have "[0..<c] = 0 # map Suc [0..<c - 1]"
    using assms(2) by (simp add: upt_conv_Cons map_Suc_upt)
  then show "ring_list n buf h c = buf ! h # ring_list n buf ((h + 1) mod n) (c - 1)"
    using assms by (simp add: ring_list_def ring_wf_def mod_simps comp_def)
qed

section \<open>The queue contract\<close>

locale bounded_queue =
  fixes wf :: "'s \<Rightarrow> bool"
    and items :: "'s \<Rightarrow> 'a list"
    and cap :: nat
    and push :: "'a \<Rightarrow> 's \<Rightarrow> 's"
    and front :: "'s \<Rightarrow> 'a"
    and pop :: "'s \<Rightarrow> 's"
  assumes items_cap: "wf s \<Longrightarrow> length (items s) \<le> cap"
    and push_wf: "wf s \<Longrightarrow> wf (push x s)"
    and push_items: "wf s \<Longrightarrow> items (push x s) = (if length (items s) < cap then items s @ [x] else items s)"
    and pop_wf: "wf s \<Longrightarrow> items s \<noteq> [] \<Longrightarrow> wf (pop s)"
    and pop_items: "wf s \<Longrightarrow> items s \<noteq> [] \<Longrightarrow> items s = front s # items (pop s)"
begin

lemma pushes_wf: "wf s \<Longrightarrow> wf (fold push xs s)"
  by (induction xs arbitrary: s) (auto simp: push_wf)

lemma pushes_items: "wf s \<Longrightarrow> items (fold push xs s) = take cap (items s @ xs)"
proof (induction xs arbitrary: s)
  case Nil
  then show ?case using items_cap by simp
next
  case (Cons x xs)
  then show ?case using items_cap [of s] by (simp add: push_wf push_items take_Cons')
qed

lemma pops_items:
  assumes "wf s" "n \<le> length (items s)"
  shows "wf ((pop ^^ n) s)" "items ((pop ^^ n) s) = drop n (items s)"
  using assms(2)
proof (induction n)
  case (Suc n)
  {
    case 1
    then have "items ((pop ^^ n) s) \<noteq> []" using Suc by simp
    then show ?case using Suc 1 by (simp add: pop_wf)
  next
    case 2
    then have "items ((pop ^^ n) s) \<noteq> []" using Suc by simp
    from pop_items [OF _ this] show ?case using Suc 2 by (metis Suc_leD drop_Suc list.sel(3) tl_drop funpow.simps(2) comp_apply)
  }
qed (simp_all add: assms(1))

lemma fifo:
  assumes "wf s" "items s = []" "length xs \<le> cap" "i < length xs"
  shows "front ((pop ^^ i) (fold push xs s)) = xs ! i"
proof -
  let ?s = "fold push xs s"
  have it: "wf ?s" "items ?s = xs" using assms by (simp_all add: pushes_wf pushes_items)
  then have "wf ((pop ^^ i) ?s)" "items ((pop ^^ i) ?s) = drop i xs"
    using pops_items [of ?s i] assms(4) by simp_all
  then show ?thesis
    using pop_items [of "(pop ^^ i) ?s"] assms(4) by (metis Cons_nth_drop_Suc list.inject list.distinct(1))
qed

end

end
