(* ===== verification/Event_Bus.thy ===== *)
theory Event_Bus
  imports Ring_Queue
begin

text \<open>
  The event bus (\<^verbatim>\<open>kernel/event.c\<close>): topics with prioritised subscribers, a ring of sixteen queued
  events and a non-reentrant spin lock. The whole of \<open>g_event_system\<close> and \<open>g_event_lock\<close> is the record
  \<open>event_system\<close>. A callback is a number; what the callbacks do is a parameter \<open>cb\<close> of the delivering
  operations, a partial transformer of the event system and of the subscribers' own state. Taking the
  lock while it is held spins forever, so every operation that takes the lock returns an option,
  and \<open>None\<close> is a call that does not return. The lock is that of all builds but the PlatformIO build for
  the ESP8266, whose \<open>event_lock\<close> only sets the flag and never waits.
\<close>

definition EVENT_MAX_DATA :: nat where [simp]: "EVENT_MAX_DATA = 32"
definition EVENT_TOPIC_MAX :: nat where [simp]: "EVENT_TOPIC_MAX = 16"
definition EVENT_MAX_SUBSCRIBERS :: nat where [simp]: "EVENT_MAX_SUBSCRIBERS = 8"
definition EVENT_QUEUE_SIZE :: nat where [simp]: "EVENT_QUEUE_SIZE = 16"
definition EVENT_MAX_TOPICS :: nat where [simp]: "EVENT_MAX_TOPICS = 32"

datatype event_priority =
  EVENT_PRIO_LOW | EVENT_PRIO_NORMAL | EVENT_PRIO_HIGH | EVENT_PRIO_CRITICAL | EVENT_PRIO_SYNC

datatype event_type =
  EVENT_TYPE_SYSTEM | EVENT_TYPE_DRIVER | EVENT_TYPE_UI | EVENT_TYPE_NETWORK | EVENT_TYPE_STORAGE
  | EVENT_TYPE_POWER | EVENT_TYPE_CUSTOM

fun prio_rank :: "event_priority \<Rightarrow> nat" where
  "prio_rank EVENT_PRIO_LOW = 0"
| "prio_rank EVENT_PRIO_NORMAL = 1"
| "prio_rank EVENT_PRIO_HIGH = 2"
| "prio_rank EVENT_PRIO_CRITICAL = 3"
| "prio_rank EVENT_PRIO_SYNC = 4"

lemma prio_rank_inj: "prio_rank p = prio_rank q \<longleftrightarrow> p = q"
  by (cases p; cases q) simp_all

instantiation event_priority :: linorder
begin

definition less_eq_event_priority :: "event_priority \<Rightarrow> event_priority \<Rightarrow> bool" where
  "less_eq_event_priority p q \<longleftrightarrow> prio_rank p \<le> prio_rank q"

definition less_event_priority :: "event_priority \<Rightarrow> event_priority \<Rightarrow> bool" where
  "less_event_priority p q \<longleftrightarrow> prio_rank p < prio_rank q"

instance
  by standard (auto simp: less_eq_event_priority_def less_event_priority_def prio_rank_inj)

end

record event =
  ev_type :: event_type
  ev_topic :: string
  ev_timestamp :: u32
  ev_source_app_id :: u32
  ev_data_size :: u32
  ev_data :: "u8 list"

record event_subscription =
  es_topic :: string
  es_callback :: "nat option"
  es_arg :: nat
  es_priority :: event_priority
  es_app_id :: u32
  es_active :: bool

record event_topic =
  et_subs :: "event_subscription list"
  et_count :: nat

record event_system =
  sy_topics :: "event_topic list"
  sy_topic_count :: nat
  sy_queue :: "event list"
  sy_queue_head :: nat
  sy_queue_tail :: nat
  sy_queue_count :: nat
  sy_lock :: bool

section \<open>Definitions\<close>

definition event_zero :: event where
  "event_zero = \<lparr>ev_type = EVENT_TYPE_SYSTEM, ev_topic = '''', ev_timestamp = 0, ev_source_app_id = 0,
     ev_data_size = 0, ev_data = replicate EVENT_MAX_DATA 0\<rparr>"

definition sub_zero :: event_subscription where
  "sub_zero = \<lparr>es_topic = '''', es_callback = None, es_arg = 0, es_priority = EVENT_PRIO_LOW,
     es_app_id = 0, es_active = False\<rparr>"

definition topic_zero :: event_topic where
  "topic_zero = \<lparr>et_subs = replicate EVENT_MAX_SUBSCRIBERS sub_zero, et_count = 0\<rparr>"

definition event_system_init :: event_system where
  "event_system_init =
    \<lparr>sy_topics = replicate EVENT_MAX_TOPICS topic_zero, sy_topic_count = 0,
     sy_queue = replicate EVENT_QUEUE_SIZE event_zero, sy_queue_head = 0, sy_queue_tail = 0,
     sy_queue_count = 0, sy_lock = False\<rparr>"

definition event_system_deinit :: "event_system \<Rightarrow> event_system" where
  "event_system_deinit s = event_system_init\<lparr>sy_lock := sy_lock s\<rparr>"

definition event_lock :: "event_system \<Rightarrow> event_system option" where
  "event_lock s = (if sy_lock s then None else Some (s\<lparr>sy_lock := True\<rparr>))"

definition event_unlock :: "event_system \<Rightarrow> event_system" where
  "event_unlock s = s\<lparr>sy_lock := False\<rparr>"

definition topic_named :: "event_system \<Rightarrow> string \<Rightarrow> nat \<Rightarrow> bool" where
  "topic_named s topic i \<longleftrightarrow> es_topic (et_subs (sy_topics s ! i) ! 0) = topic"

definition event_find_topic :: "string \<Rightarrow> event_system \<Rightarrow> nat option" where
  "event_find_topic topic s = List.find (topic_named s topic) [0..<sy_topic_count s]"

definition event_find_or_create_topic :: "string \<Rightarrow> event_system \<Rightarrow> nat option \<times> event_system" where
  "event_find_or_create_topic topic s =
    (case List.find (topic_named s topic) [0..<sy_topic_count s] of
       Some i \<Rightarrow> (Some i, s)
     | None \<Rightarrow>
         if sy_topic_count s \<ge> EVENT_MAX_TOPICS then (None, s)
         else (Some (sy_topic_count s),
               s\<lparr>sy_topics := (sy_topics s)[sy_topic_count s := topic_zero],
                 sy_topic_count := sy_topic_count s + 1\<rparr>))"

fun sub_bubble :: "event_subscription list \<Rightarrow> nat \<Rightarrow> event_subscription list" where
  "sub_bubble subs 0 = subs"
| "sub_bubble subs (Suc i) =
    (if es_priority (subs ! Suc i) > es_priority (subs ! i)
     then sub_bubble (subs[Suc i := subs ! i, i := subs ! Suc i]) i
     else subs)"

definition event_subscribe ::
    "u32 \<Rightarrow> string option \<Rightarrow> nat option \<Rightarrow> nat \<Rightarrow> event_priority \<Rightarrow> event_system \<Rightarrow> (int \<times> event_system) option" where
  "event_subscribe app_id topic callback arg priority s =
    (case (topic, callback) of
       (Some tp, Some c) \<Rightarrow>
         Option.bind (event_lock s) (\<lambda>s.
           case event_find_or_create_topic tp s of
             (None, s) \<Rightarrow> Some (-1, event_unlock s)
           | (Some k, s) \<Rightarrow>
               let t = sy_topics s ! k in
               if et_count t \<ge> EVENT_MAX_SUBSCRIBERS then Some (-1, event_unlock s)
               else
                 let n = et_count t;
                     sub = \<lparr>es_topic = strncpy0 (EVENT_TOPIC_MAX - 1) tp, es_callback = Some c, es_arg = arg,
                            es_priority = priority, es_app_id = app_id, es_active = True\<rparr>;
                     t' = \<lparr>et_subs = sub_bubble ((et_subs t)[n := sub]) n, et_count = n + 1\<rparr>
                 in Some (0, event_unlock (s\<lparr>sy_topics := (sy_topics s)[k := t']\<rparr>)))
     | _ \<Rightarrow> Some (-1, s))"

definition sub_remove :: "event_topic \<Rightarrow> nat \<Rightarrow> event_topic" where
  "sub_remove t i =
    \<lparr>et_subs = fold (\<lambda>j subs. subs[j := subs ! (j + 1)]) [i..<et_count t - 1] (et_subs t),
     et_count = et_count t - 1\<rparr>"

definition event_unsubscribe :: "u32 \<Rightarrow> string option \<Rightarrow> event_system \<Rightarrow> (int \<times> event_system) option" where
  "event_unsubscribe app_id topic s =
    (case topic of
       None \<Rightarrow> Some (-1, s)
     | Some tp \<Rightarrow>
         Option.bind (event_lock s) (\<lambda>s.
           case event_find_topic tp s of
             None \<Rightarrow> Some (-1, event_unlock s)
           | Some k \<Rightarrow>
               let t = sy_topics s ! k in
               case List.find (\<lambda>i. es_app_id (et_subs t ! i) = app_id) [0..<et_count t] of
                 None \<Rightarrow> Some (0, event_unlock s)
               | Some i \<Rightarrow> Some (0, event_unlock (s\<lparr>sy_topics := (sy_topics s)[k := sub_remove t i]\<rparr>))))"

type_synonym 'w callbacks =
  "nat \<Rightarrow> nat \<Rightarrow> event \<Rightarrow> event_system \<times> 'w \<Rightarrow> (event_system \<times> 'w) option"

partial_function (option) event_deliver_loop ::
    "'w callbacks \<Rightarrow> event \<Rightarrow> nat \<Rightarrow> nat \<Rightarrow> int \<Rightarrow> event_system \<times> 'w \<Rightarrow> (int \<times> event_system \<times> 'w) option" where
  "event_deliver_loop cb ev k i delivered sw =
    (let t = sy_topics (fst sw) ! k in
     if i < et_count t
     then let sub = et_subs t ! i in
       (case es_callback sub of
          Some c \<Rightarrow>
            if es_active sub
            then Option.bind (cb c (es_arg sub) ev sw) (\<lambda>sw. event_deliver_loop cb ev k (i + 1) (delivered + 1) sw)
            else event_deliver_loop cb ev k (i + 1) delivered sw
        | None \<Rightarrow> event_deliver_loop cb ev k (i + 1) delivered sw)
     else Some (delivered, sw))"

declare event_deliver_loop.simps [code]

definition event_deliver ::
    "'w callbacks \<Rightarrow> event \<Rightarrow> event_system \<times> 'w \<Rightarrow> (int \<times> event_system \<times> 'w) option" where
  "event_deliver cb ev sw =
    (case event_find_topic (ev_topic ev) (fst sw) of
       None \<Rightarrow> Some (0, sw)
     | Some k \<Rightarrow> event_deliver_loop cb ev k 0 0 sw)"

definition event_make ::
    "u32 \<Rightarrow> string \<Rightarrow> u8 list option \<Rightarrow> u32 \<Rightarrow> event_type \<Rightarrow> u32 \<Rightarrow> event" where
  "event_make tick topic data data_size typ source =
    \<lparr>ev_type = typ, ev_topic = strncpy0 (EVENT_TOPIC_MAX - 1) topic, ev_timestamp = tick,
     ev_source_app_id = source, ev_data_size = data_size,
     ev_data = (case data of
        Some d \<Rightarrow> if data_size > 0 then blit (ev_data event_zero) 0 (take (unat data_size) d) else ev_data event_zero
      | None \<Rightarrow> ev_data event_zero)\<rparr>"

definition event_enqueue :: "event \<Rightarrow> event_system \<Rightarrow> int \<times> event_system" where
  "event_enqueue ev s =
    (if sy_queue_count s < EVENT_QUEUE_SIZE
     then (0, s\<lparr>sy_queue := (sy_queue s)[sy_queue_tail s := ev],
                sy_queue_tail := (sy_queue_tail s + 1) mod EVENT_QUEUE_SIZE,
                sy_queue_count := sy_queue_count s + 1\<rparr>)
     else (-1, s))"

definition event_publish ::
    "u32 \<Rightarrow> string option \<Rightarrow> u8 list option \<Rightarrow> u32 \<Rightarrow> event_type \<Rightarrow> u32 \<Rightarrow> event_system \<Rightarrow>
     (int \<times> event_system) option" where
  "event_publish tick topic data data_size typ source s =
    (case topic of
       None \<Rightarrow> Some (-1, s)
     | Some tp \<Rightarrow>
         if data_size > of_nat EVENT_MAX_DATA then Some (-1, s)
         else Option.bind (event_lock s) (\<lambda>s.
           case event_enqueue (event_make tick tp data data_size typ source) s of
             (rc, s) \<Rightarrow> Some (rc, event_unlock s)))"

definition event_publish_sync ::
    "'w callbacks \<Rightarrow> u32 \<Rightarrow> string option \<Rightarrow> u8 list option \<Rightarrow> u32 \<Rightarrow> event_type \<Rightarrow> u32 \<Rightarrow>
     event_system \<times> 'w \<Rightarrow> (int \<times> event_system \<times> 'w) option" where
  "event_publish_sync cb tick topic data data_size typ source sw =
    (case topic of
       None \<Rightarrow> Some (-1, sw)
     | Some tp \<Rightarrow>
         if data_size > of_nat EVENT_MAX_DATA then Some (-1, sw)
         else Option.bind (event_lock (fst sw)) (\<lambda>s.
           Option.bind (event_deliver cb (event_make tick tp data data_size typ source) (s, snd sw)) (\<lambda>(d, s, w).
             Some (d, event_unlock s, w))))"

definition event_dequeue :: "event_system \<Rightarrow> event_system" where
  "event_dequeue s =
    s\<lparr>sy_queue_head := (sy_queue_head s + 1) mod EVENT_QUEUE_SIZE, sy_queue_count := sy_queue_count s - 1\<rparr>"

definition event_front :: "event_system \<Rightarrow> event" where
  "event_front s = sy_queue s ! sy_queue_head s"

text \<open>The loop of \<open>event_process_queue\<close>, entered with the lock held.\<close>

partial_function (option) event_process_loop ::
    "'w callbacks \<Rightarrow> int \<Rightarrow> event_system \<times> 'w \<Rightarrow> (int \<times> event_system \<times> 'w) option" where
  "event_process_loop cb processed sw =
    (let s = fst sw in
     if sy_queue_count s > 0
     then Option.bind (event_deliver cb (event_front s) (event_unlock (event_dequeue s), snd sw)) (\<lambda>r.
            Option.bind (event_lock (fst (snd r))) (\<lambda>s. event_process_loop cb (processed + 1) (s, snd (snd r))))
     else Some (processed, event_unlock s, snd sw))"

declare event_process_loop.simps [code]

definition event_process_queue ::
    "'w callbacks \<Rightarrow> event_system \<times> 'w \<Rightarrow> (int \<times> event_system \<times> 'w) option" where
  "event_process_queue cb sw =
    Option.bind (event_lock (fst sw)) (\<lambda>s. event_process_loop cb 0 (s, snd sw))"

definition topic_cleanup :: "u32 \<Rightarrow> event_topic \<Rightarrow> event_topic" where
  "topic_cleanup app_id t =
    t\<lparr>et_subs := fold (\<lambda>j subs. if es_app_id (subs ! j) = app_id then subs[j := (subs ! j)\<lparr>es_active := False\<rparr>] else subs)
        [0..<et_count t] (et_subs t)\<rparr>"

definition event_cleanup_app :: "u32 \<Rightarrow> event_system \<Rightarrow> event_system option" where
  "event_cleanup_app app_id s =
    Option.bind (event_lock s) (\<lambda>s.
      Some (event_unlock (fold (\<lambda>i s. s\<lparr>sy_topics := (sy_topics s)[i := topic_cleanup app_id (sy_topics s ! i)]\<rparr>)
        [0..<sy_topic_count s] s)))"

text \<open>The three results are \<open>*published\<close>, \<open>*queued\<close> and \<open>*subscribers\<close>.\<close>

definition event_get_stats :: "event_system \<Rightarrow> ((nat \<times> nat \<times> nat) \<times> event_system) option" where
  "event_get_stats s =
    Option.bind (event_lock s) (\<lambda>s.
      Some ((0, sy_queue_count s, foldl (\<lambda>n i. n + et_count (sy_topics s ! i)) 0 [0..<sy_topic_count s]),
        event_unlock s))"

section \<open>Subscriber lists\<close>

definition insert_prio :: "event_subscription \<Rightarrow> event_subscription list \<Rightarrow> event_subscription list" where
  "insert_prio x xs =
    takeWhile (\<lambda>y. es_priority x \<le> es_priority y) xs @ x # dropWhile (\<lambda>y. es_priority x \<le> es_priority y) xs"

abbreviation prio_sorted :: "event_subscription list \<Rightarrow> bool" where
  "prio_sorted \<equiv> sorted_wrt (\<lambda>a b. es_priority b \<le> es_priority a)"

lemma insert_prio_sorted: "prio_sorted xs \<Longrightarrow> prio_sorted (insert_prio x xs)"
proof (induction xs)
  case (Cons y xs)
  then show ?case
    by (auto simp: insert_prio_def dest: set_takeWhileD set_dropWhileD)
qed (simp add: insert_prio_def)

lemma set_insert_prio [simp]: "set (insert_prio x xs) = insert x (set xs)"
  by (metis Un_insert_right insert_prio_def list.simps(15) set_append takeWhile_dropWhile_id)

lemma length_insert_prio [simp]: "length (insert_prio x xs) = Suc (length xs)"
  by (metis add_Suc_right insert_prio_def length_Cons length_append takeWhile_dropWhile_id)

lemma sub_bubble_insert:
  "n < length xs \<Longrightarrow> prio_sorted (take n xs) \<Longrightarrow>
    sub_bubble xs n = insert_prio (xs ! n) (take n xs) @ drop (Suc n) xs"
proof (induction n arbitrary: xs)
  case 0
  then show ?case by (simp add: insert_prio_def Cons_nth_drop_Suc [of 0 xs, simplified] hd_conv_nth [symmetric])
      (cases xs; simp)
next
  case (Suc n)
  let ?x = "xs ! Suc n" and ?y = "xs ! n"
  have tk: "take (Suc n) xs = take n xs @ [?y]" using Suc.prems by (simp add: take_Suc_conv_app_nth)
  have sorted: "prio_sorted (take n xs)" "\<forall>z\<in>set (take n xs). es_priority ?y \<le> es_priority z"
    using Suc.prems(2) unfolding tk by (auto simp: sorted_wrt_append)
  show ?case
  proof (cases "es_priority ?x > es_priority ?y")
    case True
    let ?ys = "xs[Suc n := ?y, n := ?x]"
    have "sub_bubble ?ys n = insert_prio ?x (take n xs) @ drop (Suc n) ?ys"
      using Suc.IH [of ?ys] Suc.prems sorted by simp
    moreover have "drop (Suc n) ?ys = ?y # drop (Suc (Suc n)) xs"
      using Suc.prems by (simp add: drop_update_swap Cons_nth_drop_Suc [symmetric])
    moreover have "insert_prio ?x (take n xs @ [?y]) = insert_prio ?x (take n xs) @ [?y]"
    proof -
      have "\<not> es_priority ?x \<le> es_priority ?y" using True by (simp add: not_le)
      then show ?thesis by (simp add: insert_prio_def takeWhile_tail dropWhile_append)
    qed
    ultimately show ?thesis using True tk by simp
  next
    case False
    then have "\<forall>z\<in>set (take (Suc n) xs). es_priority ?x \<le> es_priority z"
      unfolding tk using sorted by fastforce
    then have "insert_prio ?x (take (Suc n) xs) = take (Suc n) xs @ [?x]"
      by (simp add: insert_prio_def takeWhile_eq_all_conv [THEN iffD2] dropWhile_eq_Nil_conv [THEN iffD2])
    then show ?thesis using False Suc.prems by (simp add: Cons_nth_drop_Suc)
  qed
qed

definition subs_of :: "event_topic \<Rightarrow> event_subscription list" where
  "subs_of t = take (et_count t) (et_subs t)"

definition topic_name :: "event_topic \<Rightarrow> string" where
  "topic_name t = es_topic (et_subs t ! 0)"

definition topic_wf :: "event_topic \<Rightarrow> bool" where
  "topic_wf t \<longleftrightarrow> length (et_subs t) = 8 \<and> et_count t \<le> 8 \<and> prio_sorted (subs_of t) \<and>
     length (topic_name t) \<le> 15 \<and>
     (\<forall>x\<in>set (subs_of t). es_topic x = topic_name t \<and> es_callback x \<noteq> None)"

definition topics_wf :: "event_system \<Rightarrow> bool" where
  "topics_wf s \<longleftrightarrow> length (sy_topics s) = 32 \<and> sy_topic_count s \<le> 32 \<and>
     (\<forall>i < sy_topic_count s. topic_wf (sy_topics s ! i))"

definition event_wf :: "event_system \<Rightarrow> bool" where
  "event_wf s \<longleftrightarrow> topics_wf s \<and>
     ring_wf 16 (sy_queue s) (sy_queue_head s) (sy_queue_tail s) (sy_queue_count s)"

lemma topic_zero_sel [simp]:
  "et_count topic_zero = 0" "length (et_subs topic_zero) = 8" "subs_of topic_zero = []" "topic_name topic_zero = []"
  by (simp_all add: topic_zero_def subs_of_def topic_name_def sub_zero_def)

lemma topic_wf_zero [simp]: "topic_wf topic_zero"
  by (simp add: topic_wf_def)

lemma event_system_init_wf: "event_wf event_system_init"
  by (simp add: event_wf_def topics_wf_def event_system_init_def ring_wf_def)

lemma event_system_init_unlocked: "\<not> sy_lock event_system_init"
  by (simp add: event_system_init_def)

text \<open>The topic after \<open>event_subscribe\<close> has stored the new subscription in it.\<close>

definition topic_add :: "event_topic \<Rightarrow> event_subscription \<Rightarrow> event_topic" where
  "topic_add t sub = \<lparr>et_subs = sub_bubble ((et_subs t)[et_count t := sub]) (et_count t), et_count = et_count t + 1\<rparr>"

lemma topic_add_subs:
  assumes "topic_wf t" "et_count t < 8"
  shows "subs_of (topic_add t sub) = insert_prio sub (subs_of t)" "length (et_subs (topic_add t sub)) = 8"
proof -
  let ?xs = "(et_subs t)[et_count t := sub]"
  have tk: "take (et_count t) ?xs = subs_of t" by (simp add: subs_of_def)
  have b: "sub_bubble ?xs (et_count t) = insert_prio sub (subs_of t) @ drop (Suc (et_count t)) ?xs"
    using assms sub_bubble_insert [of "et_count t" ?xs] unfolding tk by (simp add: topic_wf_def)
  have l: "length (subs_of t) = et_count t" using assms by (simp add: topic_wf_def subs_of_def)
  show "subs_of (topic_add t sub) = insert_prio sub (subs_of t)"
    unfolding subs_of_def [of "topic_add t sub"] by (simp add: topic_add_def b l)
  show "length (et_subs (topic_add t sub)) = 8"
    using assms l by (simp add: topic_add_def b topic_wf_def)
qed

lemma topic_add_wf:
  assumes "topic_wf t" "et_count t < 8" "es_callback sub \<noteq> None" "length (es_topic sub) \<le> 15"
    and "et_count t = 0 \<or> es_topic sub = topic_name t"
  shows "topic_wf (topic_add t sub)" "topic_name (topic_add t sub) = es_topic sub"
proof -
  have s: "subs_of (topic_add t sub) = insert_prio sub (subs_of t)" "length (et_subs (topic_add t sub)) = 8"
    using topic_add_subs [OF assms(1,2)] by auto
  have all: "\<forall>x\<in>set (subs_of (topic_add t sub)). es_topic x = es_topic sub \<and> es_callback x \<noteq> None"
    using assms s(1) by (auto simp: topic_wf_def subs_of_def)
  have c: "et_count (topic_add t sub) = Suc (et_count t)" by (simp add: topic_add_def)
  then have "subs_of (topic_add t sub) ! 0 = et_subs (topic_add t sub) ! 0"
    by (simp add: subs_of_def [of "topic_add t sub"])
  moreover have "0 < length (subs_of (topic_add t sub))" using s by simp
  ultimately have "et_subs (topic_add t sub) ! 0 \<in> set (subs_of (topic_add t sub))" by (metis nth_mem)
  then show n: "topic_name (topic_add t sub) = es_topic sub" using all by (simp add: topic_name_def)
  have "prio_sorted (subs_of (topic_add t sub))"
    using assms(1) s(1) by (simp add: topic_wf_def insert_prio_sorted)
  then show "topic_wf (topic_add t sub)" using all s(2) c n assms(2,4) by (simp add: topic_wf_def)
qed

lemma sub_remove_subs:
  assumes "topic_wf t" "i < et_count t"
  shows "subs_of (sub_remove t i) = take i (subs_of t) @ drop (Suc i) (subs_of t)"
    "length (et_subs (sub_remove t i)) = 8" "et_count (sub_remove t i) = et_count t - 1"
  using assms take_shift_left [of i "et_count t" "et_subs t"]
  by (simp_all add: sub_remove_def subs_of_def topic_wf_def)

lemma sub_remove_name:
  assumes "topic_wf t" "i < et_count t"
  shows "topic_name (sub_remove t i) = topic_name t"
proof -
  have l: "length (et_subs t) = 8" "et_count t \<le> 8" using assms by (simp_all add: topic_wf_def)
  have e: "et_subs (sub_remove t i) = take i (et_subs t) @ take (et_count t - 1 - i) (drop (Suc i) (et_subs t)) @ drop (et_count t - 1) (et_subs t)"
    using fold_shift_left [of i "et_count t - 1" "et_subs t"] assms l by (simp add: sub_remove_def)
  have m: "es_topic (et_subs t ! j) = topic_name t" if "j < et_count t" for j
  proof -
    have "et_subs t ! j \<in> set (subs_of t)" using that l by (auto simp: subs_of_def in_set_conv_nth intro!: exI [of _ j])
    then show ?thesis using assms by (simp add: topic_wf_def)
  qed
  consider "0 < i" | "i = 0" "1 < et_count t" | "i = 0" "et_count t = 1" using assms by linarith
  then show ?thesis
  proof cases
    case 1 then show ?thesis using l assms by (simp add: topic_name_def e nth_append)
  next
    case 2 then show ?thesis using l m [of 1] e by (simp add: topic_name_def [of "sub_remove t 0"] nth_append)
  next
    case 3 then show ?thesis using l e by (simp add: topic_name_def)
  qed
qed

lemma sub_remove_wf:
  assumes "topic_wf t" "i < et_count t"
  shows "topic_wf (sub_remove t i)"
proof -
  have s: "prio_sorted (subs_of t)" using assms by (simp add: topic_wf_def)
  then have "prio_sorted (take i (subs_of t) @ drop (Suc i) (subs_of t))" by (rule sorted_wrt_remove)
  then show ?thesis
    using assms sub_remove_subs [OF assms] sub_remove_name [OF assms]
    by (auto simp: topic_wf_def dest: in_set_takeD in_set_dropD)
qed

section \<open>The operations on the whole system\<close>

definition mk_sub :: "u32 \<Rightarrow> string \<Rightarrow> nat \<Rightarrow> nat \<Rightarrow> event_priority \<Rightarrow> event_subscription" where
  "mk_sub app_id topic c arg priority =
    \<lparr>es_topic = strncpy0 15 topic, es_callback = Some c, es_arg = arg, es_priority = priority,
     es_app_id = app_id, es_active = True\<rparr>"

lemma lock_roundtrip [simp]: "\<not> sy_lock s \<Longrightarrow> s\<lparr>sy_lock := False\<rparr> = s"
  by (cases s) simp

lemma topic_named_lock [simp]: "topic_named (s\<lparr>sy_lock := b\<rparr>) = topic_named s"
  by (intro ext) (simp add: topic_named_def)

lemma find_or_create_lock:
  "event_find_or_create_topic tp (s\<lparr>sy_lock := b\<rparr>) =
    (fst (event_find_or_create_topic tp s), (snd (event_find_or_create_topic tp s))\<lparr>sy_lock := b\<rparr>)"
  by (simp add: event_find_or_create_topic_def split: option.split)

lemma event_subscribe_eq:
  assumes "\<not> sy_lock s"
  shows "event_subscribe app_id (Some tp) (Some c) arg priority s = Some
    (case event_find_or_create_topic tp s of
       (None, s) \<Rightarrow> (-1, s)
     | (Some k, s) \<Rightarrow>
         if et_count (sy_topics s ! k) \<ge> 8 then (-1, s)
         else (0, s\<lparr>sy_topics := (sy_topics s)[k := topic_add (sy_topics s ! k) (mk_sub app_id tp c arg priority)]\<rparr>))"
proof -
  have l: "\<not> sy_lock (snd (event_find_or_create_topic tp s))"
    using assms by (simp add: event_find_or_create_topic_def split: option.split)
  obtain ko s1 where f: "event_find_or_create_topic tp s = (ko, s1)" by fastforce
  have u: "s1\<lparr>sy_topics := ts, sy_lock := False\<rparr> = s1\<lparr>sy_topics := ts\<rparr>" for ts
    using lock_roundtrip [of "s1\<lparr>sy_topics := ts\<rparr>"] l f by simp
  show ?thesis
    using assms l u
    by (simp add: event_subscribe_def event_lock_def event_unlock_def find_or_create_lock Let_def topic_add_def
        mk_sub_def f split: option.split)
qed

lemma find_or_create_cases:
  assumes "topics_wf s"
  obtains (found) k where "event_find_or_create_topic tp s = (Some k, s)" "k < sy_topic_count s"
      "topic_name (sy_topics s ! k) = tp" "event_find_topic tp s = Some k"
  | (full) "event_find_or_create_topic tp s = (None, s)" "event_find_topic tp s = None" "sy_topic_count s = 32"
  | (new) "event_find_or_create_topic tp s = (Some (sy_topic_count s),
        s\<lparr>sy_topics := (sy_topics s)[sy_topic_count s := topic_zero], sy_topic_count := sy_topic_count s + 1\<rparr>)"
      "event_find_topic tp s = None" "sy_topic_count s < 32"
proof (cases "event_find_topic tp s")
  case None
  then have "event_find_or_create_topic tp s = (if sy_topic_count s \<ge> EVENT_MAX_TOPICS then (None, s)
      else (Some (sy_topic_count s),
        s\<lparr>sy_topics := (sy_topics s)[sy_topic_count s := topic_zero], sy_topic_count := sy_topic_count s + 1\<rparr>))"
    by (simp add: event_find_or_create_topic_def event_find_topic_def)
  then show thesis using None full new assms by (cases "sy_topic_count s < 32") (auto simp: topics_wf_def)
next
  case (Some k)
  then have "event_find_or_create_topic tp s = (Some k, s)"
    by (simp add: event_find_or_create_topic_def event_find_topic_def)
  moreover have "k < sy_topic_count s" "topic_name (sy_topics s ! k) = tp"
    using Some by (simp_all add: event_find_topic_def find_upt_Some topic_named_def topic_name_def)
  ultimately show thesis using found Some by blast
qed

lemma topics_wf_update:
  "topics_wf s \<Longrightarrow> topic_wf t \<Longrightarrow> topics_wf (s\<lparr>sy_topics := (sy_topics s)[k := t]\<rparr>)"
  by (auto simp: topics_wf_def nth_update_if)

lemma event_wf_topics: "event_wf (s\<lparr>sy_topics := ts\<rparr>) \<longleftrightarrow> topics_wf (s\<lparr>sy_topics := ts\<rparr>) \<and>
    ring_wf 16 (sy_queue s) (sy_queue_head s) (sy_queue_tail s) (sy_queue_count s)"
  by (simp add: event_wf_def)

lemma mk_sub_sel [simp]:
  "es_callback (mk_sub a tp c g p) = Some c" "es_topic (mk_sub a tp c g p) = strncpy0 15 tp"
  "es_priority (mk_sub a tp c g p) = p" "es_app_id (mk_sub a tp c g p) = a" "es_active (mk_sub a tp c g p)"
  by (simp_all add: mk_sub_def)

lemma event_subscribe_wf:
  assumes "event_wf s" "\<not> sy_lock s"
    and "event_subscribe app_id topic cbk arg priority s = Some (rc, s')"
  shows "event_wf s'" "\<not> sy_lock s'"
proof -
  have "event_wf s' \<and> \<not> sy_lock s'"
  proof (cases "topic = None \<or> cbk = None")
    case True
    then show ?thesis using assms by (auto simp: event_subscribe_def split: option.splits)
  next
    case False
    then obtain tp c where t: "topic = Some tp" "cbk = Some c" by auto
    note e = assms(3) [unfolded t event_subscribe_eq [OF assms(2)]]
    have wf: "topics_wf s" using assms(1) by (simp add: event_wf_def)
    show ?thesis
    proof (cases tp rule: find_or_create_cases [OF wf])
      case (1 k)
      have tk: "topic_wf (sy_topics s ! k)" using wf 1 by (simp add: topics_wf_def)
      then have "length tp \<le> 15" using 1 by (auto simp: topic_wf_def)
      with tk 1 have "topic_wf (topic_add (sy_topics s ! k) (mk_sub app_id tp c arg priority))"
        if "et_count (sy_topics s ! k) < 8"
        using that by (intro topic_add_wf) auto
      then show ?thesis
        using e 1 assms by (auto simp: event_wf_topics event_wf_def topics_wf_update split: if_splits)
    next
      case 2
      then show ?thesis using e assms by simp
    next
      case 3
      let ?s = "s\<lparr>sy_topics := (sy_topics s)[sy_topic_count s := topic_zero], sy_topic_count := sy_topic_count s + 1\<rparr>"
      have wf': "topics_wf ?s" using wf 3 by (auto simp: topics_wf_def nth_list_update less_Suc_eq)
      have z: "sy_topics ?s ! sy_topic_count s = topic_zero" using wf 3 by (simp add: topics_wf_def)
      have "topic_wf (topic_add topic_zero (mk_sub app_id tp c arg priority))"
        by (rule topic_add_wf) auto
      from topics_wf_update [OF wf' this, of "sy_topic_count s"] show ?thesis
        using e 3 assms z by (auto simp: event_wf_def)
    qed
  qed
  then show "event_wf s'" "\<not> sy_lock s'" by auto
qed

lemma topic_cleanup_subs:
  assumes "et_count t \<le> length (et_subs t)"
  shows "subs_of (topic_cleanup a t) = map (\<lambda>x. if es_app_id x = a then x\<lparr>es_active := False\<rparr> else x) (subs_of t)"
    "length (et_subs (topic_cleanup a t)) = length (et_subs t)" "et_count (topic_cleanup a t) = et_count t"
    "topic_name (topic_cleanup a t) = topic_name t"
proof -
  let ?f = "\<lambda>x. if es_app_id x = a then x\<lparr>es_active := False\<rparr> else x"
  have fe: "(\<lambda>j subs. if es_app_id (subs ! j) = a then subs[j := (subs ! j)\<lparr>es_active := False\<rparr>] else subs)
      = (\<lambda>j subs. subs[j := ?f (subs ! j)])"
    by (intro ext) simp
  have e: "et_subs (topic_cleanup a t) = map (\<lambda>i. ?f (et_subs t ! i)) [0..<et_count t] @ drop (et_count t) (et_subs t)"
    unfolding topic_cleanup_def fe
    using fold_update_upt [of "et_count t" "et_subs t" "\<lambda>_. ?f"] assms by simp
  show c: "et_count (topic_cleanup a t) = et_count t" by (simp add: topic_cleanup_def)
  show "subs_of (topic_cleanup a t) = map ?f (subs_of t)"
    using assms by (intro nth_equalityI) (simp_all add: subs_of_def e c)
  show "length (et_subs (topic_cleanup a t)) = length (et_subs t)" using assms by (simp add: e)
  show "topic_name (topic_cleanup a t) = topic_name t"
    using assms by (cases "et_count t = 0") (simp_all add: topic_name_def e nth_append)
qed

lemma topic_cleanup_wf: "topic_wf t \<Longrightarrow> topic_wf (topic_cleanup a t)"
  using topic_cleanup_subs [of t a]
  by (auto simp: topic_wf_def sorted_wrt_map if_distrib cong: if_cong elim: sorted_wrt_mono_rel [rotated])

lemma cleanup_fold:
  "n \<le> length (sy_topics s) \<Longrightarrow>
    fold (\<lambda>i s. s\<lparr>sy_topics := (sy_topics s)[i := topic_cleanup a (sy_topics s ! i)]\<rparr>) [0..<n] s
      = s\<lparr>sy_topics := map (\<lambda>i. topic_cleanup a (sy_topics s ! i)) [0..<n] @ drop n (sy_topics s)\<rparr>"
proof (induction n)
  case (Suc n)
  then have "drop n (sy_topics s) = sy_topics s ! n # drop (Suc n) (sy_topics s)" by (simp add: Cons_nth_drop_Suc)
  then show ?case using Suc by (simp add: list_update_append nth_append)
qed simp

lemma event_cleanup_app_eq:
  assumes "event_wf s" "\<not> sy_lock s"
  shows "event_cleanup_app a s = Some (s\<lparr>sy_topics :=
      map (\<lambda>i. topic_cleanup a (sy_topics s ! i)) [0..<sy_topic_count s] @ drop (sy_topic_count s) (sy_topics s)\<rparr>)"
proof -
  have "sy_topic_count s \<le> length (sy_topics s)" using assms by (simp add: event_wf_def topics_wf_def)
  then show ?thesis
    using assms cleanup_fold [of "sy_topic_count s" "s\<lparr>sy_lock := True\<rparr>" a]
      lock_roundtrip [of "s\<lparr>sy_topics := _\<rparr>"]
    by (simp add: event_cleanup_app_def event_lock_def event_unlock_def)
qed

lemma event_cleanup_app_wf:
  assumes "event_wf s" "\<not> sy_lock s" "event_cleanup_app a s = Some s'"
  shows "event_wf s'" "\<not> sy_lock s'"
  using assms event_cleanup_app_eq [OF assms(1,2), of a]
  by (auto simp: event_wf_def topics_wf_def nth_append topic_cleanup_wf)

lemma event_find_topic_lock [simp]: "event_find_topic tp (s\<lparr>sy_lock := b\<rparr>) = event_find_topic tp s"
  by (simp add: event_find_topic_def)

lemma event_find_topicD:
  "event_find_topic tp s = Some k \<Longrightarrow> k < sy_topic_count s \<and> topic_name (sy_topics s ! k) = tp"
  by (simp add: event_find_topic_def find_upt_Some topic_named_def topic_name_def)

definition app_sub :: "u32 \<Rightarrow> event_topic \<Rightarrow> nat option" where
  "app_sub a t = List.find (\<lambda>i. es_app_id (et_subs t ! i) = a) [0..<et_count t]"

lemma event_unsubscribe_eq:
  assumes "\<not> sy_lock s"
  shows "event_unsubscribe a (Some tp) s = Some
    (case event_find_topic tp s of
       None \<Rightarrow> (-1, s)
     | Some k \<Rightarrow> (case app_sub a (sy_topics s ! k) of
          None \<Rightarrow> (0, s)
        | Some i \<Rightarrow> (0, s\<lparr>sy_topics := (sy_topics s)[k := sub_remove (sy_topics s ! k) i]\<rparr>)))"
  using assms lock_roundtrip [of "s\<lparr>sy_topics := _\<rparr>"]
  by (simp add: event_unsubscribe_def event_lock_def event_unlock_def app_sub_def Let_def split: option.split)

lemma event_unsubscribe_wf:
  assumes "event_wf s" "\<not> sy_lock s" "event_unsubscribe a topic s = Some (rc, s')"
  shows "event_wf s'" "\<not> sy_lock s'"
proof -
  have "event_wf s' \<and> \<not> sy_lock s'"
  proof (cases topic)
    case None
    then show ?thesis using assms by (simp add: event_unsubscribe_def)
  next
    case (Some tp)
    have "topic_wf (sub_remove (sy_topics s ! k) i)"
      if "event_find_topic tp s = Some k" "app_sub a (sy_topics s ! k) = Some i" for k i
      using that assms(1) event_find_topicD [OF that(1)]
      by (intro sub_remove_wf) (auto simp: event_wf_def topics_wf_def app_sub_def find_upt_Some)
    then show ?thesis
      using assms(1,2) assms(3) [unfolded Some event_unsubscribe_eq [OF assms(2)]]
      by (auto simp: event_wf_topics event_wf_def topics_wf_update split: option.splits)
  qed
  then show "event_wf s'" "\<not> sy_lock s'" by auto
qed

section \<open>The queue\<close>

definition event_queue :: "event_system \<Rightarrow> event list" where
  "event_queue s = ring_list 16 (sy_queue s) (sy_queue_head s) (sy_queue_count s)"

interpretation eq: bounded_queue event_wf event_queue 16 "\<lambda>ev s. snd (event_enqueue ev s)" event_front event_dequeue
proof
  fix s :: event_system and ev :: event
  assume wf: "event_wf s"
  then have r: "ring_wf 16 (sy_queue s) (sy_queue_head s) (sy_queue_tail s) (sy_queue_count s)"
    by (simp add: event_wf_def)
  show "length (event_queue s) \<le> 16" using r by (simp add: event_queue_def ring_wf_def)
  show "event_wf (snd (event_enqueue ev s))"
    using wf ring_push(1) [OF r, of ev] by (simp add: event_wf_def topics_wf_def event_enqueue_def)
  show "event_queue (snd (event_enqueue ev s))
      = (if length (event_queue s) < 16 then event_queue s @ [ev] else event_queue s)"
    using ring_push(2) [OF r, of ev] by (simp add: event_queue_def event_enqueue_def)
  assume "event_queue s \<noteq> []"
  then have c: "0 < sy_queue_count s" by (simp add: event_queue_def ring_list_def)
  show "event_wf (event_dequeue s)"
    using wf ring_pop(1) [OF r c] by (simp add: event_wf_def topics_wf_def event_dequeue_def)
  show "event_queue s = event_front s # event_queue (event_dequeue s)"
    using ring_pop(2) [OF r c] by (simp add: event_queue_def event_dequeue_def event_front_def)
qed

lemma event_publish_eq:
  assumes "\<not> sy_lock s"
  shows "event_publish tick (Some tp) data n typ src s =
    (if n > 32 then Some (-1, s) else Some (event_enqueue (event_make tick tp data n typ src) s))"
proof -
  let ?ev = "event_make tick tp data n typ src"
  have "event_enqueue ?ev (s\<lparr>sy_lock := True\<rparr>) = (fst (event_enqueue ?ev s), (snd (event_enqueue ?ev s))\<lparr>sy_lock := True\<rparr>)"
    by (simp add: event_enqueue_def)
  moreover have "\<not> sy_lock (snd (event_enqueue ?ev s))" using assms by (simp add: event_enqueue_def)
  ultimately show ?thesis
    using assms by (simp add: event_publish_def event_lock_def event_unlock_def)
qed

lemma event_publish_wf:
  assumes "event_wf s" "\<not> sy_lock s" "event_publish tick topic data n typ src s = Some (rc, s')"
  shows "event_wf s'" "\<not> sy_lock s'"
proof -
  have "event_wf s' \<and> \<not> sy_lock s'"
  proof (cases topic)
    case None
    then show ?thesis using assms by (simp add: event_publish_def)
  next
    case (Some tp)
    let ?ev = "event_make tick tp data n typ src"
    have "event_wf (snd (event_enqueue ?ev s))" using eq.push_wf [OF assms(1)] .
    moreover have "\<not> sy_lock (snd (event_enqueue ?ev s))" using assms by (simp add: event_enqueue_def)
    ultimately show ?thesis
      using assms(1,2) assms(3) [unfolded Some event_publish_eq [OF assms(2)]]
      by (metis option.inject snd_conv)
  qed
  then show "event_wf s'" "\<not> sy_lock s'" by auto
qed

section \<open>Who is called\<close>

definition subscribers :: "event_system \<Rightarrow> string \<Rightarrow> event_subscription list" where
  "subscribers s topic = (case event_find_topic topic s of None \<Rightarrow> [] | Some k \<Rightarrow> subs_of (sy_topics s ! k))"

lemma find_topic_names:
  assumes "sy_topic_count s' = sy_topic_count s"
    and "\<And>i. i < sy_topic_count s \<Longrightarrow> topic_name (sy_topics s' ! i) = topic_name (sy_topics s ! i)"
  shows "event_find_topic tp s' = event_find_topic tp s"
  unfolding event_find_topic_def assms(1)
  by (rule find_upt_cong) (use assms(2) in \<open>simp add: topic_named_def topic_name_def\<close>)

lemma subscribers_update:
  assumes "topics_wf s" "event_find_topic tp s = Some k" "topic_name t = tp"
  shows "subscribers (s\<lparr>sy_topics := (sy_topics s)[k := t]\<rparr>) tp' = (if tp' = tp then subs_of t else subscribers s tp')"
proof -
  let ?s = "s\<lparr>sy_topics := (sy_topics s)[k := t]\<rparr>"
  have k: "k < sy_topic_count s" "topic_name (sy_topics s ! k) = tp" "sy_topic_count s \<le> length (sy_topics s)"
    using event_find_topicD [OF assms(2)] assms(1) by (auto simp: topics_wf_def)
  have f: "event_find_topic x ?s = event_find_topic x s" for x
    using k assms(3) by (intro find_topic_names) (auto simp: nth_update_if)
  have "k' \<noteq> k" if "event_find_topic tp' s = Some k'" "tp' \<noteq> tp" for k'
    using that event_find_topicD [OF that(1)] k by auto
  then show ?thesis
    using k assms(2) by (auto simp: subscribers_def f nth_update_if split: option.split dest: event_find_topicD)
qed

lemma subscribers_new:
  assumes "topics_wf s" "event_find_topic tp s = None" "sy_topic_count s < 32" "topic_name t = tp"
  shows "subscribers (s\<lparr>sy_topics := (sy_topics s)[sy_topic_count s := t], sy_topic_count := sy_topic_count s + 1\<rparr>) tp'
    = (if tp' = tp then subs_of t else subscribers s tp')"
proof -
  let ?n = "sy_topic_count s" and ?s = "s\<lparr>sy_topics := (sy_topics s)[sy_topic_count s := t], sy_topic_count := sy_topic_count s + 1\<rparr>"
  have n: "?n < length (sy_topics s)" using assms by (simp add: topics_wf_def)
  have named: "topic_named ?s x i = topic_named s x i" if "i < ?n" for x i
    using that n by (simp add: topic_named_def nth_update_if)
  have last: "topic_named ?s x ?n \<longleftrightarrow> x = tp" for x
    using n assms(4) by (auto simp: topic_named_def topic_name_def)
  have "event_find_topic tp ?s = Some ?n"
    using assms(2) named last by (simp add: event_find_topic_def find_upt_Some find_upt_None del: upt_Suc)
  moreover have "event_find_topic tp' ?s = event_find_topic tp' s" if "tp' \<noteq> tp"
  proof -
    have "List.find (topic_named ?s tp') [0..<?n] = List.find (topic_named s tp') [0..<?n]"
      using named by (intro find_upt_cong)
    then show ?thesis using that last [of tp'] by (simp add: event_find_topic_def find_append split: option.split)
  qed
  ultimately show ?thesis
    using n by (auto simp: subscribers_def nth_update_if split: option.split dest!: event_find_topicD)
qed

text \<open>
  Callbacks that leave the event system alone and change only the subscribers' own state \<open>w\<close>, by
  \<open>f callback arg event\<close>.
\<close>

definition quiet :: "(nat \<Rightarrow> nat \<Rightarrow> event \<Rightarrow> 'w \<Rightarrow> 'w) \<Rightarrow> 'w callbacks" where
  "quiet f c arg ev sw = Some (fst sw, f c arg ev (snd sw))"

definition live :: "event_subscription \<Rightarrow> bool" where
  "live sub \<longleftrightarrow> es_active sub \<and> es_callback sub \<noteq> None"

definition calls :: "(nat \<Rightarrow> nat \<Rightarrow> event \<Rightarrow> 'w \<Rightarrow> 'w) \<Rightarrow> event \<Rightarrow> event_subscription list \<Rightarrow> 'w \<Rightarrow> 'w" where
  "calls f ev subs = fold (\<lambda>sub. f (the (es_callback sub)) (es_arg sub) ev) (filter live subs)"

lemma event_deliver_loop_quiet:
  assumes "et_count (sy_topics s ! k) \<le> length (et_subs (sy_topics s ! k))"
  shows "event_deliver_loop (quiet f) ev k i d (s, w) = Some
    (d + int (length (filter live (drop i (subs_of (sy_topics s ! k))))), s,
     calls f ev (drop i (subs_of (sy_topics s ! k))) w)"
proof (induction "et_count (sy_topics s ! k) - i" arbitrary: i d w)
  case 0
  then show ?case
    by (subst event_deliver_loop.simps) (simp add: Let_def calls_def subs_of_def)
next
  case (Suc n)
  let ?t = "sy_topics s ! k"
  have i: "i < et_count ?t" using Suc by simp
  then have dr: "drop i (subs_of ?t) = et_subs ?t ! i # drop (Suc i) (subs_of ?t)"
    using assms by (simp add: subs_of_def Cons_nth_drop_Suc [symmetric])
  have ih: "event_deliver_loop (quiet f) ev k (Suc i) d' (s, w') = Some
    (d' + int (length (filter live (drop (Suc i) (subs_of ?t)))), s, calls f ev (drop (Suc i) (subs_of ?t)) w')" for d' w'
    using Suc by simp
  show ?case
    using i dr ih by (subst event_deliver_loop.simps)
      (auto simp: Let_def quiet_def live_def calls_def split: option.split)
qed

lemma event_deliver_quiet:
  assumes "event_wf s"
  shows "event_deliver (quiet f) ev (s, w) = Some
    (int (length (filter live (subscribers s (ev_topic ev)))), s, calls f ev (subscribers s (ev_topic ev)) w)"
proof (cases "event_find_topic (ev_topic ev) s")
  case None
  then show ?thesis by (simp add: event_deliver_def subscribers_def calls_def)
next
  case (Some k)
  then have "topic_wf (sy_topics s ! k)"
    using assms event_find_topicD by (auto simp: event_wf_def topics_wf_def)
  then have "et_count (sy_topics s ! k) \<le> length (et_subs (sy_topics s ! k))" by (simp add: topic_wf_def)
  from event_deliver_loop_quiet [OF this, of f ev 0 0 w] show ?thesis
    using Some by (simp add: event_deliver_def subscribers_def)
qed

lemma subscribers_cong: "sy_topics s = sy_topics s' \<Longrightarrow> sy_topic_count s = sy_topic_count s' \<Longrightarrow> subscribers s = subscribers s'"
  using find_topic_names [of s s'] by (intro ext) (simp add: subscribers_def split: option.split)

lemma event_process_loop_quiet:
  assumes "event_wf s" "sy_lock s"
  shows "\<exists>s'. event_process_loop (quiet f) n (s, w) = Some (n + int (length (event_queue s)), s',
      fold (\<lambda>ev. calls f ev (subscribers s (ev_topic ev))) (event_queue s) w)
    \<and> event_wf s' \<and> \<not> sy_lock s' \<and> event_queue s' = [] \<and> subscribers s' = subscribers s"
  using assms
proof (induction "length (event_queue s)" arbitrary: s n w)
  case 0
  then have "sy_queue_count s = 0" by (simp add: event_queue_def)
  moreover have "event_wf (event_unlock s)" "event_queue (event_unlock s) = event_queue s"
      "subscribers (event_unlock s) = subscribers s"
    using 0 by (auto simp: event_unlock_def event_wf_def topics_wf_def event_queue_def intro!: subscribers_cong)
  ultimately show ?case using 0 by (subst event_process_loop.simps) (simp add: event_unlock_def)
next
  case (Suc m)
  let ?d = "event_dequeue s" and ?ev = "event_front s"
  have ne: "event_queue s \<noteq> []" using Suc by auto
  then have c: "0 < sy_queue_count s" by (simp add: event_queue_def ring_list_def)
  have it: "event_queue s = ?ev # event_queue ?d" "event_wf ?d"
    using eq.pop_items [OF Suc.prems(1) ne] eq.pop_wf [OF Suc.prems(1) ne] by auto
  have lk: "(event_unlock ?d)\<lparr>sy_lock := True\<rparr> = ?d"
    using Suc.prems by (simp add: event_unlock_def event_dequeue_def)
  have u: "event_wf (event_unlock ?d)" "subscribers (event_unlock ?d) = subscribers s" "subscribers ?d = subscribers s"
    using it(2) by (auto simp: event_unlock_def event_wf_def topics_wf_def event_dequeue_def intro!: subscribers_cong)
  have m: "m = length (event_queue ?d)" using Suc.hyps(2) it(1) by simp
  have ld: "sy_lock ?d" using Suc.prems by (simp add: event_dequeue_def)
  obtain s' where s': "event_process_loop (quiet f) (n + 1) (?d, calls f ?ev (subscribers s (ev_topic ?ev)) w)
      = Some (n + 1 + int (length (event_queue ?d)), s',
          fold (\<lambda>ev. calls f ev (subscribers ?d (ev_topic ev))) (event_queue ?d) (calls f ?ev (subscribers s (ev_topic ?ev)) w))"
      "event_wf s'" "\<not> sy_lock s'" "event_queue s' = []" "subscribers s' = subscribers ?d"
    using Suc.hyps(1) [OF m it(2) ld, of "n + 1" "calls f ?ev (subscribers s (ev_topic ?ev)) w"] by blast
  have "event_process_loop (quiet f) n (s, w)
      = event_process_loop (quiet f) (n + 1) (?d, calls f ?ev (subscribers s (ev_topic ?ev)) w)"
    using c lk by (subst event_process_loop.simps)
      (simp add: event_deliver_quiet [OF u(1)] u(2) event_lock_def, simp add: event_unlock_def)
  then show ?case using s' u it(1) by simp
qed

section \<open>Reachable states\<close>

text \<open>
  The calls of the bus that a client, or a callback while it runs, can make. \<open>bus_call cb\<close> runs one
  of them; \<open>cb\<close> is what the callbacks of the subscribers do, for the two calls that deliver.
\<close>

datatype bus_op =
  Subscribe u32 "string option" "nat option" nat event_priority
  | Unsubscribe u32 "string option"
  | Publish u32 "string option" "u8 list option" u32 event_type u32
  | PublishSync u32 "string option" "u8 list option" u32 event_type u32
  | ProcessQueue
  | CleanupApp u32
  | GetStats
  | Deinit

fun bus_call :: "'w callbacks \<Rightarrow> bus_op \<Rightarrow> event_system \<times> 'w \<Rightarrow> (event_system \<times> 'w) option" where
  "bus_call cb (Subscribe a topic c g p) (s, w) = map_option (\<lambda>r. (snd r, w)) (event_subscribe a topic c g p s)"
| "bus_call cb (Unsubscribe a topic) (s, w) = map_option (\<lambda>r. (snd r, w)) (event_unsubscribe a topic s)"
| "bus_call cb (Publish t topic d n ty src) (s, w) = map_option (\<lambda>r. (snd r, w)) (event_publish t topic d n ty src s)"
| "bus_call cb (PublishSync t topic d n ty src) (s, w) = map_option snd (event_publish_sync cb t topic d n ty src (s, w))"
| "bus_call cb ProcessQueue (s, w) = map_option snd (event_process_queue cb (s, w))"
| "bus_call cb (CleanupApp a) (s, w) = map_option (\<lambda>s. (s, w)) (event_cleanup_app a s)"
| "bus_call cb GetStats (s, w) = map_option (\<lambda>r. (snd r, w)) (event_get_stats s)"
| "bus_call cb Deinit (s, w) = Some (event_system_deinit s, w)"

text \<open>The calls that get past their argument checks to the lock.\<close>

fun takes_lock :: "bus_op \<Rightarrow> bool" where
  "takes_lock (Subscribe a topic c g p) \<longleftrightarrow> topic \<noteq> None \<and> c \<noteq> None"
| "takes_lock (Unsubscribe a topic) \<longleftrightarrow> topic \<noteq> None"
| "takes_lock (Publish t topic d n ty src) \<longleftrightarrow> topic \<noteq> None \<and> n \<le> 32"
| "takes_lock (PublishSync t topic d n ty src) \<longleftrightarrow> topic \<noteq> None \<and> n \<le> 32"
| "takes_lock Deinit \<longleftrightarrow> False"
| "takes_lock _ \<longleftrightarrow> True"

text \<open>
  One step of a client: work of its own, or a call that returns. The callbacks that run inside a
  delivering call are themselves sequences of such steps, so a callback may subscribe, publish or
  process the queue again while an event is being delivered.
\<close>

inductive event_step :: "event_system \<times> 'w \<Rightarrow> event_system \<times> 'w \<Rightarrow> bool" where
  own: "event_step (s, w) (s, w')"
| call: "(\<And>c a ev sw sw'. cb c a ev sw = Some sw' \<Longrightarrow> event_step\<^sup>*\<^sup>* sw sw') \<Longrightarrow>
    bus_call cb op sw = Some sw' \<Longrightarrow> event_step sw sw'"

text \<open>What every step keeps: a well-formed system stays well formed, with the lock as it was.\<close>

definition bus_kept :: "event_system \<times> 'w \<Rightarrow> event_system \<times> 'w \<Rightarrow> bool" where
  "bus_kept sw sw' \<longleftrightarrow> (event_wf (fst sw) \<longrightarrow> event_wf (fst sw') \<and> sy_lock (fst sw') = sy_lock (fst sw))"

lemma bus_kept_refl [simp]: "bus_kept sw sw"
  by (simp add: bus_kept_def)

lemma bus_kept_trans: "bus_kept x y \<Longrightarrow> bus_kept y z \<Longrightarrow> bus_kept x z"
  by (simp add: bus_kept_def)

lemma event_wf_lock [simp]: "event_wf (s\<lparr>sy_lock := b\<rparr>) = event_wf s"
  by (simp add: event_wf_def topics_wf_def)

lemma event_deinit_wf [simp]: "event_wf (event_system_deinit s)" "sy_lock (event_system_deinit s) = sy_lock s"
  using event_system_init_wf by (simp_all add: event_system_deinit_def)

lemma event_get_stats_state: "event_get_stats s = Some (r, s') \<Longrightarrow> s' = s"
  by (cases s) (auto simp: event_get_stats_def event_lock_def event_unlock_def split: if_splits)

definition keeping :: "'w callbacks \<Rightarrow> bool" where
  "keeping cb \<longleftrightarrow> (\<forall>c a ev sw sw'. cb c a ev sw = Some sw' \<longrightarrow> bus_kept sw sw')"

lemma event_deliver_loop_kept:
  assumes "keeping cb" "event_deliver_loop cb ev k i d sw = Some r"
  shows "bus_kept sw (snd r)"
proof -
  have "keeping cb \<longrightarrow> bus_kept sw (snd r)"
  proof (rule event_deliver_loop.raw_induct [where P = "\<lambda>cb ev k i d sw r. keeping cb \<longrightarrow> bus_kept sw (snd r)",
        OF _ assms(2)], rule impI, goal_cases)
    case (1 loop cb ev k i d sw r)
    let ?sub = "et_subs (sy_topics (fst sw) ! k) ! i"
    have ih: "bus_kept sw' (snd r)" if "loop cb ev k j d' sw' = Some r" for j d' sw'
      using 1(1) [OF that] 1(3) by blast
    show ?case
    proof (cases "i < et_count (sy_topics (fst sw) ! k)")
      case False
      then show ?thesis using 1(2) by (auto simp: Let_def)
    next
      case in_range: True
      show ?thesis
      proof (cases "es_callback ?sub = None \<or> \<not> es_active ?sub")
        case True
        then have "loop cb ev k (i + 1) d sw = Some r"
          using 1(2) in_range by (cases "es_callback ?sub") (simp_all add: Let_def)
        then show ?thesis by (rule ih)
      next
        case False
        then obtain c where c: "es_callback ?sub = Some c" "es_active ?sub" by auto
        then obtain sw' where sw': "cb c (es_arg ?sub) ev sw = Some sw'" "loop cb ev k (i + 1) (d + 1) sw' = Some r"
          using 1(2) in_range by (simp add: Let_def bind_eq_Some_conv) blast
        then have "bus_kept sw sw'" using 1(3) unfolding keeping_def by blast
        then show ?thesis using ih [OF sw'(2)] by (rule bus_kept_trans)
      qed
    qed
  qed
  then show ?thesis using assms(1) by blast
qed

lemma event_deliver_kept:
  assumes "keeping cb" "event_deliver cb ev sw = Some r"
  shows "bus_kept sw (snd r)"
proof (cases "event_find_topic (ev_topic ev) (fst sw)")
  case None
  then show ?thesis using assms by (auto simp: event_deliver_def)
next
  case (Some k)
  then show ?thesis using assms event_deliver_loop_kept by (simp add: event_deliver_def)
qed

lemma event_dequeue_wf:
  assumes "event_wf s" "0 < sy_queue_count s"
  shows "event_wf (event_dequeue s)"
proof -
  have "event_queue s \<noteq> []" using assms(2) by (simp add: event_queue_def ring_list_def)
  then show ?thesis using assms(1) eq.pop_wf by blast
qed

lemma event_process_loop_kept:
  assumes "keeping cb" "event_process_loop cb n sw = Some r" "event_wf (fst sw)"
  shows "event_wf (fst (snd r)) \<and> \<not> sy_lock (fst (snd r)) \<and> sy_queue_count (fst (snd r)) = 0"
proof -
  have "keeping cb \<longrightarrow> event_wf (fst sw) \<longrightarrow>
      event_wf (fst (snd r)) \<and> \<not> sy_lock (fst (snd r)) \<and> sy_queue_count (fst (snd r)) = 0"
  proof (rule event_process_loop.raw_induct [where P = "\<lambda>cb n sw r. keeping cb \<longrightarrow> event_wf (fst sw) \<longrightarrow>
        event_wf (fst (snd r)) \<and> \<not> sy_lock (fst (snd r)) \<and> sy_queue_count (fst (snd r)) = 0", OF _ assms(2)],
      intro impI, goal_cases)
    case (1 loop cb n sw r)
    show ?case
    proof (cases "sy_queue_count (fst sw) > 0")
      case True
      let ?s = "event_unlock (event_dequeue (fst sw))"
      obtain x where x: "event_deliver cb (event_front (fst sw)) (?s, snd sw) = Some x"
        and y: "loop cb (n + 1) ((fst (snd x))\<lparr>sy_lock := True\<rparr>, snd (snd x)) = Some r"
        using 1(2) True by (auto simp: Let_def event_lock_def bind_eq_Some_conv split: if_splits)
      have "event_wf ?s" using event_dequeue_wf [OF 1(4) True] by (simp add: event_unlock_def)
      then have "event_wf (fst (snd x))"
        using event_deliver_kept [OF 1(3) x] by (simp add: bus_kept_def)
      then show ?thesis using 1(1) [OF y] 1(3) by simp
    next
      case False
      then show ?thesis using 1(2,4) by (auto simp: Let_def event_unlock_def)
    qed
  qed
  then show ?thesis using assms by blast
qed

lemma event_process_queue_kept:
  assumes "keeping cb" "event_process_queue cb sw = Some r"
  shows "bus_kept sw (snd r)"
  using assms event_process_loop_kept [OF assms(1), of 0 _ r]
  by (auto simp: event_process_queue_def event_lock_def bus_kept_def split: if_splits)

lemma event_publish_sync_kept:
  assumes "keeping cb" "event_publish_sync cb t topic d n ty src sw = Some r"
  shows "bus_kept sw (snd r)"
proof (cases "topic = None \<or> 32 < n")
  case True
  then show ?thesis using assms by (auto simp: event_publish_sync_def split: option.splits)
next
  case False
  let ?s = "(fst sw)\<lparr>sy_lock := True\<rparr>"
  obtain x where x: "event_deliver cb (event_make t (the topic) d n ty src) (?s, snd sw) = Some x"
      "snd r = (event_unlock (fst (snd x)), snd (snd x))" "\<not> sy_lock (fst sw)"
    using False assms(2)
    by (auto simp: event_publish_sync_def event_lock_def bind_eq_Some_conv split: option.splits if_splits)
  then show ?thesis using event_deliver_kept [OF assms(1) x(1)] by (simp add: bus_kept_def event_unlock_def)
qed

lemma bus_call_locked:
  "sy_lock s \<Longrightarrow> takes_lock op \<Longrightarrow> bus_call cb op (s, w) = None"
  by (cases op) (auto simp: event_subscribe_def event_unsubscribe_def event_publish_def event_publish_sync_def
    event_process_queue_def event_cleanup_app_def event_get_stats_def event_lock_def)

lemma bus_call_refused:
  "\<not> takes_lock op \<Longrightarrow> bus_call cb op (s, w) = Some sw' \<Longrightarrow> sw' = (s, w) \<or> sw' = (event_system_deinit s, w)"
  by (cases op) (auto simp: event_subscribe_def event_unsubscribe_def event_publish_def event_publish_sync_def not_le
    split: option.splits)

lemma bus_call_kept:
  assumes "keeping cb" "bus_call cb op (s, w) = Some sw'"
  shows "bus_kept (s, w) sw'"
proof (cases "sy_lock s \<or> \<not> takes_lock op")
  case True
  then have "sw' = (s, w) \<or> sw' = (event_system_deinit s, w)"
    using assms(2) bus_call_locked [of s op cb w] bus_call_refused [of op cb s w sw'] by auto
  then show ?thesis by (auto simp: bus_kept_def)
next
  case False
  then show ?thesis
    using assms
    by (cases op) (auto simp: bus_kept_def dest: event_subscribe_wf event_unsubscribe_wf event_publish_wf
      event_cleanup_app_wf event_get_stats_state event_process_queue_kept [unfolded bus_kept_def]
      event_publish_sync_kept [unfolded bus_kept_def])
qed

lemma event_step_kept: "event_step sw sw' \<Longrightarrow> bus_kept sw sw'"
proof (induction rule: event_step.induct)
  case (call cb op sw sw')
  have "bus_kept x y" if "(\<lambda>x y. event_step x y \<and> bus_kept x y)\<^sup>*\<^sup>* x y" for x y :: "event_system \<times> 'a"
    using that by (induction rule: rtranclp_induct) (auto intro: bus_kept_trans)
  then have "keeping cb" using call(1) unfolding keeping_def by blast
  then show ?case using call(2) bus_call_kept [of cb op "fst sw" "snd sw" sw'] by simp
qed (simp add: bus_kept_def)

lemma event_steps_kept: "event_step\<^sup>*\<^sup>* sw sw' \<Longrightarrow> bus_kept sw sw'"
  by (induction rule: rtranclp_induct) (auto intro: bus_kept_trans event_step_kept)

lemma event_subscribe_subscribers:
  assumes "event_wf s" "\<not> sy_lock s" "length tp \<le> 15"
    and "event_subscribe a (Some tp) (Some c) g p s = Some (0, s')"
  shows "subscribers s' tp' = (if tp' = tp then insert_prio (mk_sub a tp c g p) (subscribers s tp) else subscribers s tp')"
proof -
  let ?sub = "mk_sub a tp c g p"
  have wf: "topics_wf s" using assms(1) by (simp add: event_wf_def)
  note e = assms(4) [unfolded event_subscribe_eq [OF assms(2)]]
  have nm: "es_topic ?sub = tp" using assms(3) by simp
  show ?thesis
  proof (cases tp rule: find_or_create_cases [OF wf])
    case (1 k)
    let ?t = "sy_topics s ! k"
    have c: "et_count ?t < 8" and s': "s' = s\<lparr>sy_topics := (sy_topics s)[k := topic_add ?t ?sub]\<rparr>"
      using e 1 by (auto split: if_splits)
    have t: "topic_wf ?t" using wf 1 by (simp add: topics_wf_def)
    have "topic_name (topic_add ?t ?sub) = tp"
      using topic_add_wf(2) [OF t c, of ?sub] nm 1(3) assms(3) by simp
    from subscribers_update [OF wf 1(4) this] show ?thesis
      using s' topic_add_subs(1) [OF t c] 1(4) by (simp add: subscribers_def)
  next
    case 2
    then show ?thesis using e by simp
  next
    case 3
    have z: "(sy_topics s)[sy_topic_count s := topic_zero] ! sy_topic_count s = topic_zero"
      using wf 3 by (simp add: topics_wf_def)
    have s': "s' = s\<lparr>sy_topics := (sy_topics s)[sy_topic_count s := topic_add topic_zero ?sub], sy_topic_count := sy_topic_count s + 1\<rparr>"
      using e 3 z by auto
    have "topic_name (topic_add topic_zero ?sub) = tp"
      using topic_add_wf(2) [of topic_zero ?sub] nm assms(3) by simp
    from subscribers_new [OF wf 3(2,3) this] show ?thesis
      using s' topic_add_subs(1) [of topic_zero ?sub] 3(2) by (simp add: subscribers_def)
  qed
qed

section \<open>Properties\<close>

text \<open>
  C17: Every state that a client of the event bus can reach from \<open>event_system_init\<close> is well formed:
  topic and subscriber counts are within their arrays, the subscribers of a topic are sorted by
  descending priority and carry its name, the queue indices describe a ring of at most sixteen
  events, and the lock is free. A client's steps are all calls of the bus that return: subscribing,
  unsubscribing, publishing queued or synchronously, processing the queue, cleaning up, reading the
  statistics and \<open>event_system_deinit\<close>. The callbacks that run inside a delivery make such calls
  themselves, nested deliveries included.
\<close>

theorem event_bus_invariant:
  "event_step\<^sup>*\<^sup>* (event_system_init, w) (s, w') \<Longrightarrow> event_wf s \<and> \<not> sy_lock s"
  using event_steps_kept event_system_init_wf event_system_init_unlocked by (fastforce simp: bus_kept_def)

text \<open>A callback that answers every event of the topic ''key'' by publishing one on ''log''.\<close>

definition log_keys :: "nat callbacks" where
  "log_keys c a ev = (\<lambda>(s, w). map_option (\<lambda>r. (snd r, w + 1)) (event_publish 9 (Some ''log'') None 0 EVENT_TYPE_UI 7 s))"

lemma log_keys_steps: "log_keys c a ev sw = Some sw' \<Longrightarrow> event_step\<^sup>*\<^sup>* sw sw'"
proof -
  assume e: "log_keys c a ev sw = Some sw'"
  obtain s w where sw: "sw = (s, w)" by (cases sw)
  then have "bus_call (\<lambda>c a ev sw. None) (Publish 9 (Some ''log'') None 0 EVENT_TYPE_UI 7) (s, w) = Some (fst sw', w)"
    and w: "sw' = (fst sw', w + 1)"
    using e by (auto simp: log_keys_def)
  then have "event_step (s, w) (fst sw', w)" using event_step.call [of "\<lambda>c a ev sw. None"] by blast
  moreover have "event_step (fst sw', w) sw'" using event_step.own w by metis
  ultimately show ?thesis unfolding sw by (meson converse_rtranclp_into_rtranclp r_into_rtranclp)
qed

definition key_run :: "(event_system \<times> nat) option" where
  "key_run = Option.bind (bus_call log_keys (Subscribe 7 (Some ''key'') (Some 3) 0 EVENT_PRIO_HIGH) (event_system_init, 0)) (\<lambda>sw.
    Option.bind (bus_call log_keys (Publish 5 (Some ''key'') None 0 EVENT_TYPE_UI 1) sw) (\<lambda>sw.
    bus_call log_keys ProcessQueue sw))"

lemma key_run_calls: "map_option snd key_run = Some 1"
  by code_simp

theorem event_bus_invariant_witness:
  "\<exists>s. key_run = Some (s, 1) \<and> event_wf s \<and> \<not> sy_lock s"
proof -
  obtain s where s: "key_run = Some (s, 1)" using key_run_calls by (cases key_run) auto
  have st: "event_step sw sw'" if "bus_call log_keys op sw = Some sw'" for op sw sw'
    using log_keys_steps that by (rule event_step.call)
  obtain y z where run: "bus_call log_keys (Subscribe 7 (Some ''key'') (Some 3) 0 EVENT_PRIO_HIGH) (event_system_init, 0) = Some y"
      "bus_call log_keys (Publish 5 (Some ''key'') None 0 EVENT_TYPE_UI 1) y = Some z"
      "bus_call log_keys ProcessQueue z = Some (s, 1)"
    using s unfolding key_run_def bind_eq_Some_conv by blast
  have "event_step\<^sup>*\<^sup>* (event_system_init, 0 :: nat) (s, 1)"
    by (rule converse_rtranclp_into_rtranclp [OF st [OF run(1)] converse_rtranclp_into_rtranclp [OF st [OF run(2)]
          r_into_rtranclp [of event_step, OF st [OF run(3)]]]])
  from event_bus_invariant [OF this] s show ?thesis by (intro exI [of _ s]) simp
qed

text \<open>
  Subscribing. When a subscription to a topic of at most fifteen characters succeeds, the
  subscriber list of that topic gains exactly the new subscription, behind all subscribers of at
  least its priority and before all others, and the lists of the other topics are unchanged.
\<close>

theorem event_subscribe_spec:
  assumes "event_wf s" "\<not> sy_lock s" "length tp \<le> 15"
    and "event_subscribe a (Some tp) (Some c) g p s = Some (0, s')"
  shows "subscribers s' tp = insert_prio (mk_sub a tp c g p) (subscribers s tp) \<and>
    (\<forall>tp'. tp' \<noteq> tp \<longrightarrow> subscribers s' tp' = subscribers s tp')"
  using event_subscribe_subscribers [OF assms] by simp

theorem event_subscribe_spec_witness:
  "subscribers (snd (the (event_subscribe 7 (Some ''key'') (Some 3) 0 EVENT_PRIO_HIGH event_system_init))) ''key''
    = [mk_sub 7 ''key'' 3 0 EVENT_PRIO_HIGH]"
proof -
  have l: "\<not> sy_lock event_system_init" by (simp add: event_system_init_def)
  have "\<exists>s'. event_subscribe 7 (Some ''key'') (Some 3) 0 EVENT_PRIO_HIGH event_system_init = Some (0, s')"
    unfolding event_subscribe_eq [OF l] by (simp add: event_find_or_create_topic_def event_system_init_def)
  then obtain s' where e: "event_subscribe 7 (Some ''key'') (Some 3) 0 EVENT_PRIO_HIGH event_system_init = Some (0, s')"
    by blast
  have "subscribers event_system_init ''key'' = []"
    by (simp add: subscribers_def event_find_topic_def event_system_init_def)
  then show ?thesis
    using event_subscribe_spec [OF event_system_init_wf l _ e] e by (simp add: insert_prio_def)
qed

text \<open>
  C18: Queued delivery. With callbacks that do not use the bus themselves, processing the queue
  returns (the loop ends), reports the number of queued events and leaves the queue empty; the
  events are delivered in the order they were published, each to the live subscribers of its topic
  in priority order.
\<close>

theorem event_process_queue_fifo:
  assumes "event_wf s" "\<not> sy_lock s"
  shows "\<exists>s'. event_process_queue (quiet f) (s, w) = Some (int (length (event_queue s)), s',
      fold (\<lambda>ev. calls f ev (subscribers s (ev_topic ev))) (event_queue s) w) \<and>
    event_wf s' \<and> \<not> sy_lock s' \<and> event_queue s' = [] \<and> subscribers s' = subscribers s"
proof -
  let ?s = "s\<lparr>sy_lock := True\<rparr>"
  have "event_wf ?s" "event_queue ?s = event_queue s" "subscribers ?s = subscribers s"
    using assms(1) by (auto simp: event_wf_def topics_wf_def event_queue_def intro!: subscribers_cong)
  then show ?thesis
    using event_process_loop_quiet [of ?s f 0 w] assms(2) by (simp add: event_process_queue_def event_lock_def)
qed

text \<open>One subscriber of ''key'', and events queued for ''key'', for ''log'' and for ''key'' again.\<close>

abbreviation log_calls :: "nat \<Rightarrow> nat \<Rightarrow> event \<Rightarrow> (nat \<times> u32) list \<Rightarrow> (nat \<times> u32) list" where
  "log_calls c a ev w \<equiv> w @ [(c, ev_timestamp ev)]"

definition queued_run :: "(event_system \<times> unit) option" where
  "queued_run = foldl (\<lambda>r op. Option.bind r (bus_call (\<lambda>c a ev sw. None) op)) (Some (event_system_init, ()))
    [Subscribe 7 (Some ''key'') (Some 3) 0 EVENT_PRIO_HIGH, Publish 5 (Some ''key'') None 0 EVENT_TYPE_UI 1,
     Publish 6 (Some ''log'') None 0 EVENT_TYPE_UI 1, Publish 8 (Some ''key'') None 0 EVENT_TYPE_UI 1]"

lemma queued_run_result:
  "map_option (\<lambda>(s, w). (sy_queue_count s, sy_lock s,
      fold (\<lambda>ev. calls log_calls ev (subscribers s (ev_topic ev))) (event_queue s) [])) queued_run
    = Some (3, False, [(3, 5), (3, 8)])"
  by code_simp

lemma bus_calls_kept:
  assumes "keeping cb" "foldl (\<lambda>r op. Option.bind r (bus_call cb op)) (Some sw) ops = Some sw'"
  shows "bus_kept sw sw'"
  using assms(2)
proof (induction ops arbitrary: sw)
  case (Cons op ops)
  have none: "foldl (\<lambda>r op. Option.bind r (bus_call cb op)) None ops = None" by (induction ops) simp_all
  then obtain x where x: "bus_call cb op sw = Some x" using Cons.prems by (cases "bus_call cb op sw") auto
  then have "bus_kept sw x" using bus_call_kept [OF assms(1), of op "fst sw" "snd sw" x] by simp
  then show ?case using Cons x bus_kept_trans by fastforce
qed simp

theorem event_process_queue_fifo_witness:
  "\<exists>s s'. queued_run = Some (s, ()) \<and>
    event_process_queue (quiet log_calls) (s, []) = Some (3, s', [(3, 5), (3, 8)])"
proof -
  obtain s where s: "queued_run = Some (s, ())" "sy_queue_count s = 3" "\<not> sy_lock s"
      "fold (\<lambda>ev. calls log_calls ev (subscribers s (ev_topic ev))) (event_queue s) [] = [(3, 5), (3, 8)]"
    using queued_run_result by (cases queued_run) auto
  have "bus_kept (event_system_init, ()) (s, ())"
    by (rule bus_calls_kept [OF _ s(1) [unfolded queued_run_def]]) (simp add: keeping_def)
  then have "event_wf s" using event_system_init_wf by (simp add: bus_kept_def)
  moreover have "length (event_queue s) = 3" using s(2) by (simp add: event_queue_def)
  ultimately show ?thesis using event_process_queue_fifo [of s log_calls "[]"] s by auto
qed

text \<open>
  Delivery skips the subscriptions at the start of a list that are not live and runs the callback
  of the first live one; if that does not return, neither does the delivery.
\<close>

lemma event_deliver_loop_stuck:
  assumes "et_count (sy_topics s ! k) \<le> length (et_subs (sy_topics s ! k))"
    and "drop i (subs_of (sy_topics s ! k)) = dead @ sub # rest" "\<forall>x\<in>set dead. \<not> live x" "live sub"
    and "cb (the (es_callback sub)) (es_arg sub) ev (s, w) = None"
  shows "event_deliver_loop cb ev k i d (s, w) = None"
  using assms(2,3)
proof (induction dead arbitrary: i)
  case Nil
  let ?t = "sy_topics s ! k"
  have i: "i < et_count ?t" using Nil(1) by (cases "i < et_count ?t") (simp_all add: subs_of_def)
  then have "et_subs ?t ! i = sub"
    using Nil(1) assms(1) by (simp add: subs_of_def Cons_nth_drop_Suc [symmetric])
  then show ?case
    using i assms(4,5) by (subst event_deliver_loop.simps) (auto simp: Let_def live_def)
next
  case (Cons x dead)
  let ?t = "sy_topics s ! k"
  have i: "i < et_count ?t" using Cons(2) by (cases "i < et_count ?t") (simp_all add: subs_of_def)
  then have x: "et_subs ?t ! i = x" "drop (Suc i) (subs_of ?t) = dead @ sub # rest"
    using Cons(2) assms(1) by (simp_all add: subs_of_def Cons_nth_drop_Suc [symmetric])
  have "\<not> live x" using Cons(3) by simp
  then show ?case
    using i x(1) Cons.IH [OF x(2)] Cons(3)
    by (subst event_deliver_loop.simps) (auto simp: Let_def live_def split: option.split)
qed

text \<open>
  C37: Synchronous publishing holds the lock while it calls the subscribers. If the callback of the
  first live subscriber of the topic makes any call of the bus that takes the lock (subscribing,
  unsubscribing, publishing, processing the queue, cleaning up or reading the statistics), whatever
  it does before on its own and after that call, the publishing call never returns.
\<close>

theorem event_publish_sync_deadlock:
  assumes "event_wf s" "\<not> sy_lock s" "n \<le> 32"
    and "subscribers s (strncpy0 15 tp) = dead @ sub # rest" "\<forall>x\<in>set dead. \<not> live x"
    and "live sub" "es_callback sub = Some c"
    and "\<And>ev s w. cb c (es_arg sub) ev (s, w) = Option.bind (bus_call cb' (op ev w) (s, own ev w)) (after ev)"
    and "\<And>ev w. takes_lock (op ev w)"
  shows "event_publish_sync cb t (Some tp) d n ty src (s, w) = None"
proof -
  let ?ev = "event_make t tp d n ty src" and ?s = "s\<lparr>sy_lock := True\<rparr>"
  have ev: "ev_topic ?ev = strncpy0 15 tp" by (simp add: event_make_def)
  obtain k where k: "event_find_topic (strncpy0 15 tp) s = Some k" "subs_of (sy_topics s ! k) = dead @ sub # rest"
    using assms(4) by (auto simp: subscribers_def split: option.splits)
  have "topic_wf (sy_topics s ! k)"
    using assms(1) event_find_topicD [OF k(1)] by (auto simp: event_wf_def topics_wf_def)
  then have len: "et_count (sy_topics ?s ! k) \<le> length (et_subs (sy_topics ?s ! k))" by (simp add: topic_wf_def)
  have "cb (the (es_callback sub)) (es_arg sub) ?ev (?s, w) = None"
    using assms(7) by (simp add: assms(8) bus_call_locked assms(9))
  with event_deliver_loop_stuck [of ?s k 0 dead sub rest cb ?ev w 0, OF len _ assms(5,6)]
  have "event_deliver cb ?ev (?s, w) = None"
    using k find_topic_names [of ?s s] by (simp add: event_deliver_def ev)
  then show ?thesis using assms(2,3) by (simp add: event_publish_sync_def event_lock_def)
qed

lemma key_subscribed:
  "\<exists>s. event_subscribe 7 (Some ''key'') (Some 3) 0 EVENT_PRIO_HIGH event_system_init = Some (0, s) \<and>
    event_wf s \<and> \<not> sy_lock s \<and> subscribers s ''key'' = [mk_sub 7 ''key'' 3 0 EVENT_PRIO_HIGH]"
proof -
  note l = event_system_init_unlocked
  have "\<exists>s'. event_subscribe 7 (Some ''key'') (Some 3) 0 EVENT_PRIO_HIGH event_system_init = Some (0, s')"
    unfolding event_subscribe_eq [OF l] by (simp add: event_find_or_create_topic_def event_system_init_def)
  then obtain s' where e: "event_subscribe 7 (Some ''key'') (Some 3) 0 EVENT_PRIO_HIGH event_system_init = Some (0, s')"
    by blast
  moreover have "subscribers event_system_init ''key'' = []"
    by (simp add: subscribers_def event_find_topic_def event_system_init_def)
  then have "subscribers s' ''key'' = [mk_sub 7 ''key'' 3 0 EVENT_PRIO_HIGH]"
    using event_subscribe_subscribers [OF event_system_init_wf l _ e] by (simp add: insert_prio_def)
  ultimately show ?thesis using event_subscribe_wf [OF event_system_init_wf l e] by blast
qed

text \<open>A callback that unsubscribes itself when it is called.\<close>

definition once_only :: "nat callbacks" where
  "once_only c a ev = (\<lambda>(s, w). Option.bind (bus_call (\<lambda>c a ev sw. None) (Unsubscribe 7 (Some ''key'')) (s, w + 1)) Some)"

theorem event_publish_sync_deadlock_witness:
  "\<exists>s. event_subscribe 7 (Some ''key'') (Some 3) 0 EVENT_PRIO_HIGH event_system_init = Some (0, s) \<and>
    event_publish_sync once_only 1 (Some ''key'') None 0 EVENT_TYPE_UI 1 (s, 0) = None"
proof -
  obtain s where s: "event_subscribe 7 (Some ''key'') (Some 3) 0 EVENT_PRIO_HIGH event_system_init = Some (0, s)"
      "event_wf s" "\<not> sy_lock s" "subscribers s ''key'' = [mk_sub 7 ''key'' 3 0 EVENT_PRIO_HIGH]"
    using key_subscribed by blast
  have "event_publish_sync once_only 1 (Some ''key'') None 0 EVENT_TYPE_UI 1 (s, 0) = None"
    by (rule event_publish_sync_deadlock [OF s(2,3), where dead = "[]" and rest = "[]" and c = 3
          and sub = "mk_sub 7 ''key'' 3 0 EVENT_PRIO_HIGH"
          and op = "\<lambda>ev w. Unsubscribe 7 (Some ''key'')" and own = "\<lambda>ev w. w + 1" and after = "\<lambda>ev. Some"
          and cb' = "\<lambda>c a ev sw. None"])
      (simp_all add: s(4) live_def mk_sub_def once_only_def del: bus_call.simps)
  then show ?thesis using s(1) by blast
qed

lemma find_topic_extend:
  assumes "event_find_topic tp s = Some k" "sy_topic_count s' = sy_topic_count s + 1"
    and "\<And>i. i < sy_topic_count s \<Longrightarrow> sy_topics s' ! i = sy_topics s ! i"
  shows "event_find_topic tp s' = Some k"
proof -
  have "List.find (topic_named s' tp) [0..<sy_topic_count s] = List.find (topic_named s tp) [0..<sy_topic_count s]"
    using assms(3) by (intro find_upt_cong) (simp add: topic_named_def)
  then show ?thesis using assms(1,2) by (simp add: event_find_topic_def find_append)
qed

lemma subscribe_long:
  assumes "event_wf s" "\<not> sy_lock s" "15 < length tp"
    and "event_subscribe a (Some tp) (Some c) g p s = Some (0, s')"
  shows "s' = s\<lparr>sy_topics := (sy_topics s)[sy_topic_count s := topic_add topic_zero (mk_sub a tp c g p)],
      sy_topic_count := sy_topic_count s + 1\<rparr>" "sy_topic_count s < 32"
proof -
  have wf: "topics_wf s" using assms(1) by (simp add: event_wf_def)
  note e = assms(4) [unfolded event_subscribe_eq [OF assms(2)]]
  have "s' = s\<lparr>sy_topics := (sy_topics s)[sy_topic_count s := topic_add topic_zero (mk_sub a tp c g p)],
      sy_topic_count := sy_topic_count s + 1\<rparr> \<and> sy_topic_count s < 32"
  proof (cases tp rule: find_or_create_cases [OF wf])
    case (1 k)
    then have "length tp \<le> 15" using wf by (auto simp: topics_wf_def topic_wf_def)
    then show ?thesis using assms(3) by simp
  next
    case 2
    then show ?thesis using e by simp
  next
    case 3
    have "(sy_topics s)[sy_topic_count s := topic_zero] ! sy_topic_count s = topic_zero"
      using wf 3 by (simp add: topics_wf_def)
    then show ?thesis using e 3 by auto
  qed
  then show "s' = s\<lparr>sy_topics := (sy_topics s)[sy_topic_count s := topic_add topic_zero (mk_sub a tp c g p)],
      sy_topic_count := sy_topic_count s + 1\<rparr>" "sy_topic_count s < 32" by auto
qed

text \<open>
  Topics longer than fifteen characters. Each successful subscription to such a topic opens a topic
  slot of its own under the truncated name, and an event published to the topic reaches only the
  first of them: the second subscriber is never called.
\<close>

theorem event_long_topic_lost:
  assumes "event_wf s" "\<not> sy_lock s" "15 < length tp" "event_find_topic (take 15 tp) s = None"
    and "event_subscribe a1 (Some tp) (Some c1) g1 p1 s = Some (0, s1)"
    and "event_subscribe a2 (Some tp) (Some c2) g2 p2 s1 = Some (0, s2)"
  shows "subscribers s2 (ev_topic (event_make t tp d n ty src)) = [mk_sub a1 tp c1 g1 p1]"
proof -
  let ?tp = "take 15 tp" and ?t1 = "topic_add topic_zero (mk_sub a1 tp c1 g1 p1)"
  have wf: "topics_wf s" using assms(1) by (simp add: event_wf_def)
  note s1 = subscribe_long [OF assms(1,2,3,5)]
  have wf1: "event_wf s1" "\<not> sy_lock s1" using event_subscribe_wf [OF assms(1,2,5)] by auto
  note s2 = subscribe_long [OF wf1 assms(3,6)]
  have len: "sy_topic_count s < length (sy_topics s)" using wf s1 by (simp add: topics_wf_def)
  have "topic_name ?t1 = ?tp" using topic_add_wf(2) [of topic_zero "mk_sub a1 tp c1 g1 p1"] by (simp add: strncpy0_def)
  from subscribers_new [OF wf assms(4) s1(2) this, of ?tp] have sub1: "subscribers s1 ?tp = [mk_sub a1 tp c1 g1 p1]"
    using topic_add_subs(1) [of topic_zero "mk_sub a1 tp c1 g1 p1"] by (simp add: s1(1) insert_prio_def)
  then obtain k where k: "event_find_topic ?tp s1 = Some k" "subs_of (sy_topics s1 ! k) = [mk_sub a1 tp c1 g1 p1]"
    by (auto simp: subscribers_def split: option.splits)
  have "event_find_topic ?tp s2 = Some k"
    using k(1) by (rule find_topic_extend) (simp_all add: s2(1))
  moreover have "sy_topics s2 ! k = sy_topics s1 ! k"
    using event_find_topicD [OF k(1)] by (simp add: s2(1))
  ultimately show ?thesis using k(2) by (simp add: subscribers_def event_make_def strncpy0_def)
qed

lemma subscribe_long_ok:
  assumes "event_wf s" "\<not> sy_lock s" "15 < length tp" "sy_topic_count s < 32"
  shows "\<exists>s'. event_subscribe a (Some tp) (Some c) g p s = Some (0, s')"
proof -
  have wf: "topics_wf s" using assms(1) by (simp add: event_wf_def)
  show ?thesis
  proof (cases tp rule: find_or_create_cases [OF wf])
    case (1 k)
    then have "length tp \<le> 15" using wf by (auto simp: topics_wf_def topic_wf_def)
    then show ?thesis using assms(3) by simp
  next
    case 2
    then show ?thesis using assms(4) by simp
  next
    case 3
    have "(sy_topics s)[sy_topic_count s := topic_zero] ! sy_topic_count s = topic_zero"
      using wf 3 by (simp add: topics_wf_def)
    then show ?thesis using 3 by (simp add: event_subscribe_eq [OF assms(2)])
  qed
qed

theorem event_long_topic_lost_witness:
  "\<exists>s1 s2. event_subscribe 1 (Some ''sensor.temperature'') (Some 1) 0 EVENT_PRIO_LOW event_system_init = Some (0, s1) \<and>
    event_subscribe 2 (Some ''sensor.temperature'') (Some 2) 0 EVENT_PRIO_HIGH s1 = Some (0, s2) \<and>
    subscribers s2 (ev_topic (event_make 0 ''sensor.temperature'' None 0 EVENT_TYPE_DRIVER 3))
      = [mk_sub 1 ''sensor.temperature'' 1 0 EVENT_PRIO_LOW]"
proof -
  let ?tp = "''sensor.temperature''"
  note wf0 = event_system_init_wf event_system_init_unlocked
  have l: "15 < length ?tp" by simp
  have c0: "sy_topic_count event_system_init = 0" by (simp add: event_system_init_def)
  obtain s1 where e1: "event_subscribe 1 (Some ?tp) (Some 1) 0 EVENT_PRIO_LOW event_system_init = Some (0, s1)"
    using subscribe_long_ok [OF wf0 l] c0 by fastforce
  have wf1: "event_wf s1" "\<not> sy_lock s1" using event_subscribe_wf [OF wf0 e1] by auto
  have "sy_topic_count s1 = 1" using subscribe_long(1) [OF wf0 l e1] c0 by simp
  then obtain s2 where e2: "event_subscribe 2 (Some ?tp) (Some 2) 0 EVENT_PRIO_HIGH s1 = Some (0, s2)"
    using subscribe_long_ok [OF wf1 l] by fastforce
  have "event_find_topic (take 15 ?tp) event_system_init = None" by (simp add: event_find_topic_def c0)
  from event_long_topic_lost [OF wf0 l this e1 e2] show ?thesis using e1 e2 by blast
qed

end
