(* ===== verification/Linked_Lists.thy ===== *)
theory Linked_Lists
  imports Ardu_Prelude
begin

text \<open>
  Doubly linked lists over pointer fields, used by the scheduler's task lists and the allocator's
  free lists. A node is named by a value of type \<open>'a\<close>, its two links are the functions \<open>nx\<close> and \<open>pv\<close>,
  and \<open>dll nx pv h p xs\<close> says that the chain from the head pointer \<open>h\<close>, whose first node points
  back to \<open>p\<close>, consists of the nodes \<open>xs\<close>. Insertion at the head and removal of a node are the two
  operations the C code has.
\<close>

fun dll :: "('a \<Rightarrow> 'a option) \<Rightarrow> ('a \<Rightarrow> 'a option) \<Rightarrow> 'a option \<Rightarrow> 'a option \<Rightarrow> 'a list \<Rightarrow> bool" where
  "dll nx pv h p [] \<longleftrightarrow> h = None"
| "dll nx pv h p (x # xs) \<longleftrightarrow> h = Some x \<and> pv x = p \<and> dll nx pv (nx x) (Some x) xs"

definition first :: "'a list \<Rightarrow> 'a option" where
  "first xs = (case xs of [] \<Rightarrow> None | x # _ \<Rightarrow> Some x)"

lemma first_simps [simp]: "first [] = None" "first (x # xs) = Some x"
  by (simp_all add: first_def)

lemma dll_first: "dll nx pv h p xs \<Longrightarrow> h = first xs"
  by (cases xs) auto

lemma dll_cong:
  assumes "dll nx pv h p xs" "\<And>x. x \<in> set xs \<Longrightarrow> nx' x = nx x" "\<And>x. x \<in> set xs \<Longrightarrow> pv' x = pv x"
  shows "dll nx' pv' h p xs"
  using assms by (induction xs arbitrary: h p) auto

lemma dll_append:
  "dll nx pv h p (xs @ ys) \<longleftrightarrow>
    (\<exists>q. dll nx pv q (if xs = [] then p else Some (last xs)) ys \<and>
      (if xs = [] then h = q else dll (nx(last xs := None)) pv h p xs \<and> nx (last xs) = q))"
  if "distinct xs"
  using that
proof (induction xs arbitrary: h p)
  case (Cons x xs)
  show ?case
  proof (cases "xs = []")
    case False
    then have "(nx(last xs := None)) x = nx x" using Cons.prems by auto
    then show ?thesis using Cons False by auto
  qed auto
qed simp

lemma dll_next:
  "dll nx pv h p (ys @ x # zs) \<Longrightarrow> nx x = first zs"
  by (induction ys arbitrary: h p) (auto dest: dll_first)

lemma dll_prev:
  "dll nx pv h p (ys @ x # zs) \<Longrightarrow> pv x = (if ys = [] then p else Some (last ys))"
  by (induction ys arbitrary: h p) auto

subsection \<open>Insertion at the head\<close>

definition ll_add_next :: "('a \<Rightarrow> 'a option) \<Rightarrow> 'a option \<Rightarrow> 'a \<Rightarrow> 'a \<Rightarrow> 'a option" where
  "ll_add_next nx h x = nx(x := h)"

definition ll_add_prev :: "('a \<Rightarrow> 'a option) \<Rightarrow> 'a option \<Rightarrow> 'a \<Rightarrow> 'a \<Rightarrow> 'a option" where
  "ll_add_prev pv h x = (case h of None \<Rightarrow> pv(x := None) | Some y \<Rightarrow> pv(x := None, y := Some x))"

lemma dll_add:
  assumes "dll nx pv h None xs" "x \<notin> set xs" "distinct xs"
  shows "dll (ll_add_next nx h x) (ll_add_prev pv h x) (Some x) None (x # xs)"
proof (cases xs)
  case (Cons y ys)
  have "dll (ll_add_next nx h x) (ll_add_prev pv h x) (nx y) (Some y) ys"
    by (rule dll_cong [of nx pv]) (use assms Cons in \<open>auto simp: ll_add_next_def ll_add_prev_def\<close>)
  then show ?thesis using assms Cons by (auto simp: ll_add_next_def ll_add_prev_def)
qed (use assms in \<open>auto simp: ll_add_next_def ll_add_prev_def\<close>)

lemma dll_add_other:
  assumes "dll nx pv h' p zs" "dll nx pv h None xs" "x \<notin> set zs" "set xs \<inter> set zs = {}"
  shows "dll (ll_add_next nx h x) (ll_add_prev pv h x) h' p zs"
  by (rule dll_cong [OF assms(1)])
    (use assms dll_first [OF assms(2)] in \<open>auto simp: ll_add_next_def ll_add_prev_def first_def split: list.splits\<close>)

subsection \<open>Insertion after a node\<close>

lemma dll_insert_after:
  assumes "dll nx pv h p (xs @ b # ys)" "distinct (xs @ b # ys)" "n \<notin> set (xs @ b # ys)"
    and "nx' n = nx b" "nx' b = Some n" "\<And>x. x \<noteq> n \<Longrightarrow> x \<noteq> b \<Longrightarrow> nx' x = nx x"
    and "pv' n = Some b" "\<And>x. nx b = Some x \<Longrightarrow> pv' x = Some n" "\<And>x. x \<noteq> n \<Longrightarrow> nx b \<noteq> Some x \<Longrightarrow> pv' x = pv x"
  shows "dll nx' pv' h p (xs @ b # n # ys)"
  using assms(1-3)
proof (induction xs arbitrary: h p)
  case Nil
  have nb: "nx b = first ys" using Nil(1) by (auto dest: dll_first)
  have "dll nx' pv' (nx b) (Some n) ys"
  proof (cases ys)
    case (Cons y ys')
    have "dll nx' pv' (nx y) (Some y) ys'"
      by (rule dll_cong [of nx pv]) (use Nil Cons nb in \<open>auto intro!: assms(6,9)\<close>)
    moreover have "nx' y = nx y" by (rule assms(6)) (use Nil Cons in auto)
    ultimately show ?thesis using Nil Cons nb by (simp add: assms(8))
  qed (use Nil in simp)
  then show ?case using Nil nb assms(4,5,7,9) by (cases ys) auto
next
  case (Cons x xs)
  have "nx b = first ys" using dll_next [of nx pv h p "x # xs" b ys] Cons.prems(1) by simp
  then have "nx b \<noteq> Some x" using Cons.prems(2) by (auto simp: first_def split: list.splits)
  then show ?case using Cons assms(6,9) by auto
qed

subsection \<open>Removal of a node\<close>

definition ll_remove_head :: "('a \<Rightarrow> 'a option) \<Rightarrow> ('a \<Rightarrow> 'a option) \<Rightarrow> 'a option \<Rightarrow> 'a \<Rightarrow> 'a option" where
  "ll_remove_head nx pv h x = (case pv x of None \<Rightarrow> nx x | Some p \<Rightarrow> h)"

definition ll_remove_next :: "('a \<Rightarrow> 'a option) \<Rightarrow> ('a \<Rightarrow> 'a option) \<Rightarrow> 'a \<Rightarrow> 'a \<Rightarrow> 'a option" where
  "ll_remove_next nx pv x = (case pv x of None \<Rightarrow> nx | Some p \<Rightarrow> nx(p := nx x))(x := None)"

definition ll_remove_prev :: "('a \<Rightarrow> 'a option) \<Rightarrow> ('a \<Rightarrow> 'a option) \<Rightarrow> 'a \<Rightarrow> 'a \<Rightarrow> 'a option" where
  "ll_remove_prev nx pv x = (case nx x of None \<Rightarrow> pv | Some n \<Rightarrow> pv(n := pv x))(x := None)"

lemma dll_remove:
  assumes "dll nx pv h None xs" "distinct xs" "x \<in> set xs"
  shows "dll (ll_remove_next nx pv x) (ll_remove_prev nx pv x) (ll_remove_head nx pv h x) None (remove1 x xs)"
proof -
  obtain ys zs where xs: "xs = ys @ x # zs" using assms(3) by (auto dest: split_list)
  have d: "distinct ys" "x \<notin> set ys" "x \<notin> set zs" "set ys \<inter> set zs = {}" "distinct zs" using assms(2) xs by auto
  then have l: "ys \<noteq> [] \<Longrightarrow> last ys \<notin> set zs \<and> last ys \<noteq> x" using last_in_set by fastforce
  have rm: "remove1 x xs = ys @ zs" using d by (simp add: xs remove1_append)
  have nx: "nx x = first zs" and pv: "pv x = (if ys = [] then None else Some (last ys))"
    using dll_next dll_prev assms(1) xs by fastforce+
  have tail: "dll (ll_remove_next nx pv x) (ll_remove_prev nx pv x) (first zs) (pv x) zs"
  proof (cases zs)
    case (Cons z zs')
    then have "dll nx pv (nx z) (Some z) zs'" using assms(1) d xs by (auto simp: dll_append)
    then have "dll (ll_remove_next nx pv x) (ll_remove_prev nx pv x) (nx z) (Some z) zs'"
      by (rule dll_cong) (use d l nx pv Cons in \<open>auto simp: ll_remove_next_def ll_remove_prev_def\<close>)
    moreover have "ll_remove_next nx pv x z = nx z" "ll_remove_prev nx pv x z = pv x"
      using d l nx pv Cons by (auto simp: ll_remove_next_def ll_remove_prev_def)
    ultimately show ?thesis using Cons by simp
  qed simp
  show ?thesis
  proof (cases "ys = []")
    case True
    then show ?thesis using tail pv nx rm by (simp add: ll_remove_head_def)
  next
    case False
    have "dll (nx(last ys := None)) pv h None ys"
      using assms(1) d(1) False unfolding xs by (auto simp: dll_append)
    then have "dll ((ll_remove_next nx pv x)(last ys := None)) (ll_remove_prev nx pv x) h None ys"
      by (rule dll_cong)
        (use d l nx pv False in \<open>auto simp: ll_remove_next_def ll_remove_prev_def first_def split: list.splits\<close>)
    moreover have "ll_remove_next nx pv x (last ys) = first zs"
      using d l False nx pv by (auto simp: ll_remove_next_def)
    ultimately show ?thesis using tail d(1) False pv rm by (auto simp: dll_append ll_remove_head_def)
  qed
qed

lemma dll_remove_other:
  assumes "dll nx pv h' p zs" "dll nx pv h None xs" "x \<in> set xs" "set xs \<inter> set zs = {}"
  shows "dll (ll_remove_next nx pv x) (ll_remove_prev nx pv x) h' p zs"
proof (rule dll_cong [OF assms(1)])
  obtain ys zs' where xs: "xs = ys @ x # zs'" using assms(3) by (auto dest: split_list)
  then have "nx x = first zs'" "pv x = (if ys = [] then None else Some (last ys))"
    using dll_next dll_prev assms(2) by fastforce+
  then have "pv x = None \<or> (\<exists>q\<in>set xs. pv x = Some q)" "nx x = None \<or> (\<exists>q\<in>set xs. nx x = Some q)"
    using xs by (auto simp: first_def split: list.splits)
  then show "ll_remove_next nx pv x y = nx y" "ll_remove_prev nx pv x y = pv y" if "y \<in> set zs" for y
    using that assms(3,4) by (auto simp: ll_remove_next_def ll_remove_prev_def)
qed

end
