(* ===== verification/Power_Governor.thy ===== *)
theory Power_Governor
  imports Ardu_Prelude "HOL-Library.Multiset"
begin

text \<open>
  Power management: the frequency table, wake configuration and driver callbacks of
  \<^verbatim>\<open>kernel/power.c\<close> (record \<open>power\<close>, the C variable \<open>g_power\<close>) and the governor of
  \<^verbatim>\<open>kernel/power_governor.c\<close> (record \<open>governor\<close>, the C variable \<open>g\<close>). Demands and levels are numbers, as
  the C code computes with them. The actuator function pointers are the flags \<open>gv_set_freq\<close>,
  \<open>gv_set_brightness\<close> and \<open>gv_read_temp\<close>; the calls made through them are returned as a list of
  \<open>actuation\<close>s, and the temperature readings of a window are arguments.
\<close>

type_synonym power_demand = nat
type_synonym power_level = nat

definition POWER_DEMAND_UNSET :: power_demand where [simp]: "POWER_DEMAND_UNSET = 0"
definition POWER_DEMAND_IDLE :: power_demand where [simp]: "POWER_DEMAND_IDLE = 1"
definition POWER_DEMAND_LOW :: power_demand where [simp]: "POWER_DEMAND_LOW = 2"
definition POWER_DEMAND_NORMAL :: power_demand where [simp]: "POWER_DEMAND_NORMAL = 3"
definition POWER_DEMAND_HIGH :: power_demand where [simp]: "POWER_DEMAND_HIGH = 4"
definition POWER_LEVEL_COOL :: power_level where [simp]: "POWER_LEVEL_COOL = 0"
definition POWER_LEVEL_ECONOMY :: power_level where [simp]: "POWER_LEVEL_ECONOMY = 1"
definition POWER_LEVEL_BALANCED :: power_level where [simp]: "POWER_LEVEL_BALANCED = 2"
definition POWER_LEVEL_PERFORMANCE :: power_level where [simp]: "POWER_LEVEL_PERFORMANCE = 3"

definition POWER_WINDOW_MS :: u32 where [simp]: "POWER_WINDOW_MS = 100"
definition POWER_QUIET_WINDOWS :: u32 where [simp]: "POWER_QUIET_WINDOWS = 3"
definition POWER_SUSTAINED_WINDOWS :: u32 where [simp]: "POWER_SUSTAINED_WINDOWS = 3"
definition POWER_FULL_PERCENT :: u32 where [simp]: "POWER_FULL_PERCENT = 80"
definition POWER_TEMP_HOT_C :: int where [simp]: "POWER_TEMP_HOT_C = 70"
definition POWER_TEMP_RECOVER_C :: int where [simp]: "POWER_TEMP_RECOVER_C = 60"
definition POWER_LIGHT_SLEEP_MIN_MS :: u32 where [simp]: "POWER_LIGHT_SLEEP_MIN_MS = 50"

definition UINT32_MAX :: u32 where [simp]: "UINT32_MAX = 0xFFFFFFFF"

datatype power_mode = POWER_MODE_ACTIVE | POWER_MODE_IDLE | POWER_MODE_LIGHT_SLEEP | POWER_MODE_DEEP_SLEEP

record wake_result =
  wr_woke_up :: bool
  wr_wake_gpio :: int
  wr_slept_ms :: u32

record power_driver =
  pd_handle :: nat
  pd_suspend :: "nat option"
  pd_resume :: "nat option"
  pd_arg :: nat
  pd_registered :: bool

record power =
  pw_initialized :: bool
  pw_current_mode :: power_mode
  pw_last_wake :: wake_result
  pw_rtc_time_ms :: u32
  pw_timeout_ms :: u32
  pw_gpio_num :: int
  pw_gpio_trigger :: int
  pw_available_freqs :: "u32 list"
  pw_num_available_freqs :: nat
  pw_current_cpu_freq_mhz :: u32
  pw_drivers :: "power_driver list"

record governor =
  gv_level :: power_level
  gv_foreground :: power_demand
  gv_busy :: u32
  gv_idle :: u32
  gv_busy_total :: u32
  gv_idle_total :: u32
  gv_window_demand :: power_demand
  gv_saw_busy_demand :: bool
  gv_quiet_streak :: u32
  gv_full_streak :: u32
  gv_sustained_hold :: bool
  gv_held_level :: power_level
  gv_thermal :: bool
  gv_have_window :: bool
  gv_window_started_ms :: u32
  gv_light_sleep_ms :: u32
  gv_set_freq :: bool
  gv_set_brightness :: bool
  gv_read_temp :: bool

datatype actuation = Set_Freq u32 | Set_Brightness u8

section \<open>The power module\<close>

definition power_driver_zero :: power_driver where
  "power_driver_zero = \<lparr>pd_handle = 0, pd_suspend = None, pd_resume = None, pd_arg = 0, pd_registered = False\<rparr>"

definition power_zero :: power where
  "power_zero = \<lparr>pw_initialized = False, pw_current_mode = POWER_MODE_ACTIVE,
     pw_last_wake = \<lparr>wr_woke_up = False, wr_wake_gpio = 0, wr_slept_ms = 0\<rparr>,
     pw_rtc_time_ms = 0, pw_timeout_ms = 0, pw_gpio_num = 0, pw_gpio_trigger = 0,
     pw_available_freqs = replicate 8 0, pw_num_available_freqs = 0, pw_current_cpu_freq_mhz = 0,
     pw_drivers = replicate 8 power_driver_zero\<rparr>"

text \<open>\<open>max_freq\<close> is \<open>ARDUBOT_CPU_MAX_FREQ_MHZ\<close> of the generated \<open>device_config.h\<close>, or 160.\<close>

definition init_available_freqs :: "u32 \<Rightarrow> power \<Rightarrow> power" where
  "init_available_freqs max_freq p =
    p\<lparr>pw_num_available_freqs := 5,
      pw_available_freqs := blit (pw_available_freqs p) 0
        [max_freq, max_freq div 2, max_freq div 4, max_freq div 8, max_freq div 16],
      pw_current_cpu_freq_mhz := max_freq\<rparr>"

definition wake_source_str :: "int \<Rightarrow> string" where
  "wake_source_str n = (if n = 1 then ''TIMER'' else if n = 2 then ''GPIO'' else if n = 3 then ''UART'' else ''UNKNOWN'')"

definition power_set_cpu_freq :: "u32 \<Rightarrow> power \<Rightarrow> int \<times> power" where
  "power_set_cpu_freq freq_mhz p =
    (if \<exists>i\<in>set [0..<pw_num_available_freqs p]. pw_available_freqs p ! i = freq_mhz
     then (0, p\<lparr>pw_current_cpu_freq_mhz := freq_mhz\<rparr>) else (-1, p))"

fun set_freqs_loop :: "u32 list \<Rightarrow> nat list \<Rightarrow> u32 list \<Rightarrow> bool \<times> u32 list" where
  "set_freqs_loop freqs [] table = (True, table)"
| "set_freqs_loop freqs (i # js) table =
    (if freqs ! i = 0 then (False, table) else set_freqs_loop freqs js (table[i := freqs ! i]))"

definition power_set_available_freqs :: "u32 list option \<Rightarrow> int \<Rightarrow> power \<Rightarrow> int \<times> power" where
  "power_set_available_freqs freqs cnt p =
    (case freqs of
       None \<Rightarrow> (-1, p)
     | Some fs \<Rightarrow>
         if cnt < 1 \<or> cnt > 8 then (-1, p)
         else case set_freqs_loop fs [0..<nat cnt] (pw_available_freqs p) of
                (ok, table) \<Rightarrow>
                  if ok then (0, p\<lparr>pw_available_freqs := table, pw_num_available_freqs := nat cnt\<rparr>)
                  else (-1, p\<lparr>pw_available_freqs := table\<rparr>))"

definition power_get_available_freqs :: "u32 list option \<Rightarrow> nat \<Rightarrow> power \<Rightarrow> int \<times> u32 list option" where
  "power_get_available_freqs freqs max_count p =
    (case freqs of
       None \<Rightarrow> (-1, None)
     | Some fs \<Rightarrow>
         if max_count = 0 then (-1, freqs)
         else let cnt = min (pw_num_available_freqs p) max_count
              in (int cnt, Some (fold (\<lambda>i fs. fs[i := pw_available_freqs p ! i]) [0..<cnt] fs)))"

definition power_add_gpio_wake :: "int \<Rightarrow> int \<Rightarrow> power \<Rightarrow> power" where
  "power_add_gpio_wake gpio_num trigger p = p\<lparr>pw_gpio_num := gpio_num, pw_gpio_trigger := trigger\<rparr>"

definition power_remove_gpio_wake :: "int \<Rightarrow> power \<Rightarrow> power" where
  "power_remove_gpio_wake gpio_num p = p\<lparr>pw_gpio_num := -1\<rparr>"

definition power_add_rtc_wake :: "u32 \<Rightarrow> power \<Rightarrow> power" where
  "power_add_rtc_wake timeout_ms p = p\<lparr>pw_timeout_ms := timeout_ms\<rparr>"

definition power_remove_rtc_wake :: "power \<Rightarrow> power" where
  "power_remove_rtc_wake p = p\<lparr>pw_timeout_ms := 0\<rparr>"

definition set_rtc_time :: "u32 \<Rightarrow> power \<Rightarrow> power" where
  "set_rtc_time epoch_ms p = p\<lparr>pw_rtc_time_ms := epoch_ms\<rparr>"

definition power_register_driver :: "nat \<Rightarrow> nat option \<Rightarrow> nat option \<Rightarrow> nat \<Rightarrow> power \<Rightarrow> int \<times> power" where
  "power_register_driver h suspend resume arg p =
    (case List.find (\<lambda>i. \<not> pd_registered (pw_drivers p ! i)) [0..<8] of
       Some i \<Rightarrow> (0, p\<lparr>pw_drivers := (pw_drivers p)[i := \<lparr>pd_handle = h, pd_suspend = suspend,
                   pd_resume = resume, pd_arg = arg, pd_registered = True\<rparr>]\<rparr>)
     | None \<Rightarrow> (-1, p))"

definition power_unregister_driver :: "nat \<Rightarrow> power \<Rightarrow> int \<times> power" where
  "power_unregister_driver h p =
    (case List.find (\<lambda>i. pd_registered (pw_drivers p ! i) \<and> pd_handle (pw_drivers p ! i) = h) [0..<8] of
       Some i \<Rightarrow> (0, p\<lparr>pw_drivers := (pw_drivers p)[i := (pw_drivers p ! i)\<lparr>pd_registered := False\<rparr>]\<rparr>)
     | None \<Rightarrow> (-1, p))"

text \<open>
  Deep sleep, given the clock before and after the sleep. The result also lists the driver
  callbacks in the order they are called, each with its argument.
\<close>

definition driver_calls :: "(power_driver \<Rightarrow> nat option) \<Rightarrow> power \<Rightarrow> (nat \<times> nat) list" where
  "driver_calls sel p =
    concat (map (\<lambda>i. let d = pw_drivers p ! i in
        if pd_registered d then (case sel d of Some f \<Rightarrow> [(f, pd_arg d)] | None \<Rightarrow> []) else []) [0..<8])"

definition power_deep_sleep_with_gpio_wake ::
    "int \<Rightarrow> int \<Rightarrow> u32 \<Rightarrow> u32 \<Rightarrow> u32 \<Rightarrow> power \<Rightarrow> int \<times> power \<times> (nat \<times> nat) list" where
  "power_deep_sleep_with_gpio_wake gpio_num trigger timeout_ms start_ms end_ms p =
    (if \<not> pw_initialized p then (-1, p, [])
     else
       let p = p\<lparr>pw_timeout_ms := timeout_ms, pw_gpio_num := gpio_num, pw_gpio_trigger := trigger\<rparr> in
       if timeout_ms = 0 \<and> gpio_num = -1 then (0, p, driver_calls pd_suspend p)
       else (0, p\<lparr>pw_last_wake := \<lparr>wr_woke_up = True, wr_wake_gpio = gpio_num, wr_slept_ms = end_ms - start_ms\<rparr>\<rparr>,
             driver_calls pd_suspend p @ driver_calls pd_resume p))"

definition power_deep_sleep :: "u32 \<Rightarrow> u32 \<Rightarrow> u32 \<Rightarrow> power \<Rightarrow> int \<times> power \<times> (nat \<times> nat) list" where
  "power_deep_sleep timeout_ms start_ms end_ms p =
    power_deep_sleep_with_gpio_wake (-1) 0 timeout_ms start_ms end_ms p"

definition is_in_sleep_mode :: "power \<Rightarrow> bool" where
  "is_in_sleep_mode p \<longleftrightarrow> pw_current_mode p \<noteq> POWER_MODE_ACTIVE"

section \<open>The governor\<close>

definition ceiling_for :: "power_demand \<Rightarrow> power_level" where
  "ceiling_for demand =
    (if demand \<ge> POWER_DEMAND_HIGH then POWER_LEVEL_PERFORMANCE
     else if demand \<ge> POWER_DEMAND_NORMAL then POWER_LEVEL_PERFORMANCE
     else POWER_LEVEL_ECONOMY)"

definition freq_swap :: "nat \<Rightarrow> nat \<Rightarrow> u32 list \<Rightarrow> u32 list" where
  "freq_swap i j fs = (if fs ! j > fs ! i then fs[i := fs ! j, j := fs ! i] else fs)"

definition freq_sort :: "nat \<Rightarrow> u32 list \<Rightarrow> u32 list" where
  "freq_sort n fs = fold (\<lambda>i. fold (freq_swap i) [i + 1..<n]) [0..<n] fs"

definition freq_index :: "power_level \<Rightarrow> nat \<Rightarrow> nat" where
  "freq_index level n =
    (if level = POWER_LEVEL_PERFORMANCE then 0
     else if level = POWER_LEVEL_BALANCED then n div 2
     else if level = POWER_LEVEL_ECONOMY then (if n \<ge> 2 then n - 2 else n - 1)
     else n - 1)"

definition freq_for_level :: "power_level \<Rightarrow> power \<Rightarrow> u32" where
  "freq_for_level level p =
    (case power_get_available_freqs (Some (replicate 8 0)) 8 p of
       (n, freqs) \<Rightarrow>
         if n \<le> 0 then 0 else freq_sort (nat n) (opt_buf freqs) ! freq_index level (nat n))"

definition brightness_for_level :: "power_level \<Rightarrow> u8" where
  "brightness_for_level level =
    (if level = POWER_LEVEL_PERFORMANCE then 255
     else if level = POWER_LEVEL_BALANCED then 180
     else if level = POWER_LEVEL_ECONOMY then 64 else 16)"

definition apply_level :: "governor \<Rightarrow> power \<Rightarrow> power \<times> actuation list" where
  "apply_level g p =
    (let mhz = freq_for_level (gv_level g) p;
         (p', acts) = (if mhz \<noteq> 0 then (if gv_set_freq g then (p, [Set_Freq mhz]) else (snd (power_set_cpu_freq mhz p), []))
                       else (p, []))
     in (p', acts @ (if gv_set_brightness g then [Set_Brightness (brightness_for_level (gv_level g))] else [])))"

definition effective_demand :: "governor \<Rightarrow> power_demand" where
  "effective_demand g =
    (let hint = gv_foreground g;
         hint = (if gv_saw_busy_demand g \<and> gv_window_demand g > hint then gv_window_demand g else hint)
     in if hint = POWER_DEMAND_UNSET then POWER_DEMAND_NORMAL else hint)"

text \<open>A reading is \<open>None\<close> when the sensor call fails.\<close>

definition sample_temp :: "int option \<Rightarrow> governor \<Rightarrow> int option" where
  "sample_temp reading g = (if gv_read_temp g then reading else None)"

definition choose_quiet :: "governor \<Rightarrow> governor" where
  "choose_quiet g =
    (let g = g\<lparr>gv_full_streak := 0, gv_quiet_streak := gv_quiet_streak g + 1\<rparr> in
     if gv_quiet_streak g \<ge> POWER_QUIET_WINDOWS \<and> gv_level g > POWER_LEVEL_ECONOMY
     then g\<lparr>gv_level := gv_level g - 1, gv_quiet_streak := 0\<rparr> else g)"

definition clamp_level :: "power_level \<Rightarrow> governor \<Rightarrow> governor" where
  "clamp_level ceiling g = (if gv_level g > ceiling then g\<lparr>gv_level := ceiling\<rparr> else g)"

definition raise_level :: "power_level \<Rightarrow> governor \<Rightarrow> governor" where
  "raise_level ceiling g = (if gv_level g < ceiling then g\<lparr>gv_level := gv_level g + 1\<rparr> else g)"

definition choose_busy :: "power_level \<Rightarrow> power_demand \<Rightarrow> bool \<Rightarrow> governor \<Rightarrow> governor" where
  "choose_busy ceiling hint full g =
    (let g = g\<lparr>gv_quiet_streak := 0\<rparr> in
     if full \<and> hint < POWER_DEMAND_HIGH
     then
       let g = g\<lparr>gv_full_streak := gv_full_streak g + 1\<rparr> in
       if gv_full_streak g \<ge> POWER_SUSTAINED_WINDOWS
       then let held = (if ceiling > POWER_LEVEL_ECONOMY then ceiling - 1 else ceiling)
            in g\<lparr>gv_sustained_hold := True, gv_held_level := held, gv_level := held, gv_full_streak := 0\<rparr>
       else clamp_level ceiling (raise_level ceiling g)
     else clamp_level ceiling (raise_level ceiling (g\<lparr>gv_full_streak := 0\<rparr>)))"

definition choose_level :: "power_demand \<Rightarrow> bool \<Rightarrow> bool \<Rightarrow> governor \<Rightarrow> governor" where
  "choose_level hint quiet full g =
    (let ceiling = ceiling_for hint in
     if gv_thermal g then g\<lparr>gv_sustained_hold := False, gv_level := POWER_LEVEL_COOL\<rparr>
     else
       let g = clamp_level ceiling g in
       if gv_sustained_hold g \<and> \<not> quiet
       then let held = (if gv_held_level g > ceiling then ceiling else gv_held_level g)
            in g\<lparr>gv_held_level := held, gv_level := held\<rparr>
       else
         let g = (if gv_sustained_hold g then g\<lparr>gv_sustained_hold := False\<rparr> else g)
         in if quiet then clamp_level ceiling (choose_quiet g) else choose_busy ceiling hint full g)"

text \<open>\<open>recover\<close> and \<open>hot\<close> are the sensor readings of the two thermal checks of a window.\<close>

definition thermal_rule :: "int option \<Rightarrow> int option \<Rightarrow> governor \<Rightarrow> governor" where
  "thermal_rule recover hot g =
    (let g = (if gv_thermal g
              then (case sample_temp recover g of
                      Some t \<Rightarrow> if t \<le> POWER_TEMP_RECOVER_C then g\<lparr>gv_thermal := False\<rparr> else g
                    | None \<Rightarrow> g)
              else g)
     in if \<not> gv_thermal g
        then (case sample_temp hot g of
                Some t \<Rightarrow> if t \<ge> POWER_TEMP_HOT_C then g\<lparr>gv_thermal := True\<rparr> else g
              | None \<Rightarrow> g)
        else g)"

definition close_window ::
    "u32 \<Rightarrow> bool \<Rightarrow> int option \<Rightarrow> int option \<Rightarrow> governor \<Rightarrow> power \<Rightarrow> governor \<times> power \<times> actuation list" where
  "close_window next_wake_ms any_runnable recover hot g p =
    (let total = gv_busy g + gv_idle g;
         quiet = (gv_busy g = 0);
         pct = (if total \<noteq> 0 then (gv_busy g * 100) div total else 0);
         full = (\<not> quiet \<and> pct \<ge> POWER_FULL_PERCENT);
         hint = effective_demand g;
         g = choose_level hint quiet full (thermal_rule recover hot g);
         (p, acts) = apply_level g p;
         sleep = (if \<not> any_runnable \<and> (gv_level g = POWER_LEVEL_ECONOMY \<or> gv_level g = POWER_LEVEL_COOL) \<and>
                    next_wake_ms \<ge> POWER_LIGHT_SLEEP_MIN_MS \<and> next_wake_ms \<noteq> UINT32_MAX
                  then next_wake_ms else 0)
     in (g\<lparr>gv_light_sleep_ms := sleep, gv_busy := 0, gv_idle := 0, gv_saw_busy_demand := False,
           gv_window_demand := POWER_DEMAND_UNSET\<rparr>, p, acts))"

definition governor_zero :: governor where
  "governor_zero = \<lparr>gv_level = 0, gv_foreground = 0, gv_busy = 0, gv_idle = 0, gv_busy_total = 0, gv_idle_total = 0,
     gv_window_demand = 0, gv_saw_busy_demand = False, gv_quiet_streak = 0, gv_full_streak = 0,
     gv_sustained_hold = False, gv_held_level = 0, gv_thermal = False, gv_have_window = False,
     gv_window_started_ms = 0, gv_light_sleep_ms = 0, gv_set_freq = False, gv_set_brightness = False,
     gv_read_temp = False\<rparr>"

definition power_governor_reset :: "governor \<Rightarrow> governor" where
  "power_governor_reset g =
    governor_zero\<lparr>gv_level := POWER_LEVEL_BALANCED, gv_foreground := POWER_DEMAND_NORMAL,
      gv_set_freq := gv_set_freq g, gv_set_brightness := gv_set_brightness g, gv_read_temp := gv_read_temp g\<rparr>"

definition power_governor_set_foreground_demand :: "power_demand \<Rightarrow> governor \<Rightarrow> governor" where
  "power_governor_set_foreground_demand demand g =
    g\<lparr>gv_foreground := (if demand = POWER_DEMAND_UNSET \<or> demand > POWER_DEMAND_HIGH then POWER_DEMAND_NORMAL else demand)\<rparr>"

definition power_governor_set_actuators :: "bool \<Rightarrow> bool \<Rightarrow> bool \<Rightarrow> governor \<Rightarrow> governor" where
  "power_governor_set_actuators set_freq set_brightness read_temp g =
    g\<lparr>gv_set_freq := set_freq, gv_set_brightness := set_brightness, gv_read_temp := read_temp\<rparr>"

text \<open>The task is given by its \<open>power_demand\<close> byte, or \<open>None\<close> for the null pointer.\<close>

definition power_get_demand :: "power_demand option \<Rightarrow> power_demand" where
  "power_get_demand task =
    (case task of None \<Rightarrow> POWER_DEMAND_NORMAL | Some d \<Rightarrow> if d = POWER_DEMAND_UNSET then POWER_DEMAND_NORMAL else d)"

definition power_set_demand :: "power_demand option \<Rightarrow> power_demand \<Rightarrow> int \<times> power_demand option" where
  "power_set_demand task demand =
    (case task of
       None \<Rightarrow> (-1, task)
     | Some _ \<Rightarrow> if demand = POWER_DEMAND_UNSET \<or> demand > POWER_DEMAND_HIGH then (-1, task) else (0, Some demand))"

definition power_governor_note_idle :: "governor \<Rightarrow> governor" where
  "power_governor_note_idle g = g\<lparr>gv_idle := gv_idle g + 1, gv_idle_total := gv_idle_total g + 1\<rparr>"

definition power_governor_note_busy :: "power_demand option \<Rightarrow> governor \<Rightarrow> governor" where
  "power_governor_note_busy task g =
    (let g = g\<lparr>gv_busy := gv_busy g + 1, gv_busy_total := gv_busy_total g + 1\<rparr> in
     case task of
       None \<Rightarrow> g
     | Some d \<Rightarrow>
         if d = POWER_DEMAND_UNSET then g
         else if \<not> gv_saw_busy_demand g \<or> d > gv_window_demand g
              then g\<lparr>gv_window_demand := d, gv_saw_busy_demand := True\<rparr> else g)"

definition power_governor_tick ::
    "u32 \<Rightarrow> u32 \<Rightarrow> bool \<Rightarrow> int option \<Rightarrow> int option \<Rightarrow> governor \<Rightarrow> power \<Rightarrow> governor \<times> power \<times> actuation list" where
  "power_governor_tick now_ms next_wake_ms any_runnable recover hot g p =
    (if \<not> gv_have_window g
     then close_window next_wake_ms any_runnable recover hot
            (g\<lparr>gv_have_window := True, gv_window_started_ms := now_ms\<rparr>) p
     else if now_ms - gv_window_started_ms g < POWER_WINDOW_MS then (g, p, [])
     else close_window next_wake_ms any_runnable recover hot (g\<lparr>gv_window_started_ms := now_ms\<rparr>) p)"

definition power_init :: "u32 \<Rightarrow> governor \<Rightarrow> power \<Rightarrow> governor \<times> power" where
  "power_init max_freq g p =
    (if pw_initialized p then (g, p)
     else (power_governor_reset g,
       (init_available_freqs max_freq p)\<lparr>pw_initialized := True, pw_current_mode := POWER_MODE_ACTIVE,
         pw_rtc_time_ms := 0, pw_timeout_ms := 0, pw_gpio_num := -1, pw_gpio_trigger := 0,
         pw_last_wake := \<lparr>wr_woke_up = False, wr_wake_gpio = -1, wr_slept_ms = 0\<rparr>,
         pw_drivers := map (\<lambda>d. d\<lparr>pd_registered := False\<rparr>) (pw_drivers p)\<rparr>))"

definition power_deinit :: "governor \<Rightarrow> power \<Rightarrow> governor \<times> power" where
  "power_deinit g p =
    (power_governor_reset g, p\<lparr>pw_initialized := False, pw_current_mode := POWER_MODE_ACTIVE\<rparr>)"

section \<open>The frequency table\<close>

lemma length_freq_swap [simp]: "length (freq_swap i j fs) = length fs"
  by (simp add: freq_swap_def)

lemma mset_freq_swap:
  assumes "i < n" "j < n" "n \<le> length fs"
  shows "mset (take n (freq_swap i j fs)) = mset (take n fs)"
proof -
  have "mset ((take n fs)[i := take n fs ! j, j := take n fs ! i]) = mset (take n fs)"
    by (rule mset_swap) (use assms in auto)
  then show ?thesis using assms by (simp add: freq_swap_def take_update_swap)
qed

text \<open>One pass of the inner loop puts the largest remaining frequency at \<open>i\<close>.\<close>

lemma freq_swap_nth:
  assumes "i < j" "j < length fs"
  shows "freq_swap i j fs ! k =
    (if k = i then max (fs ! i) (fs ! j) else if k = j then min (fs ! i) (fs ! j) else fs ! k)"
  using assms by (auto simp: freq_swap_def nth_list_update max_def min_def)

lemma freq_inner:
  assumes "i < m" "m \<le> n" "n \<le> length fs"
  shows "length (fold (freq_swap i) [i + 1..<m] fs) = length fs
    \<and> mset (take n (fold (freq_swap i) [i + 1..<m] fs)) = mset (take n fs)
    \<and> (\<forall>k<i. fold (freq_swap i) [i + 1..<m] fs ! k = fs ! k)
    \<and> (\<forall>k. m \<le> k \<longrightarrow> fold (freq_swap i) [i + 1..<m] fs ! k = fs ! k)
    \<and> (\<forall>k. i \<le> k \<and> k < m \<longrightarrow> fold (freq_swap i) [i + 1..<m] fs ! k \<le> fold (freq_swap i) [i + 1..<m] fs ! i)"
  using assms
proof (induction m)
  case (Suc m)
  show ?case
  proof (cases "i < m")
    case True
    let ?F = "fold (freq_swap i) [i + 1..<m] fs"
    have "length ?F = length fs" "mset (take n ?F) = mset (take n fs)" "\<forall>k<i. ?F ! k = fs ! k"
      "\<forall>k. m \<le> k \<longrightarrow> ?F ! k = fs ! k" "\<forall>k. i \<le> k \<and> k < m \<longrightarrow> ?F ! k \<le> ?F ! i"
      using Suc True by auto
    moreover have "fold (freq_swap i) [i + 1..<Suc m] fs = freq_swap i m ?F" using True by simp
    ultimately show ?thesis using Suc.prems True
      by (auto simp: mset_freq_swap freq_swap_nth max_def less_Suc_eq)
  next
    case False
    then have "m = i" using Suc.prems by simp
    then show ?thesis using Suc.prems by (auto simp: le_less_Suc_eq)
  qed
qed simp


text \<open>Cells from \<open>i\<close> on are only permuted among themselves.\<close>

lemma freq_inner_src:
  assumes "\<forall>j\<in>set js. i < j \<and> j < n" "n \<le> length fs" "i \<le> k" "k < n"
  shows "\<exists>l\<ge>i. l < n \<and> fold (freq_swap i) js fs ! k = fs ! l"
  using assms
proof (induction js arbitrary: fs)
  case (Cons j js)
  have "\<exists>l\<ge>i. l < n \<and> fold (freq_swap i) js (freq_swap i j fs) ! k = freq_swap i j fs ! l"
    by (rule Cons.IH) (use Cons.prems in auto)
  then obtain l where l: "l \<ge> i" "l < n" "fold (freq_swap i) (j # js) fs ! k = freq_swap i j fs ! l"
    by auto
  have j: "i < j" "j < n" "n \<le> length fs" using Cons.prems by auto
  then have "freq_swap i j fs ! l = fs ! l \<or> freq_swap i j fs ! l = fs ! i \<or> freq_swap i j fs ! l = fs ! j"
    by (simp add: freq_swap_nth max_def min_def)
  moreover have "i \<le> j" "i < n" using j by auto
  ultimately show ?case using l j(2) by (metis order_refl)
qed auto

lemma freq_outer:
  assumes "m \<le> n" "n \<le> length fs"
  shows "length (fold (\<lambda>i. fold (freq_swap i) [i + 1..<n]) [0..<m] fs) = length fs
    \<and> mset (take n (fold (\<lambda>i. fold (freq_swap i) [i + 1..<n]) [0..<m] fs)) = mset (take n fs)
    \<and> (\<forall>k l. k < m \<and> k \<le> l \<and> l < n \<longrightarrow> fold (\<lambda>i. fold (freq_swap i) [i + 1..<n]) [0..<m] fs ! l
          \<le> fold (\<lambda>i. fold (freq_swap i) [i + 1..<n]) [0..<m] fs ! k)"
  using assms
proof (induction m)
  case (Suc m)
  let ?F = "fold (\<lambda>i. fold (freq_swap i) [i + 1..<n]) [0..<m] fs"
  let ?G = "fold (freq_swap m) [m + 1..<n] ?F"
  have IH: "length ?F = length fs" "mset (take n ?F) = mset (take n fs)"
    "\<And>k l. k < m \<Longrightarrow> k \<le> l \<Longrightarrow> l < n \<Longrightarrow> ?F ! l \<le> ?F ! k"
    using Suc by auto
  have G: "length ?G = length ?F" "mset (take n ?G) = mset (take n ?F)" "\<And>k. k < m \<Longrightarrow> ?G ! k = ?F ! k"
    "\<And>k. m \<le> k \<Longrightarrow> k < n \<Longrightarrow> ?G ! k \<le> ?G ! m"
    using freq_inner [of m n n ?F] Suc.prems IH(1) by auto
  have sorted: "?G ! l \<le> ?G ! k" if k: "k < Suc m" and l: "k \<le> l" "l < n" for k l
  proof (cases "k < m \<and> m \<le> l")
    case True
    then obtain l' where "l' \<ge> m" "l' < n" "?G ! l = ?F ! l'"
      using freq_inner_src [of "[m + 1..<n]" m n ?F l] l IH(1) Suc.prems by auto
    then show ?thesis using True G(3) IH(3) [of k l'] by simp
  next
    case False
    then show ?thesis using k l G(3,4) IH(3) by (cases "k = m") auto
  qed
  have "fold (\<lambda>i. fold (freq_swap i) [i + 1..<n]) [0..<Suc m] fs = ?G" by simp
  then show ?case using sorted G(1,2) IH(1,2) by auto
qed simp

lemma freq_sort_props:
  assumes "n \<le> length fs"
  shows "length (freq_sort n fs) = length fs" "mset (take n (freq_sort n fs)) = mset (take n fs)"
    "k \<le> l \<Longrightarrow> l < n \<Longrightarrow> freq_sort n fs ! l \<le> freq_sort n fs ! k"
  using freq_outer [of n n fs] assms by (auto simp: freq_sort_def)

definition freqs_wf :: "power \<Rightarrow> bool" where
  "freqs_wf p \<longleftrightarrow> length (pw_available_freqs p) = 8 \<and> 1 \<le> pw_num_available_freqs p \<and> pw_num_available_freqs p \<le> 8"

definition freqs_of :: "power \<Rightarrow> u32 list" where
  "freqs_of p = take (pw_num_available_freqs p) (pw_available_freqs p)"

lemma freq_index_less: "0 < n \<Longrightarrow> freq_index level n < n"
  by (simp add: freq_index_def)

lemma freq_for_level_eq:
  assumes "freqs_wf p"
  shows "\<exists>fs. mset fs = mset (freqs_of p) \<and> length fs = pw_num_available_freqs p \<and> sorted_wrt (\<ge>) fs
    \<and> (\<forall>level. freq_for_level level p = fs ! freq_index level (pw_num_available_freqs p))"
proof -
  let ?n = "pw_num_available_freqs p"
  let ?t = "fold (\<lambda>i fs. fs[i := pw_available_freqs p ! i]) [0..<?n] (replicate 8 0)"
  let ?fs = "take ?n (freq_sort ?n ?t)"
  have n: "1 \<le> ?n" "?n \<le> 8" "length (pw_available_freqs p) = 8" using assms by (auto simp: freqs_wf_def)
  have t: "?t = map (\<lambda>i. pw_available_freqs p ! i) [0..<?n] @ drop ?n (replicate 8 0)"
    using n fold_update_upt [of ?n "replicate 8 0" "\<lambda>i _. pw_available_freqs p ! i"] by simp
  then have "take ?n ?t = freqs_of p" "?n \<le> length ?t"
    using n by (auto intro!: nth_equalityI simp: freqs_of_def)
  moreover from this(2) have "sorted_wrt (\<ge>) ?fs"
    using freq_sort_props(1,3) [of ?n ?t] by (simp add: sorted_wrt_iff_nth_less)
  ultimately have "mset ?fs = mset (freqs_of p)" "length ?fs = ?n" "sorted_wrt (\<ge>) ?fs"
    using freq_sort_props(1,2) [of ?n ?t] by simp_all
  moreover have "freq_for_level level p = ?fs ! freq_index level ?n" for level
    using n freq_index_less [of ?n level]
    by (simp add: freq_for_level_def power_get_available_freqs_def opt_buf_def Let_def min_def)
  ultimately show ?thesis by blast
qed

lemma freq_index_antimono:
  assumes "n \<noteq> 2" "l1 \<le> l2" "l2 \<le> POWER_LEVEL_PERFORMANCE"
  shows "freq_index l2 n \<le> freq_index l1 n"
proof -
  have "n div 2 \<le> n - 2" if "n \<ge> 2" using that assms(1) by presburger
  moreover have "n div 2 \<le> n - 1" by presburger
  ultimately show ?thesis using assms(2,3) unfolding freq_index_def by auto
qed

lemma sorted_desc_ends:
  fixes fs :: "u32 list"
  assumes "sorted_wrt (\<ge>) fs" "fs \<noteq> []"
  shows "fs ! 0 = Max (set fs)" "fs ! (length fs - 1) = Min (set fs)"
proof -
  have "x \<le> fs ! 0" "fs ! (length fs - 1) \<le> x" if x: "x \<in> set fs" for x
  proof -
    obtain i where i: "i < length fs" "x = fs ! i" using x by (auto simp: in_set_conv_nth)
    have "fs ! j \<le> fs ! i" if "i \<le> j" "j < length fs" for i j
      using sorted_wrt_nth_less [OF assms(1), of i j] that by (cases "i = j") auto
    then show "x \<le> fs ! 0" "fs ! (length fs - 1) \<le> x" using i by auto
  qed
  then show "fs ! 0 = Max (set fs)" "fs ! (length fs - 1) = Min (set fs)"
    using assms(2) by (auto intro!: Max_eqI [symmetric] Min_eqI [symmetric])
qed

lemma ceiling_for_le: "ceiling_for d \<le> 3"
  by (simp add: ceiling_for_def)

lemma choose_level_ceiling:
  "gv_level (choose_level hint quiet full g) \<le> (if gv_thermal g then POWER_LEVEL_COOL else ceiling_for hint)"
  by (simp add: choose_level_def choose_quiet_def choose_busy_def clamp_level_def raise_level_def Let_def)

lemma choose_level_thermal [simp]: "gv_thermal (choose_level hint quiet full g) = gv_thermal g"
  by (simp add: choose_level_def choose_quiet_def choose_busy_def clamp_level_def raise_level_def Let_def)

lemma choose_level_read_temp [simp]:
  "gv_read_temp (choose_level hint quiet full g) = gv_read_temp g"
  "gv_set_freq (choose_level hint quiet full g) = gv_set_freq g"
  "gv_set_brightness (choose_level hint quiet full g) = gv_set_brightness g"
  by (simp_all add: choose_level_def choose_quiet_def choose_busy_def clamp_level_def raise_level_def Let_def)

lemma thermal_rule_eq:
  "thermal_rule recover hot g = g\<lparr>gv_thermal := gv_thermal (thermal_rule recover hot g)\<rparr>"
  by (simp add: thermal_rule_def Let_def split: option.split)

lemma effective_demand_thermal [simp]: "effective_demand (g\<lparr>gv_thermal := b\<rparr>) = effective_demand g"
  by (simp add: effective_demand_def Let_def)

lemma close_window_fst:
  "fst (close_window nw any recover hot g p) =
    (let g' = choose_level (effective_demand g) (gv_busy g = 0)
         (gv_busy g \<noteq> 0 \<and> (if gv_busy g + gv_idle g \<noteq> 0 then (gv_busy g * 100) div (gv_busy g + gv_idle g) else 0) \<ge> 80)
         (thermal_rule recover hot g)
     in g'\<lparr>gv_light_sleep_ms := (if \<not> any \<and> (gv_level g' = 1 \<or> gv_level g' = 0) \<and> nw \<ge> 50 \<and> nw \<noteq> UINT32_MAX then nw else 0),
        gv_busy := 0, gv_idle := 0, gv_saw_busy_demand := False, gv_window_demand := 0\<rparr>)"
  by (simp add: close_window_def Let_def split: prod.split)

definition gov_wf :: "governor \<Rightarrow> bool" where
  "gov_wf g \<longleftrightarrow> gv_level g \<le> 3 \<and> gv_held_level g \<le> 3 \<and>
    (gv_level g > 1 \<or> gv_sustained_hold g \<longrightarrow> gv_quiet_streak g < 3)"

lemma choose_level_wf: "gov_wf g \<Longrightarrow> gov_wf (choose_level hint quiet full g)"
  using ceiling_for_le [of hint]
  by (auto simp: gov_wf_def choose_level_def choose_quiet_def choose_busy_def clamp_level_def raise_level_def Let_def)

lemma close_window_wf: "gov_wf g \<Longrightarrow> gov_wf (fst (close_window nw any recover hot g p))"
proof -
  assume "gov_wf g"
  then have "gov_wf (thermal_rule recover hot g)"
    by (subst thermal_rule_eq) (simp add: gov_wf_def)
  then have "gov_wf (choose_level hint quiet full (thermal_rule recover hot g))" for hint quiet full
    by (rule choose_level_wf)
  then show ?thesis unfolding close_window_fst Let_def by (simp add: gov_wf_def)
qed

text \<open>The calls the scheduler, the apps and the launcher make on the governor.\<close>

datatype governor_call =
  Note_Idle | Note_Busy "power_demand option" | Foreground power_demand
| Tick u32 u32 bool "int option" "int option"

fun governor_exec :: "governor_call \<Rightarrow> governor \<times> power \<Rightarrow> governor \<times> power" where
  "governor_exec Note_Idle (g, p) = (power_governor_note_idle g, p)"
| "governor_exec (Note_Busy task) (g, p) = (power_governor_note_busy task g, p)"
| "governor_exec (Foreground demand) (g, p) = (power_governor_set_foreground_demand demand g, p)"
| "governor_exec (Tick now nw any recover hot) (g, p) =
    (case power_governor_tick now nw any recover hot g p of (g, p, _) \<Rightarrow> (g, p))"

lemma governor_tick_fst:
  "fst (governor_exec (Tick now nw any recover hot) (g, p)) =
    (if \<not> gv_have_window g \<or> now - gv_window_started_ms g \<ge> 100
     then fst (close_window nw any recover hot (g\<lparr>gv_have_window := True, gv_window_started_ms := now\<rparr>) p)
     else g)"
proof -
  have id: "g\<lparr>gv_have_window := True\<rparr> = g" if "gv_have_window g" using that by (cases g) simp
  show ?thesis by (auto simp: power_governor_tick_def id split: prod.split)
qed

lemma governor_exec_wf: "gov_wf (fst gp) \<Longrightarrow> gov_wf (fst (governor_exec c gp))"
proof (cases gp; cases c)
  fix g p now nw any recover hot
  assume wf: "gov_wf (fst gp)" and gp: "gp = (g, p)" and c: "c = Tick now nw any recover hot"
  have "gov_wf (g\<lparr>gv_have_window := True, gv_window_started_ms := now\<rparr>)" using wf gp by (simp add: gov_wf_def)
  then show ?thesis using wf close_window_wf unfolding gp c governor_tick_fst by simp
qed (auto simp: gov_wf_def power_governor_note_idle_def power_governor_note_busy_def
      power_governor_set_foreground_demand_def Let_def split: option.split)

lemma governor_run_wf: "gov_wf (fst gp) \<Longrightarrow> gov_wf (fst (fold governor_exec cs gp))"
  by (induction cs arbitrary: gp) (simp_all add: governor_exec_wf)

lemma governor_reset_wf [simp]: "gov_wf (power_governor_reset g)"
  by (simp add: gov_wf_def power_governor_reset_def governor_zero_def)

text \<open>Overheated: until a reading at or below the recovery temperature.\<close>

definition cooling :: "governor \<Rightarrow> bool" where
  "cooling g \<longleftrightarrow> gv_thermal g \<and> gv_level g = POWER_LEVEL_COOL"

fun still_hot :: "governor_call \<Rightarrow> bool" where
  "still_hot (Tick now nw any recover hot) \<longleftrightarrow> (case recover of None \<Rightarrow> True | Some t \<Rightarrow> POWER_TEMP_RECOVER_C < t)"
| "still_hot _ \<longleftrightarrow> True"

lemma close_window_cooling:
  assumes "gv_thermal (thermal_rule recover hot g)"
  shows "cooling (fst (close_window nw any recover hot g p))"
  using assms choose_level_ceiling [where g = "thermal_rule recover hot g"]
  unfolding close_window_fst Let_def by (simp add: cooling_def)

lemma governor_exec_cooling:
  assumes "cooling (fst gp)" "still_hot c"
  shows "cooling (fst (governor_exec c gp))"
proof (cases gp; cases c)
  fix g p now nw any recover hot
  assume gp: "gp = (g, p)" and c: "c = Tick now nw any recover hot"
  have "gv_thermal (thermal_rule recover hot (g\<lparr>gv_have_window := True, gv_window_started_ms := now\<rparr>))"
    using assms gp c by (auto simp: thermal_rule_def cooling_def sample_temp_def split: option.splits)
  then show ?thesis using assms gp unfolding c gp governor_tick_fst by (simp add: close_window_cooling)
qed (use assms in \<open>auto simp: cooling_def power_governor_note_idle_def power_governor_note_busy_def
      power_governor_set_foreground_demand_def Let_def split: option.split\<close>)

lemma governor_run_cooling:
  "cooling (fst gp) \<Longrightarrow> \<forall>c\<in>set cs. still_hot c \<Longrightarrow> cooling (fst (fold governor_exec cs gp))"
  by (induction cs arbitrary: gp) (simp_all add: governor_exec_cooling)

text \<open>How many quiet windows a governor is away from the economy level.\<close>

definition quiet_distance :: "governor \<Rightarrow> nat" where
  "quiet_distance g = (if gv_level g \<le> POWER_LEVEL_ECONOMY then 0
     else 3 * (gv_level g - 1) - unat (gv_quiet_streak g))"

lemma choose_level_quiet:
  assumes "gov_wf g"
  shows "quiet_distance (choose_level hint True full g) \<le> quiet_distance g - 1"
proof -
  have s: "gv_level g > 1 \<Longrightarrow> unat (gv_quiet_streak g) < 3 \<and> unat (gv_quiet_streak g + 1) = unat (gv_quiet_streak g) + 1"
  proof -
    assume "gv_level g > 1"
    then have "gv_quiet_streak g < 3" using assms by (simp add: gov_wf_def)
    then have "unat (gv_quiet_streak g) < 3" by (simp add: word_less_nat_alt)
    then show ?thesis by (simp add: unat_word_ariths)
  qed
  have "3 \<le> gv_quiet_streak g + 1 \<longleftrightarrow> 3 \<le> unat (gv_quiet_streak g) + 1" if "gv_level g > 1"
    using s [OF that] by (simp add: word_le_nat_alt)
  then show ?thesis using s ceiling_for_le [of hint]
    by (auto simp: quiet_distance_def choose_level_def choose_quiet_def clamp_level_def Let_def ceiling_for_def)
qed

lemma close_window_quiet:
  assumes "gov_wf g" "gv_busy g = 0"
  shows "quiet_distance (fst (close_window nw any recover hot g p)) \<le> quiet_distance g - 1"
proof -
  have "quiet_distance (thermal_rule recover hot g) = quiet_distance g" "gov_wf (thermal_rule recover hot g)"
    using assms by (subst thermal_rule_eq, simp add: quiet_distance_def gov_wf_def)+
  moreover have "quiet_distance (g\<lparr>gv_light_sleep_ms := a, gv_busy := b, gv_idle := c, gv_saw_busy_demand := d,
    gv_window_demand := e\<rparr>) = quiet_distance g" for g a b c d e by (simp add: quiet_distance_def)
  ultimately show ?thesis using choose_level_quiet [of "thermal_rule recover hot g"] assms(2)
    unfolding close_window_fst Let_def by simp
qed

text \<open>Ticks at least a window apart, the first one a window after the last closed window.\<close>

fun spaced :: "u32 \<Rightarrow> governor_call list \<Rightarrow> bool" where
  "spaced t [] \<longleftrightarrow> True"
| "spaced t (Tick now nw any recover hot # cs) \<longleftrightarrow> now - t \<ge> POWER_WINDOW_MS \<and> spaced now cs"
| "spaced t (Note_Idle # cs) \<longleftrightarrow> spaced t cs"
| "spaced t (_ # cs) \<longleftrightarrow> False"

fun windows_closed :: "governor_call list \<Rightarrow> nat" where
  "windows_closed [] = 0"
| "windows_closed (Tick now nw any recover hot # cs) = Suc (windows_closed cs)"
| "windows_closed (_ # cs) = windows_closed cs"

lemma close_window_keeps:
  "gv_have_window (fst (close_window nw any recover hot g p)) = gv_have_window g"
  "gv_window_started_ms (fst (close_window nw any recover hot g p)) = gv_window_started_ms g"
  "gv_busy (fst (close_window nw any recover hot g p)) = 0"
proof -
  have "gv_have_window (thermal_rule recover hot g) = gv_have_window g"
    "gv_window_started_ms (thermal_rule recover hot g) = gv_window_started_ms g"
    by (subst thermal_rule_eq, simp)+
  then show "gv_have_window (fst (close_window nw any recover hot g p)) = gv_have_window g"
    "gv_window_started_ms (fst (close_window nw any recover hot g p)) = gv_window_started_ms g"
    "gv_busy (fst (close_window nw any recover hot g p)) = 0"
    unfolding close_window_fst Let_def
    by (simp_all add: choose_level_def choose_quiet_def choose_busy_def clamp_level_def raise_level_def Let_def)
qed

lemma governor_quiet_run:
  assumes "gov_wf g" "gv_have_window g" "gv_busy g = 0" "spaced (gv_window_started_ms g) cs"
  shows "quiet_distance (fst (fold governor_exec cs (g, p))) \<le> quiet_distance g - windows_closed cs"
  using assms
proof (induction "gv_window_started_ms g" cs arbitrary: g p rule: spaced.induct)
  case (2 now nw any recover hot cs)
  let ?g = "g\<lparr>gv_have_window := True, gv_window_started_ms := now\<rparr>"
  obtain g' p' where e: "governor_exec (Tick now nw any recover hot) (g, p) = (g', p')" by fastforce
  then have g': "g' = fst (close_window nw any recover hot ?g p)"
    using 2 governor_tick_fst [of now nw any recover hot g p] by simp
  have "gov_wf ?g" "gv_busy ?g = 0" "quiet_distance ?g = quiet_distance g"
    using 2 by (auto simp: gov_wf_def quiet_distance_def)
  then have "gov_wf g'" "quiet_distance g' \<le> quiet_distance g - 1"
    using close_window_quiet [of ?g nw any recover hot p] close_window_wf [of ?g nw any recover hot p] by (auto simp: g')
  moreover from this have "quiet_distance (fst (fold governor_exec cs (g', p'))) \<le> quiet_distance g' - windows_closed cs"
    using 2(1) [of g' p'] 2(2-) by (simp add: g' close_window_keeps)
  ultimately show ?case using e by simp
next
  case (3 cs)
  let ?g = "power_governor_note_idle g"
  have "gov_wf ?g" "quiet_distance ?g = quiet_distance g" "gv_have_window ?g" "gv_busy ?g = 0"
    "gv_window_started_ms ?g = gv_window_started_ms g"
    using 3(2-) by (auto simp: power_governor_note_idle_def gov_wf_def quiet_distance_def)
  then show ?case using 3(1) [of ?g p] 3(5) by simp
qed auto

section \<open>Properties of the governor\<close>

text \<open>
  The frequency ranking. With any table of one to eight frequencies, performance runs at the
  largest and cool at the smallest frequency of the table, every level at one of the table, and
  unless the table has exactly two entries a higher level never runs slower than a lower one.
\<close>

theorem freq_for_level_ranked:
  assumes "freqs_wf p"
  shows "freq_for_level POWER_LEVEL_PERFORMANCE p = Max (set (freqs_of p))
    \<and> freq_for_level POWER_LEVEL_COOL p = Min (set (freqs_of p))
    \<and> freq_for_level level p \<in> set (freqs_of p)
    \<and> (pw_num_available_freqs p \<noteq> 2 \<and> l1 \<le> l2 \<and> l2 \<le> POWER_LEVEL_PERFORMANCE \<longrightarrow>
        freq_for_level l1 p \<le> freq_for_level l2 p)"
proof -
  let ?n = "pw_num_available_freqs p"
  obtain fs where fs: "mset fs = mset (freqs_of p)" "length fs = ?n" "sorted_wrt (\<ge>) fs"
    "\<And>level. freq_for_level level p = fs ! freq_index level ?n"
    using freq_for_level_eq [OF assms] by auto
  have n: "0 < ?n" "fs \<noteq> []" using assms fs(2) by (auto simp: freqs_wf_def)
  have set: "set fs = set (freqs_of p)" using fs(1) by (metis set_mset_mset)
  have "fs ! freq_index l1 ?n \<le> fs ! freq_index l2 ?n"
    if "?n \<noteq> 2" "l1 \<le> l2" "l2 \<le> POWER_LEVEL_PERFORMANCE"
    using freq_index_antimono [OF that] freq_index_less [OF n(1), of l1]
      sorted_wrt_nth_less [OF fs(3), of "freq_index l2 ?n" "freq_index l1 ?n"] fs(2)
    by (cases "freq_index l2 ?n = freq_index l1 ?n") auto
  moreover have "fs ! freq_index level ?n \<in> set fs" using freq_index_less [OF n(1), of level] fs(2) by simp
  ultimately show ?thesis using sorted_desc_ends [OF fs(3) n(2)] fs(2) set
    by (simp add: fs(4)) (simp add: freq_index_def)
qed

definition demo_power :: power where
  "demo_power = snd (power_init 160 governor_zero power_zero)"

theorem freq_for_level_ranked_witness:
  "freqs_wf demo_power \<and> freq_for_level POWER_LEVEL_PERFORMANCE demo_power = 160
    \<and> freq_for_level POWER_LEVEL_COOL demo_power = 10
    \<and> freq_for_level POWER_LEVEL_ECONOMY demo_power \<le> freq_for_level POWER_LEVEL_BALANCED demo_power"
proof -
  have wf: "freqs_wf demo_power" and fs: "freqs_of demo_power = [160, 80, 40, 20, 10]" and n: "pw_num_available_freqs demo_power = 5"
    by code_simp+
  have "Max (set [160, 80, 40, 20, 10 :: u32]) = 160" "Min (set [160, 80, 40, 20, 10 :: u32]) = 10" by code_simp+
  then show ?thesis
    using freq_for_level_ranked [OF wf, of 1 1 2] wf unfolding fs n by simp
qed

text \<open>
  A table of two frequencies. The economy level picks the larger frequency of the two and the
  balanced level the smaller one.
\<close>

theorem freq_for_level_two:
  assumes "length (pw_available_freqs p) = 8" and "pw_num_available_freqs p = 2"
  shows "freq_for_level POWER_LEVEL_ECONOMY p = max (pw_available_freqs p ! 0) (pw_available_freqs p ! 1)
    \<and> freq_for_level POWER_LEVEL_BALANCED p = min (pw_available_freqs p ! 0) (pw_available_freqs p ! 1)"
  using assms
  by (auto simp: freq_for_level_def power_get_available_freqs_def opt_buf_def freq_sort_def freq_swap_def
      freq_index_def max_def min_def upt_rec eval_nat_numeral)

theorem freq_for_level_two_witness:
  "freq_for_level POWER_LEVEL_ECONOMY
      (snd (power_set_available_freqs (Some [80, 160]) 2 demo_power)) = 160
    \<and> freq_for_level POWER_LEVEL_BALANCED
      (snd (power_set_available_freqs (Some [80, 160]) 2 demo_power)) = 80"
proof -
  let ?p = "snd (power_set_available_freqs (Some [80, 160]) 2 demo_power)"
  have "length (pw_available_freqs ?p) = 8" "pw_num_available_freqs ?p = 2"
    "pw_available_freqs ?p ! 0 = 80" "pw_available_freqs ?p ! 1 = 160" by code_simp+
  then show ?thesis using freq_for_level_two [of ?p] by simp
qed

text \<open>
  C26: The demand ceiling. From the reset state, after any sequence of governor calls, closing a window
  leaves the level at most the ceiling of the window's demand (economy unless the foreground app
  or a task that ran asked for normal or more), and at cool while the device is overheated; a
  light sleep is recommended only at the two lowest levels, with nothing runnable.
\<close>

theorem governor_level_ceiling:
  "let (g, p) = fold governor_exec cs (power_governor_reset g0, p0);
       (g', p', acts) = close_window nw any recover hot g p
   in gv_level g \<le> POWER_LEVEL_PERFORMANCE
    \<and> gv_level g' \<le> (if gv_thermal g' then POWER_LEVEL_COOL else ceiling_for (effective_demand g))
    \<and> (gv_light_sleep_ms g' = 0 \<or>
        gv_light_sleep_ms g' = nw \<and> \<not> any \<and> gv_level g' \<le> POWER_LEVEL_ECONOMY \<and> nw \<ge> POWER_LIGHT_SLEEP_MIN_MS)"
proof -
  obtain g p where gp: "fold governor_exec cs (power_governor_reset g0, p0) = (g, p)" by fastforce
  obtain g' p' acts where c: "close_window nw any recover hot g p = (g', p', acts)" by (cases "close_window nw any recover hot g p") auto
  have "gov_wf g" using governor_run_wf [of "(power_governor_reset g0, p0)" cs] gp by simp
  moreover have "g' = fst (close_window nw any recover hot g p)" using c by simp
  then have "gv_level g' \<le> (if gv_thermal g' then POWER_LEVEL_COOL else ceiling_for (effective_demand g))
    \<and> (gv_light_sleep_ms g' = 0 \<or>
        gv_light_sleep_ms g' = nw \<and> \<not> any \<and> gv_level g' \<le> POWER_LEVEL_ECONOMY \<and> nw \<ge> POWER_LIGHT_SLEEP_MIN_MS)"
    using choose_level_ceiling [where g = "thermal_rule recover hot g"]
    unfolding close_window_fst Let_def by auto
  ultimately show ?thesis using gp c by (simp add: gov_wf_def)
qed

text \<open>
  Thermal protection. When a window closes with a sensor reading of 70 degrees or more, the level
  drops to cool, and it stays there through any further calls until a window reads 60 degrees or
  less, whatever demand the apps publish.
\<close>

theorem governor_thermal_hold:
  assumes "gv_read_temp g" and "t \<ge> POWER_TEMP_HOT_C" and "\<not> gv_thermal g"
    and "\<forall>c\<in>set cs. still_hot c"
  shows "case close_window nw any recover (Some t) g p of (g', p', acts) \<Rightarrow>
    gv_level g' = POWER_LEVEL_COOL \<and> gv_level (fst (fold governor_exec cs (g', p'))) = POWER_LEVEL_COOL"
proof (cases "close_window nw any recover (Some t) g p")
  case c: (fields g' p' acts)
  have "gv_thermal (thermal_rule recover (Some t) g)" using assms by (simp add: thermal_rule_def sample_temp_def)
  from close_window_cooling [OF this, of nw any p] have "cooling g'" using c by simp
  then show ?thesis using governor_run_cooling [of "(g', p')" cs] assms(4) c by (simp add: cooling_def)
qed

definition hot_governor :: governor where
  "hot_governor = power_governor_set_actuators False False True (power_governor_reset governor_zero)"

theorem governor_thermal_hold_witness:
  "case close_window 0 True None (Some 72) hot_governor demo_power of (g', p', acts) \<Rightarrow>
    gv_level g' = POWER_LEVEL_COOL \<and>
    gv_level (fst (fold governor_exec [Note_Busy (Some 4), Tick 100 0 True (Some 65) (Some 65)] (g', p'))) = POWER_LEVEL_COOL"
  by (rule governor_thermal_hold) (simp_all add: hot_governor_def power_governor_set_actuators_def power_governor_reset_def governor_zero_def)

text \<open>
  Settling. From any state the governor can be in, six closed windows in which nothing ran bring
  the level down to economy or below.
\<close>

theorem governor_quiet_settles:
  assumes "gov_wf g" and "gv_have_window g" and "gv_busy g = 0"
    and "spaced (gv_window_started_ms g) cs" and "windows_closed cs \<ge> 6"
  shows "gv_level (fst (fold governor_exec cs (g, p))) \<le> POWER_LEVEL_ECONOMY"
proof -
  have "quiet_distance g \<le> 6" using assms(1) by (auto simp: quiet_distance_def gov_wf_def)
  then have "quiet_distance (fst (fold governor_exec cs (g, p))) = 0"
    using governor_quiet_run [OF assms(1-4), of p] assms(5) by simp
  moreover have "gov_wf (fst (fold governor_exec cs (g, p)))" using governor_run_wf [of "(g, p)"] assms(1) by simp
  ultimately show ?thesis by (auto simp: quiet_distance_def gov_wf_def word_less_nat_alt split: if_splits)
qed

theorem governor_quiet_settles_witness:
  "gv_level (fst (fold governor_exec (map (\<lambda>i. Tick (of_nat i * 100) 0 False None None) [1..<7])
      ((power_governor_reset governor_zero)\<lparr>gv_level := 3, gv_have_window := True\<rparr>, demo_power))) \<le> POWER_LEVEL_ECONOMY"
  by (rule governor_quiet_settles)
    (simp_all add: gov_wf_def power_governor_reset_def governor_zero_def upt_rec)

end
