(* ===== verification/Scheduler.thy ===== *)
theory Scheduler
  imports Linked_Lists Power_Governor
begin

text \<open>
  The cooperative scheduler of \<^verbatim>\<open>kernel/scheduler.c\<close>. Task control blocks are named by their
  slot number in the array \<open>tasks\<close>; pointers to them are \<open>nat option\<close>. The record \<open>scheduler\<close>
  holds the C variable \<open>g_scheduler\<close>, the pointers \<open>g_main_task\<close> and \<open>g_last_switched_task\<close>, and the
  state of the power governor and power module that the scheduler drives.

  A \<open>jmp_buf\<close> of a task is the point where the task was parked (\<open>resume_point\<close>): a jump to it runs
  the code between that \<open>setjmp\<close> and the return to the task. A scheduler call is therefore a
  function on the scheduler state that ends where the running context next executes its own code;
  that context is \<open>sc_current\<close>.
\<close>

definition MAX_TASKS :: nat where [simp]: "MAX_TASKS = 8"
definition TASK_NAME_LEN :: nat where [simp]: "TASK_NAME_LEN = 16"
definition TASK_PRIO_IDLE :: nat where [simp]: "TASK_PRIO_IDLE = 0"
definition TASK_PRIO_NORMAL :: nat where [simp]: "TASK_PRIO_NORMAL = 2"
definition TASK_PRIO_CRITICAL :: nat where [simp]: "TASK_PRIO_CRITICAL = 4"
definition HOST_STACK_MIN_BYTES :: nat where [simp]: "HOST_STACK_MIN_BYTES = 65536"

datatype task_state =
  TASK_STATE_READY | TASK_STATE_RUNNING | TASK_STATE_BLOCKED | TASK_STATE_SUSPENDED | TASK_STATE_TERMINATED

datatype resume_point = At_Boot | In_Yield | In_Sleep | In_Suspend

record task_tcb =
  tk_id :: u8
  tk_name :: string
  tk_state :: task_state
  tk_priority :: nat
  tk_entry :: "nat option"
  tk_arg :: nat
  tk_stack_base :: "nat option"
  tk_stack_ptr :: nat
  tk_stack_size :: nat
  tk_wake_time :: u32
  tk_sleep_ticks :: u32
  tk_context :: resume_point
  tk_context_valid :: bool
  tk_next :: "nat option"
  tk_prev :: "nat option"
  tk_power_demand :: power_demand

record scheduler =
  sc_tasks :: "nat \<Rightarrow> task_tcb"
  sc_current :: "nat option"
  sc_ready_list :: "nat \<Rightarrow> nat option"
  sc_blocked_list :: "nat option"
  sc_free_list :: "nat option"
  sc_tick_count :: u32
  sc_next_task_id :: u32
  sc_scheduler_started :: bool
  sc_in_isr :: bool
  sc_nesting_level :: u8
  sc_tickless_idle_enabled :: bool
  sc_next_wake_tick :: u32
  sc_idle_tick_count :: u32
  sc_power_mode :: power_mode
  sc_deep_sleep_min_ticks :: u32
  sc_caller_context_valid :: bool
  sc_main_task :: "nat option"
  sc_last_switched :: "nat option"
  sc_governor :: governor
  sc_power :: power

section \<open>Task lists\<close>

definition task_list_add :: "nat option \<Rightarrow> nat \<Rightarrow> (nat \<Rightarrow> task_tcb) \<Rightarrow> nat option \<times> (nat \<Rightarrow> task_tcb)" where
  "task_list_add h t ts =
    (let ts = ts(t := (ts t)\<lparr>tk_next := h, tk_prev := None\<rparr>);
         ts = (case h of Some y \<Rightarrow> ts(y := (ts y)\<lparr>tk_prev := Some t\<rparr>) | None \<Rightarrow> ts)
     in (Some t, ts))"

definition task_list_remove :: "nat option \<Rightarrow> nat \<Rightarrow> (nat \<Rightarrow> task_tcb) \<Rightarrow> nat option \<times> (nat \<Rightarrow> task_tcb)" where
  "task_list_remove h t ts =
    (let (h, ts) = (case tk_prev (ts t) of
           Some p \<Rightarrow> (h, ts(p := (ts p)\<lparr>tk_next := tk_next (ts t)\<rparr>))
         | None \<Rightarrow> (tk_next (ts t), ts));
         ts = (case tk_next (ts t) of Some n \<Rightarrow> ts(n := (ts n)\<lparr>tk_prev := tk_prev (ts t)\<rparr>) | None \<Rightarrow> ts)
     in (h, ts(t := (ts t)\<lparr>tk_next := None, tk_prev := None\<rparr>)))"

definition upd_task :: "nat \<Rightarrow> (task_tcb \<Rightarrow> task_tcb) \<Rightarrow> scheduler \<Rightarrow> scheduler" where
  "upd_task t f s = s\<lparr>sc_tasks := (sc_tasks s)(t := f (sc_tasks s t))\<rparr>"

definition free_add :: "nat \<Rightarrow> scheduler \<Rightarrow> scheduler" where
  "free_add t s = (case task_list_add (sc_free_list s) t (sc_tasks s) of
     (h, ts) \<Rightarrow> s\<lparr>sc_free_list := h, sc_tasks := ts\<rparr>)"

definition free_remove :: "nat \<Rightarrow> scheduler \<Rightarrow> scheduler" where
  "free_remove t s = (case task_list_remove (sc_free_list s) t (sc_tasks s) of
     (h, ts) \<Rightarrow> s\<lparr>sc_free_list := h, sc_tasks := ts\<rparr>)"

definition blocked_add :: "nat \<Rightarrow> scheduler \<Rightarrow> scheduler" where
  "blocked_add t s = (case task_list_add (sc_blocked_list s) t (sc_tasks s) of
     (h, ts) \<Rightarrow> s\<lparr>sc_blocked_list := h, sc_tasks := ts\<rparr>)"

definition blocked_remove :: "nat \<Rightarrow> scheduler \<Rightarrow> scheduler" where
  "blocked_remove t s = (case task_list_remove (sc_blocked_list s) t (sc_tasks s) of
     (h, ts) \<Rightarrow> s\<lparr>sc_blocked_list := h, sc_tasks := ts\<rparr>)"

definition ready_remove :: "nat \<Rightarrow> scheduler \<Rightarrow> scheduler" where
  "ready_remove t s =
    (let p = tk_priority (sc_tasks s t) in
     case task_list_remove (sc_ready_list s p) t (sc_tasks s) of
       (h, ts) \<Rightarrow> s\<lparr>sc_ready_list := (sc_ready_list s)(p := h), sc_tasks := ts\<rparr>)"

definition task_add_to_ready :: "nat \<Rightarrow> scheduler \<Rightarrow> scheduler" where
  "task_add_to_ready t s =
    (let p = tk_priority (sc_tasks s t) in
     case task_list_add (sc_ready_list s p) t (sc_tasks s) of
       (h, ts) \<Rightarrow>
         upd_task t (\<lambda>tcb. tcb\<lparr>tk_state := TASK_STATE_READY\<rparr>)
           (s\<lparr>sc_ready_list := (sc_ready_list s)(p := h), sc_tasks := ts\<rparr>))"

definition task_get_highest_ready :: "scheduler \<Rightarrow> nat option" where
  "task_get_highest_ready s =
    (case List.find (\<lambda>prio. sc_ready_list s prio \<noteq> None) (rev [0..<TASK_PRIO_CRITICAL + 1]) of
       Some prio \<Rightarrow> sc_ready_list s prio
     | None \<Rightarrow> None)"

section \<open>Locking\<close>

definition scheduler_lock :: "scheduler \<Rightarrow> scheduler" where
  "scheduler_lock s = (if \<not> sc_in_isr s then s\<lparr>sc_nesting_level := sc_nesting_level s + 1\<rparr> else s)"

definition scheduler_unlock :: "scheduler \<Rightarrow> scheduler" where
  "scheduler_unlock s =
    (if \<not> sc_in_isr s \<and> sc_nesting_level s > 0 then s\<lparr>sc_nesting_level := sc_nesting_level s - 1\<rparr> else s)"

definition scheduler_enter_isr :: "scheduler \<Rightarrow> scheduler" where
  "scheduler_enter_isr s = s\<lparr>sc_in_isr := True, sc_nesting_level := sc_nesting_level s + 1\<rparr>"

definition scheduler_exit_isr :: "scheduler \<Rightarrow> scheduler" where
  "scheduler_exit_isr s =
    (let s = (if sc_nesting_level s > 0 then s\<lparr>sc_nesting_level := sc_nesting_level s - 1\<rparr> else s)
     in if sc_nesting_level s = 0 then s\<lparr>sc_in_isr := False\<rparr> else s)"

section \<open>Switching\<close>

text \<open>
  The jump to the main context returns from the \<open>scheduler_step\<close> call that saved it. Where no
  such context was saved the call returns to its caller instead, with the same state.
\<close>

definition switch_to_main :: "scheduler \<Rightarrow> scheduler" where
  "switch_to_main s =
    (case sc_main_task s of
       None \<Rightarrow> s
     | Some m \<Rightarrow> upd_task m (\<lambda>tcb. tcb\<lparr>tk_state := TASK_STATE_RUNNING\<rparr>)
                   (s\<lparr>sc_current := Some m, sc_last_switched := None\<rparr>))"

text \<open>What a parked task does between the return of its \<open>setjmp\<close> and its own code.\<close>

definition resume_task :: "nat \<Rightarrow> scheduler \<Rightarrow> scheduler" where
  "resume_task t s =
    (case tk_context (sc_tasks s t) of
       At_Boot \<Rightarrow> s
     | In_Yield \<Rightarrow> scheduler_unlock s
     | In_Sleep \<Rightarrow> upd_task t (\<lambda>tcb. tcb\<lparr>tk_state := TASK_STATE_RUNNING\<rparr>) s
     | In_Suspend \<Rightarrow> scheduler_unlock (upd_task t (\<lambda>tcb. tcb\<lparr>tk_state := TASK_STATE_RUNNING\<rparr>) s))"

definition context_switch :: "nat \<Rightarrow> scheduler \<Rightarrow> scheduler" where
  "context_switch nxt s =
    (if Some nxt = sc_main_task s then switch_to_main s
     else resume_task nxt
       (upd_task nxt (\<lambda>tcb. tcb\<lparr>tk_state := TASK_STATE_RUNNING\<rparr>) ((ready_remove nxt s)\<lparr>sc_current := Some nxt\<rparr>)))"

definition task_demand :: "nat option \<Rightarrow> scheduler \<Rightarrow> power_demand option" where
  "task_demand t s = map_option (\<lambda>t. tk_power_demand (sc_tasks s t)) t"

definition scheduler_step :: "scheduler \<Rightarrow> int \<times> scheduler" where
  "scheduler_step s =
    (if \<not> sc_scheduler_started s then (-1, s)
     else
       case task_get_highest_ready s of
         None \<Rightarrow> (0, s\<lparr>sc_governor := power_governor_note_idle (sc_governor s)\<rparr>)
       | Some nxt \<Rightarrow>
           if tk_priority (sc_tasks s nxt) = TASK_PRIO_IDLE
           then (0, s\<lparr>sc_governor := power_governor_note_idle (sc_governor s)\<rparr>)
           else
             let s = s\<lparr>sc_governor := power_governor_note_busy (task_demand (Some nxt) s) (sc_governor s)\<rparr> in
             if Some nxt = sc_last_switched s then (0, s)
             else (0, context_switch nxt (s\<lparr>sc_caller_context_valid := True\<rparr>)))"

section \<open>Creating and deleting tasks\<close>

definition host_stack_boot :: "nat \<Rightarrow> scheduler \<Rightarrow> scheduler" where
  "host_stack_boot t s = upd_task t (\<lambda>tcb. tcb\<lparr>tk_context := At_Boot, tk_context_valid := True\<rparr>) s"

text \<open>\<open>base\<close> is what \<open>stack_alloc\<close> returns.\<close>

definition task_create ::
    "string \<Rightarrow> nat option \<Rightarrow> nat \<Rightarrow> nat \<Rightarrow> nat \<Rightarrow> nat option \<Rightarrow> scheduler \<Rightarrow> int \<times> nat option \<times> scheduler" where
  "task_create name entry arg priority stack_size base s =
    (case sc_free_list s of
       None \<Rightarrow> (-1, None, s)
     | Some t \<Rightarrow>
         if priority > TASK_PRIO_CRITICAL then (-1, None, s)
         else
           let size = (if stack_size < HOST_STACK_MIN_BYTES then HOST_STACK_MIN_BYTES else stack_size);
               s = upd_task t (\<lambda>tcb. tcb\<lparr>tk_name := strncpy0 (TASK_NAME_LEN - 1) name, tk_entry := entry,
                     tk_arg := arg, tk_priority := priority, tk_state := TASK_STATE_READY, tk_wake_time := 0,
                     tk_sleep_ticks := 0, tk_context_valid := False, tk_stack_size := size,
                     tk_stack_base := base\<rparr>) (free_remove t s)
           in case base of
                None \<Rightarrow> (-1, None, free_add t s)
              | Some b \<Rightarrow>
                  let s = upd_task t (\<lambda>tcb. tcb\<lparr>tk_stack_ptr := (b + size) div 16 * 16\<rparr>) s;
                      s = host_stack_boot t s
                  in if \<not> tk_context_valid (sc_tasks s t)
                     then (-1, None, free_add t (upd_task t (\<lambda>tcb. tcb\<lparr>tk_stack_base := None\<rparr>) s))
                     else (0, Some t, task_add_to_ready t s))"

definition task_delete :: "nat option \<Rightarrow> scheduler \<Rightarrow> int \<times> scheduler" where
  "task_delete task s =
    (case task of
       None \<Rightarrow> (-1, s)
     | Some t \<Rightarrow>
         if task = sc_current s then (-1, s)
         else
           let release = (\<lambda>s. (0, free_add t (upd_task t
                 (\<lambda>tcb. tcb\<lparr>tk_stack_base := None, tk_state := TASK_STATE_TERMINATED\<rparr>) s)))
           in case tk_state (sc_tasks s t) of
                TASK_STATE_READY \<Rightarrow> release (ready_remove t s)
              | TASK_STATE_BLOCKED \<Rightarrow> release (blocked_remove t s)
              | TASK_STATE_SUSPENDED \<Rightarrow> release s
              | TASK_STATE_TERMINATED \<Rightarrow> release s
              | TASK_STATE_RUNNING \<Rightarrow> (-1, s))"

section \<open>Calls of the running task\<close>

definition task_trampoline_exit :: "scheduler \<Rightarrow> scheduler" where
  "task_trampoline_exit s =
    switch_to_main
      (case sc_current s of
         Some t \<Rightarrow> upd_task t (\<lambda>tcb. tcb\<lparr>tk_state := TASK_STATE_TERMINATED\<rparr>) s
       | None \<Rightarrow> s)"

definition task_yield :: "scheduler \<Rightarrow> scheduler" where
  "task_yield s0 =
    (let s = scheduler_lock s0 in
     if sc_current s = sc_main_task s then snd (scheduler_step (scheduler_unlock s))
     else
       case sc_current s of
         None \<Rightarrow> scheduler_unlock s
       | Some t \<Rightarrow>
           if tk_state (sc_tasks s t) \<noteq> TASK_STATE_RUNNING then scheduler_unlock s
           else
             let s = upd_task t (\<lambda>tcb. tcb\<lparr>tk_context := In_Yield, tk_context_valid := True,
                       tk_state := TASK_STATE_READY\<rparr>) s;
                 nxt = (case task_get_highest_ready s of
                          Some n \<Rightarrow> if tk_priority (sc_tasks s n) = TASK_PRIO_IDLE then None else Some n
                        | None \<Rightarrow> None);
                 s = task_add_to_ready t s
             in case nxt of Some n \<Rightarrow> context_switch n s | None \<Rightarrow> switch_to_main s)"

text \<open>
  Sleeping. A task parks itself; the main context instead ticks and steps the scheduler until the
  tick count is reached, and \<open>run\<close> stands for what the tasks do from a step until control is back
  in the main context.
\<close>

definition task_sleep_task :: "nat \<Rightarrow> u32 \<Rightarrow> scheduler \<Rightarrow> scheduler" where
  "task_sleep_task t ticks s =
    (let s = upd_task t (\<lambda>tcb. tcb\<lparr>tk_sleep_ticks := ticks, tk_wake_time := sc_tick_count s + ticks,
               tk_state := TASK_STATE_BLOCKED\<rparr>) s;
         s = blocked_add t s;
         s = upd_task t (\<lambda>tcb. tcb\<lparr>tk_context := In_Sleep, tk_context_valid := True\<rparr>) s
     in switch_to_main s)"

definition task_suspend :: "nat option \<Rightarrow> scheduler \<Rightarrow> scheduler" where
  "task_suspend task s0 =
    (case task of
       None \<Rightarrow> s0
     | Some t \<Rightarrow>
         let s = scheduler_lock s0 in
         if task = sc_current s
         then
           let s = upd_task t (\<lambda>tcb. tcb\<lparr>tk_context := In_Suspend, tk_context_valid := True,
                     tk_state := TASK_STATE_SUSPENDED\<rparr>) s
           in case task_get_highest_ready s of
                Some n \<Rightarrow> if tk_priority (sc_tasks s n) \<noteq> TASK_PRIO_IDLE then context_switch n s else switch_to_main s
              | None \<Rightarrow> switch_to_main s
         else
           case tk_state (sc_tasks s t) of
             TASK_STATE_READY \<Rightarrow>
               scheduler_unlock (upd_task t (\<lambda>tcb. tcb\<lparr>tk_state := TASK_STATE_SUSPENDED\<rparr>) (ready_remove t s))
           | TASK_STATE_BLOCKED \<Rightarrow>
               scheduler_unlock (upd_task t (\<lambda>tcb. tcb\<lparr>tk_wake_time := 0, tk_sleep_ticks := 0,
                 tk_state := TASK_STATE_SUSPENDED\<rparr>) (blocked_remove t s))
           | _ \<Rightarrow> scheduler_unlock s)"

definition task_resume :: "nat option \<Rightarrow> scheduler \<Rightarrow> scheduler" where
  "task_resume task s0 =
    (let s = scheduler_lock s0 in
     case task of
       None \<Rightarrow> scheduler_unlock s
     | Some t \<Rightarrow>
         if tk_state (sc_tasks s t) \<noteq> TASK_STATE_SUSPENDED then scheduler_unlock s
         else scheduler_unlock (task_add_to_ready t (upd_task t (\<lambda>tcb. tcb\<lparr>tk_state := TASK_STATE_READY\<rparr>) s)))"

section \<open>The tick\<close>

partial_function (option) tick_loop :: "nat option \<Rightarrow> scheduler \<Rightarrow> scheduler option" where
  "tick_loop task s =
    (case task of
       None \<Rightarrow> Some s
     | Some t \<Rightarrow>
         let next_task = tk_next (sc_tasks s t) in
         if sc_tick_count s \<ge> tk_wake_time (sc_tasks s t)
         then tick_loop next_task (task_add_to_ready t
                (upd_task t (\<lambda>tcb. tcb\<lparr>tk_state := TASK_STATE_READY\<rparr>) (blocked_remove t s)))
         else tick_loop next_task s)"

partial_function (option) next_wake_loop :: "nat option \<Rightarrow> scheduler \<Rightarrow> scheduler option" where
  "next_wake_loop task s =
    (case task of
       None \<Rightarrow> Some s
     | Some t \<Rightarrow>
         next_wake_loop (tk_next (sc_tasks s t))
           (if tk_wake_time (sc_tasks s t) < sc_next_wake_tick s
            then s\<lparr>sc_next_wake_tick := tk_wake_time (sc_tasks s t)\<rparr> else s))"

definition scheduler_update_next_wake_tick :: "scheduler \<Rightarrow> scheduler option" where
  "scheduler_update_next_wake_tick s = next_wake_loop (sc_blocked_list s) (s\<lparr>sc_next_wake_tick := UINT32_MAX\<rparr>)"

text \<open>\<open>recover\<close> and \<open>hot\<close> are the temperature readings of the governor, as in \<open>close_window\<close>.\<close>

definition tick_governor :: "int option \<Rightarrow> int option \<Rightarrow> scheduler \<Rightarrow> scheduler" where
  "tick_governor recover hot s =
    (let any_runnable = (case task_get_highest_ready s of
           Some t \<Rightarrow> tk_priority (sc_tasks s t) \<noteq> TASK_PRIO_IDLE | None \<Rightarrow> False);
         gap = (if sc_next_wake_tick s \<noteq> UINT32_MAX \<and> sc_next_wake_tick s > sc_tick_count s
                then sc_next_wake_tick s - sc_tick_count s else UINT32_MAX)
     in case power_governor_tick (sc_tick_count s) gap any_runnable recover hot (sc_governor s) (sc_power s) of
          (g, p, _) \<Rightarrow> s\<lparr>sc_governor := g, sc_power := p\<rparr>)"

definition scheduler_tick :: "int option \<Rightarrow> int option \<Rightarrow> scheduler \<Rightarrow> scheduler option" where
  "scheduler_tick recover hot s0 =
    (let s = scheduler_lock s0;
         s = s\<lparr>sc_tick_count := sc_tick_count s + 1\<rparr>
     in case tick_loop (sc_blocked_list s) s of
          None \<Rightarrow> None
        | Some s \<Rightarrow>
            (case scheduler_update_next_wake_tick s of
               None \<Rightarrow> None
             | Some s \<Rightarrow> Some (scheduler_unlock (tick_governor recover hot s))))"

partial_function (option) main_sleep_loop ::
    "(scheduler \<Rightarrow> scheduler option) \<Rightarrow> (u32 \<Rightarrow> int option \<times> int option) \<Rightarrow> u32 \<Rightarrow> scheduler \<Rightarrow> scheduler option" where
  "main_sleep_loop run temps until s =
    (if sc_tick_count s < until
     then
       (case scheduler_tick (fst (temps (sc_tick_count s))) (snd (temps (sc_tick_count s))) s of
          None \<Rightarrow> None
        | Some s1 \<Rightarrow>
            (case run (snd (scheduler_step s1)) of
               None \<Rightarrow> None
             | Some s2 \<Rightarrow> main_sleep_loop run temps until s2))
     else Some s)"

definition task_sleep ::
    "(scheduler \<Rightarrow> scheduler option) \<Rightarrow> (u32 \<Rightarrow> int option \<times> int option) \<Rightarrow> u32 \<Rightarrow> scheduler \<Rightarrow> scheduler option" where
  "task_sleep run temps ticks s =
    (case sc_current s of
       None \<Rightarrow> Some s
     | Some t \<Rightarrow>
         if sc_current s = sc_main_task s then main_sleep_loop run temps (sc_tick_count s + ticks) s
         else Some (task_sleep_task t ticks s))"

section \<open>Tickless idle\<close>

definition scheduler_enable_tickless_idle :: "bool \<Rightarrow> scheduler \<Rightarrow> scheduler" where
  "scheduler_enable_tickless_idle enable s = s\<lparr>sc_tickless_idle_enabled := enable\<rparr>"

definition scheduler_enter_idle :: "scheduler \<Rightarrow> scheduler" where
  "scheduler_enter_idle s =
    (let s = s\<lparr>sc_power_mode := POWER_MODE_IDLE, sc_idle_tick_count := sc_idle_tick_count s + 1\<rparr>;
         next_wake = sc_next_wake_tick s;
         now = sc_tick_count s;
         sleep_ticks = (if next_wake = UINT32_MAX then 0 else next_wake - now)
     in if sleep_ticks > 0
        then s\<lparr>sc_tick_count := sc_tick_count s + sleep_ticks, sc_power_mode := POWER_MODE_ACTIVE\<rparr>
        else task_yield (s\<lparr>sc_power_mode := POWER_MODE_DEEP_SLEEP\<rparr>))"

definition scheduler_exit_idle :: "scheduler \<Rightarrow> scheduler" where
  "scheduler_exit_idle s = s\<lparr>sc_power_mode := POWER_MODE_ACTIVE\<rparr>"

definition scheduler_tickless_idle :: "scheduler \<Rightarrow> scheduler" where
  "scheduler_tickless_idle s =
    (if \<not> sc_tickless_idle_enabled s then s
     else
       let next_wake = sc_next_wake_tick s; now = sc_tick_count s in
       if next_wake = UINT32_MAX then s\<lparr>sc_power_mode := POWER_MODE_DEEP_SLEEP\<rparr>
       else
         let sleep_ticks = next_wake - now in
         if sleep_ticks = 0 then s
         else if sleep_ticks \<ge> sc_deep_sleep_min_ticks s
              then s\<lparr>sc_tick_count := next_wake, sc_power_mode := POWER_MODE_ACTIVE\<rparr>
              else s\<lparr>sc_tick_count := next_wake, sc_power_mode := POWER_MODE_ACTIVE\<rparr>)"

definition scheduler_enter_deep_sleep :: "u32 \<Rightarrow> scheduler \<Rightarrow> int \<times> scheduler" where
  "scheduler_enter_deep_sleep timeout_ticks s =
    (if \<not> sc_tickless_idle_enabled s then (-1, s)
     else
       let s = s\<lparr>sc_power_mode := POWER_MODE_DEEP_SLEEP\<rparr>;
           s = (if timeout_ticks > 0 then s\<lparr>sc_tick_count := sc_tick_count s + timeout_ticks\<rparr> else s)
       in (0, s\<lparr>sc_tickless_idle_enabled := False\<rparr>))"

definition scheduler_set_deep_sleep_min_ticks :: "u32 \<Rightarrow> scheduler \<Rightarrow> scheduler" where
  "scheduler_set_deep_sleep_min_ticks ticks s = s\<lparr>sc_deep_sleep_min_ticks := ticks\<rparr>"

section \<open>Initialisation\<close>

definition tcb_zero :: task_tcb where
  "tcb_zero = \<lparr>tk_id = 0, tk_name = [], tk_state = TASK_STATE_READY, tk_priority = 0, tk_entry = None, tk_arg = 0,
     tk_stack_base = None, tk_stack_ptr = 0, tk_stack_size = 0, tk_wake_time = 0, tk_sleep_ticks = 0,
     tk_context = At_Boot, tk_context_valid = False, tk_next = None, tk_prev = None, tk_power_demand = 0\<rparr>"

definition scheduler_zero :: "scheduler \<Rightarrow> scheduler" where
  "scheduler_zero s = s\<lparr>sc_tasks := \<lambda>_. tcb_zero, sc_current := None, sc_ready_list := \<lambda>_. None,
     sc_blocked_list := None, sc_free_list := None, sc_tick_count := 0, sc_next_task_id := 0,
     sc_scheduler_started := False, sc_in_isr := False, sc_nesting_level := 0, sc_tickless_idle_enabled := False,
     sc_next_wake_tick := 0, sc_idle_tick_count := 0, sc_power_mode := POWER_MODE_ACTIVE,
     sc_deep_sleep_min_ticks := 0, sc_caller_context_valid := False\<rparr>"

text \<open>\<open>idle_entry\<close> is the entry point \<open>idle_task\<close>; \<open>base\<close> is what \<open>stack_alloc\<close> returns for its stack.\<close>

definition scheduler_init :: "nat \<Rightarrow> nat option \<Rightarrow> scheduler \<Rightarrow> int \<times> scheduler" where
  "scheduler_init idle_entry base s0 =
    (let s = fold (\<lambda>i s. free_add i (upd_task i (\<lambda>tcb. tcb\<lparr>tk_id := of_nat i\<rparr>) s)) [0..<MAX_TASKS] (scheduler_zero s0);
         s = s\<lparr>sc_next_task_id := 1, sc_tick_count := 0, sc_scheduler_started := False, sc_in_isr := False,
               sc_nesting_level := 0, sc_tickless_idle_enabled := True, sc_next_wake_tick := UINT32_MAX,
               sc_idle_tick_count := 0, sc_power_mode := POWER_MODE_ACTIVE, sc_deep_sleep_min_ticks := 10000\<rparr>
     in case task_create ''idle'' (Some idle_entry) 0 TASK_PRIO_IDLE HOST_STACK_MIN_BYTES base s of
          (ret, idle, s) \<Rightarrow>
            if ret \<noteq> 0 then (ret, s)
            else
              let s = (case idle of
                         Some t \<Rightarrow> upd_task t (\<lambda>tcb. tcb\<lparr>tk_power_demand :=
                           (case power_set_demand (Some (tk_power_demand tcb)) POWER_DEMAND_IDLE of
                              (_, Some d) \<Rightarrow> d | (_, None) \<Rightarrow> tk_power_demand tcb)\<rparr>) s
                       | None \<Rightarrow> s);
                  s = s\<lparr>sc_governor := power_governor_reset (sc_governor s)\<rparr>
              in case sc_free_list s of
                   None \<Rightarrow> (-1, s)
                 | Some m \<Rightarrow>
                     let s = (free_remove m s)\<lparr>sc_main_task := Some m\<rparr>;
                         s = upd_task m (\<lambda>tcb. tcb\<lparr>tk_name := ''main'', tk_entry := None, tk_arg := 0,
                               tk_priority := TASK_PRIO_NORMAL, tk_state := TASK_STATE_RUNNING, tk_wake_time := 0,
                               tk_sleep_ticks := 0, tk_context_valid := False, tk_stack_size := 0,
                               tk_stack_base := None, tk_stack_ptr := 0\<rparr>) s
                     in (0, s\<lparr>sc_current := Some m\<rparr>))"

definition scheduler_start :: "scheduler \<Rightarrow> int \<times> scheduler" where
  "scheduler_start s =
    (if sc_scheduler_started s then (-1, s)
     else
       let s = s\<lparr>sc_scheduler_started := True\<rparr>;
           s = (case sc_main_task s of
                  Some m \<Rightarrow> upd_task m (\<lambda>tcb. tcb\<lparr>tk_context_valid := True\<rparr>) s | None \<Rightarrow> s)
       in scheduler_step s)"

end
