(* ===== verification/Scheduler_Lists.thy ===== *)
theory Scheduler_Lists
  imports Scheduler
begin

text \<open>
  The task lists of the scheduler as lists of slots, the core of the scheduler invariant, and the
  simulation lemmas: each scheduler call on the linked task control blocks is an operation on
  those lists.
\<close>

section \<open>The task lists as lists of slots\<close>

text \<open>
  The seven lists of the scheduler under one index: the ready list of each priority (0 to 4), the
  blocked list (5) and the free list (6).
\<close>

definition list_head :: "scheduler \<Rightarrow> nat \<Rightarrow> nat option" where
  "list_head s k = (if k < 5 then sc_ready_list s k else if k = 5 then sc_blocked_list s else sc_free_list s)"

definition next_of :: "(nat \<Rightarrow> task_tcb) \<Rightarrow> nat \<Rightarrow> nat option" where "next_of ts i = tk_next (ts i)"
definition prev_of :: "(nat \<Rightarrow> task_tcb) \<Rightarrow> nat \<Rightarrow> nat option" where "prev_of ts i = tk_prev (ts i)"

definition unlinked :: "task_tcb \<Rightarrow> task_tcb" where
  "unlinked tcb = tcb\<lparr>tk_next := None, tk_prev := None\<rparr>"

definition lists_sep :: "(nat \<Rightarrow> nat list) \<Rightarrow> bool" where
  "lists_sep L \<longleftrightarrow> (\<forall>k<7. distinct (L k)) \<and> (\<forall>j<7. \<forall>k<7. j \<noteq> k \<longrightarrow> set (L j) \<inter> set (L k) = {})"

definition links_ok :: "scheduler \<Rightarrow> (nat \<Rightarrow> nat list) \<Rightarrow> bool" where
  "links_ok s L \<longleftrightarrow> lists_sep L \<and>
    (\<forall>k<7. dll (next_of (sc_tasks s)) (prev_of (sc_tasks s)) (list_head s k) None (L k))"

definition listed :: "(nat \<Rightarrow> nat list) \<Rightarrow> nat \<Rightarrow> bool" where
  "listed L t \<longleftrightarrow> (\<exists>k<7. t \<in> set (L k))"

lemma task_list_add_links:
  assumes "task_list_add h t ts = (h', ts')"
  shows "h' = Some t" "next_of ts' = ll_add_next (next_of ts) h t" "prev_of ts' = ll_add_prev (prev_of ts) h t"
    "unlinked (ts' i) = unlinked (ts i)"
proof -
  have h: "h' = fst (task_list_add h t ts)" and ts': "ts' = snd (task_list_add h t ts)" using assms by auto
  show "h' = Some t" "next_of ts' = ll_add_next (next_of ts) h t" "prev_of ts' = ll_add_prev (prev_of ts) h t"
    "unlinked (ts' i) = unlinked (ts i)"
    unfolding h ts' fun_eq_iff
    by (auto simp: task_list_add_def next_of_def prev_of_def ll_add_next_def ll_add_prev_def unlinked_def Let_def
        split: option.splits)
qed

lemma task_list_remove_links:
  assumes "task_list_remove h t ts = (h', ts')"
  shows "h' = ll_remove_head (next_of ts) (prev_of ts) h t" "next_of ts' = ll_remove_next (next_of ts) (prev_of ts) t"
    "prev_of ts' = ll_remove_prev (next_of ts) (prev_of ts) t" "unlinked (ts' i) = unlinked (ts i)"
proof -
  have h: "h' = fst (task_list_remove h t ts)" and ts': "ts' = snd (task_list_remove h t ts)" using assms by auto
  show "h' = ll_remove_head (next_of ts) (prev_of ts) h t" "next_of ts' = ll_remove_next (next_of ts) (prev_of ts) t"
    "prev_of ts' = ll_remove_prev (next_of ts) (prev_of ts) t" "unlinked (ts' i) = unlinked (ts i)"
    unfolding h ts' fun_eq_iff
    by (auto simp: task_list_remove_def next_of_def prev_of_def ll_remove_next_def ll_remove_prev_def
        ll_remove_head_def unlinked_def Let_def split: option.splits)
qed

lemma lists_sep_add:
  assumes "lists_sep L" "k < 7" "\<not> listed L t"
  shows "lists_sep (L(k := t # L k))"
  using assms by (auto simp: lists_sep_def listed_def)

lemma lists_sep_remove:
  assumes "lists_sep L" "k < 7"
  shows "lists_sep (L(k := remove1 t (L k)))"
  using assms by (fastforce simp: lists_sep_def dest: notin_set_remove1)

lemma links_add:
  assumes ok: "links_ok s L" and k: "k < 7" and t: "\<not> listed L t"
    and add: "task_list_add (list_head s k) t (sc_tasks s) = (h, ts)"
    and s': "sc_tasks s' = ts" "list_head s' k = h" "\<And>j. j < 7 \<Longrightarrow> j \<noteq> k \<Longrightarrow> list_head s' j = list_head s j"
  shows "links_ok s' (L(k := t # L k))"
proof -
  note links = task_list_add_links [OF add]
  have sep: "lists_sep L" and d: "\<And>j. j < 7 \<Longrightarrow> dll (next_of (sc_tasks s)) (prev_of (sc_tasks s)) (list_head s j) None (L j)"
    using ok by (auto simp: links_ok_def)
  have nt: "j < 7 \<Longrightarrow> t \<notin> set (L j)" for j using t by (auto simp: listed_def)
  have "dll (next_of ts) (prev_of ts) (list_head s' j) None ((L(k := t # L k)) j)" if j: "j < 7" for j
  proof (cases "j = k")
    case True
    then show ?thesis using dll_add [OF d [OF k] nt [OF k]] sep k links s' by (simp add: lists_sep_def)
  next
    case False
    then have "set (L k) \<inter> set (L j) = {}" using sep j k by (metis lists_sep_def)
    then show ?thesis using dll_add_other [OF d [OF j] d [OF k] nt [OF j]] False links s' j by simp
  qed
  then show ?thesis using lists_sep_add [OF sep k t] s' by (simp add: links_ok_def)
qed

lemma links_remove:
  assumes ok: "links_ok s L" and k: "k < 7" and t: "t \<in> set (L k)"
    and rm: "task_list_remove (list_head s k) t (sc_tasks s) = (h, ts)"
    and s': "sc_tasks s' = ts" "list_head s' k = h" "\<And>j. j < 7 \<Longrightarrow> j \<noteq> k \<Longrightarrow> list_head s' j = list_head s j"
  shows "links_ok s' (L(k := remove1 t (L k)))"
proof -
  note links = task_list_remove_links [OF rm]
  have sep: "lists_sep L" and d: "\<And>j. j < 7 \<Longrightarrow> dll (next_of (sc_tasks s)) (prev_of (sc_tasks s)) (list_head s j) None (L j)"
    using ok by (auto simp: links_ok_def)
  have "dll (next_of ts) (prev_of ts) (list_head s' j) None ((L(k := remove1 t (L k))) j)" if j: "j < 7" for j
  proof (cases "j = k")
    case True
    then show ?thesis using dll_remove [OF d [OF k] _ t] sep k links s' by (simp add: lists_sep_def)
  next
    case False
    then have "set (L k) \<inter> set (L j) = {}" using sep j k by (metis lists_sep_def)
    then show ?thesis using dll_remove_other [OF d [OF j] d [OF k] t] False links s' j by simp
  qed
  then show ?thesis using lists_sep_remove [OF sep k] s' by (simp add: links_ok_def)
qed

text \<open>The list operations on the scheduler state: their effect on the lists and their frame.\<close>

lemma free_add_links: "links_ok s L \<Longrightarrow> \<not> listed L t \<Longrightarrow> links_ok (free_add t s) (L(6 := t # L 6))"
  by (cases "task_list_add (sc_free_list s) t (sc_tasks s)")
    (rule links_add [of s L 6 t], auto simp: free_add_def list_head_def)

lemma blocked_add_links: "links_ok s L \<Longrightarrow> \<not> listed L t \<Longrightarrow> links_ok (blocked_add t s) (L(5 := t # L 5))"
  by (cases "task_list_add (sc_blocked_list s) t (sc_tasks s)")
    (rule links_add [of s L 5 t], auto simp: blocked_add_def list_head_def)

lemma free_remove_links: "links_ok s L \<Longrightarrow> t \<in> set (L 6) \<Longrightarrow> links_ok (free_remove t s) (L(6 := remove1 t (L 6)))"
  by (cases "task_list_remove (sc_free_list s) t (sc_tasks s)")
    (rule links_remove [of s L 6 t], auto simp: free_remove_def list_head_def)

lemma blocked_remove_links: "links_ok s L \<Longrightarrow> t \<in> set (L 5) \<Longrightarrow> links_ok (blocked_remove t s) (L(5 := remove1 t (L 5)))"
  by (cases "task_list_remove (sc_blocked_list s) t (sc_tasks s)")
    (rule links_remove [of s L 5 t], auto simp: blocked_remove_def list_head_def)

lemma links_ok_cong:
  assumes "links_ok s L" "next_of (sc_tasks s') = next_of (sc_tasks s)" "prev_of (sc_tasks s') = prev_of (sc_tasks s)"
    "sc_ready_list s' = sc_ready_list s" "sc_blocked_list s' = sc_blocked_list s" "sc_free_list s' = sc_free_list s"
  shows "links_ok s' L"
proof -
  have "list_head s' = list_head s" using assms by (simp add: fun_eq_iff list_head_def)
  then show ?thesis using assms by (simp add: links_ok_def)
qed

lemma links_ok_upd_task:
  assumes "\<And>tcb. tk_next (f tcb) = tk_next tcb" "\<And>tcb. tk_prev (f tcb) = tk_prev tcb"
  shows "links_ok (upd_task t f s) L = links_ok s L"
proof -
  have "next_of (sc_tasks (upd_task t f s)) = next_of (sc_tasks s)" "prev_of (sc_tasks (upd_task t f s)) = prev_of (sc_tasks s)"
    using assms by (auto simp: upd_task_def next_of_def prev_of_def fun_eq_iff)
  moreover have "list_head (upd_task t f s) = list_head s" by (simp add: fun_eq_iff list_head_def upd_task_def)
  ultimately show ?thesis by (simp add: links_ok_def)
qed

lemma task_add_to_ready_links:
  assumes "links_ok s L" "\<not> listed L t" "tk_priority (sc_tasks s t) = p" "p < 5"
  shows "links_ok (task_add_to_ready t s) (L(p := t # L p))"
  unfolding task_add_to_ready_def Let_def assms(3)
  by (cases "task_list_add (sc_ready_list s p) t (sc_tasks s)", simp add: links_ok_upd_task)
    (rule links_add [of s L p t], use assms in \<open>auto simp: list_head_def\<close>)

lemma ready_remove_links:
  assumes "links_ok s L" "t \<in> set (L p)" "tk_priority (sc_tasks s t) = p" "p < 5"
  shows "links_ok (ready_remove t s) (L(p := remove1 t (L p)))"
  unfolding ready_remove_def Let_def assms(3)
  by (cases "task_list_remove (sc_ready_list s p) t (sc_tasks s)", simp)
    (rule links_remove [of s L p t], use assms in \<open>auto simp: list_head_def\<close>)

text \<open>What the list operations leave alone.\<close>

lemma unlinked_fields:
  assumes "unlinked a = unlinked b"
  shows "tk_state a = tk_state b" "tk_priority a = tk_priority b" "tk_wake_time a = tk_wake_time b" "tk_context a = tk_context b" "tk_context_valid a = tk_context_valid b" "tk_power_demand a = tk_power_demand b" "tk_stack_base a = tk_stack_base b"
  using assms by (cases a; cases b; simp add: unlinked_def)+

lemma free_add_frame [simp]:
  "sc_current (free_add t s) = sc_current s"
  "sc_main_task (free_add t s) = sc_main_task s"
  "sc_last_switched (free_add t s) = sc_last_switched s"
  "sc_caller_context_valid (free_add t s) = sc_caller_context_valid s"
  "sc_tick_count (free_add t s) = sc_tick_count s"
  "sc_in_isr (free_add t s) = sc_in_isr s"
  "sc_nesting_level (free_add t s) = sc_nesting_level s"
  "sc_scheduler_started (free_add t s) = sc_scheduler_started s"
  "sc_governor (free_add t s) = sc_governor s"
  "sc_power (free_add t s) = sc_power s"
  "sc_next_wake_tick (free_add t s) = sc_next_wake_tick s"
  "sc_tickless_idle_enabled (free_add t s) = sc_tickless_idle_enabled s"
  "sc_power_mode (free_add t s) = sc_power_mode s"
  by (simp_all add: free_add_def upd_task_def Let_def split: prod.split)

lemma free_remove_frame [simp]:
  "sc_current (free_remove t s) = sc_current s"
  "sc_main_task (free_remove t s) = sc_main_task s"
  "sc_last_switched (free_remove t s) = sc_last_switched s"
  "sc_caller_context_valid (free_remove t s) = sc_caller_context_valid s"
  "sc_tick_count (free_remove t s) = sc_tick_count s"
  "sc_in_isr (free_remove t s) = sc_in_isr s"
  "sc_nesting_level (free_remove t s) = sc_nesting_level s"
  "sc_scheduler_started (free_remove t s) = sc_scheduler_started s"
  "sc_governor (free_remove t s) = sc_governor s"
  "sc_power (free_remove t s) = sc_power s"
  "sc_next_wake_tick (free_remove t s) = sc_next_wake_tick s"
  "sc_tickless_idle_enabled (free_remove t s) = sc_tickless_idle_enabled s"
  "sc_power_mode (free_remove t s) = sc_power_mode s"
  by (simp_all add: free_remove_def upd_task_def Let_def split: prod.split)

lemma blocked_add_frame [simp]:
  "sc_current (blocked_add t s) = sc_current s"
  "sc_main_task (blocked_add t s) = sc_main_task s"
  "sc_last_switched (blocked_add t s) = sc_last_switched s"
  "sc_caller_context_valid (blocked_add t s) = sc_caller_context_valid s"
  "sc_tick_count (blocked_add t s) = sc_tick_count s"
  "sc_in_isr (blocked_add t s) = sc_in_isr s"
  "sc_nesting_level (blocked_add t s) = sc_nesting_level s"
  "sc_scheduler_started (blocked_add t s) = sc_scheduler_started s"
  "sc_governor (blocked_add t s) = sc_governor s"
  "sc_power (blocked_add t s) = sc_power s"
  "sc_next_wake_tick (blocked_add t s) = sc_next_wake_tick s"
  "sc_tickless_idle_enabled (blocked_add t s) = sc_tickless_idle_enabled s"
  "sc_power_mode (blocked_add t s) = sc_power_mode s"
  by (simp_all add: blocked_add_def upd_task_def Let_def split: prod.split)

lemma blocked_remove_frame [simp]:
  "sc_current (blocked_remove t s) = sc_current s"
  "sc_main_task (blocked_remove t s) = sc_main_task s"
  "sc_last_switched (blocked_remove t s) = sc_last_switched s"
  "sc_caller_context_valid (blocked_remove t s) = sc_caller_context_valid s"
  "sc_tick_count (blocked_remove t s) = sc_tick_count s"
  "sc_in_isr (blocked_remove t s) = sc_in_isr s"
  "sc_nesting_level (blocked_remove t s) = sc_nesting_level s"
  "sc_scheduler_started (blocked_remove t s) = sc_scheduler_started s"
  "sc_governor (blocked_remove t s) = sc_governor s"
  "sc_power (blocked_remove t s) = sc_power s"
  "sc_next_wake_tick (blocked_remove t s) = sc_next_wake_tick s"
  "sc_tickless_idle_enabled (blocked_remove t s) = sc_tickless_idle_enabled s"
  "sc_power_mode (blocked_remove t s) = sc_power_mode s"
  by (simp_all add: blocked_remove_def upd_task_def Let_def split: prod.split)

lemma ready_remove_frame [simp]:
  "sc_current (ready_remove t s) = sc_current s"
  "sc_main_task (ready_remove t s) = sc_main_task s"
  "sc_last_switched (ready_remove t s) = sc_last_switched s"
  "sc_caller_context_valid (ready_remove t s) = sc_caller_context_valid s"
  "sc_tick_count (ready_remove t s) = sc_tick_count s"
  "sc_in_isr (ready_remove t s) = sc_in_isr s"
  "sc_nesting_level (ready_remove t s) = sc_nesting_level s"
  "sc_scheduler_started (ready_remove t s) = sc_scheduler_started s"
  "sc_governor (ready_remove t s) = sc_governor s"
  "sc_power (ready_remove t s) = sc_power s"
  "sc_next_wake_tick (ready_remove t s) = sc_next_wake_tick s"
  "sc_tickless_idle_enabled (ready_remove t s) = sc_tickless_idle_enabled s"
  "sc_power_mode (ready_remove t s) = sc_power_mode s"
  by (simp_all add: ready_remove_def upd_task_def Let_def split: prod.split)

lemma task_add_to_ready_frame [simp]:
  "sc_current (task_add_to_ready t s) = sc_current s"
  "sc_main_task (task_add_to_ready t s) = sc_main_task s"
  "sc_last_switched (task_add_to_ready t s) = sc_last_switched s"
  "sc_caller_context_valid (task_add_to_ready t s) = sc_caller_context_valid s"
  "sc_tick_count (task_add_to_ready t s) = sc_tick_count s"
  "sc_in_isr (task_add_to_ready t s) = sc_in_isr s"
  "sc_nesting_level (task_add_to_ready t s) = sc_nesting_level s"
  "sc_scheduler_started (task_add_to_ready t s) = sc_scheduler_started s"
  "sc_governor (task_add_to_ready t s) = sc_governor s"
  "sc_power (task_add_to_ready t s) = sc_power s"
  "sc_next_wake_tick (task_add_to_ready t s) = sc_next_wake_tick s"
  "sc_tickless_idle_enabled (task_add_to_ready t s) = sc_tickless_idle_enabled s"
  "sc_power_mode (task_add_to_ready t s) = sc_power_mode s"
  by (simp_all add: task_add_to_ready_def upd_task_def Let_def split: prod.split)

lemma free_add_tcb [simp]:
  "tk_state (sc_tasks (free_add t s) i) = tk_state (sc_tasks s i)"
  "tk_priority (sc_tasks (free_add t s) i) = tk_priority (sc_tasks s i)"
  "tk_wake_time (sc_tasks (free_add t s) i) = tk_wake_time (sc_tasks s i)"
  "tk_context (sc_tasks (free_add t s) i) = tk_context (sc_tasks s i)"
  "tk_context_valid (sc_tasks (free_add t s) i) = tk_context_valid (sc_tasks s i)"
  "tk_power_demand (sc_tasks (free_add t s) i) = tk_power_demand (sc_tasks s i)"
  "tk_stack_base (sc_tasks (free_add t s) i) = tk_stack_base (sc_tasks s i)"
  by (simp_all add: free_add_def Let_def unlinked_fields [OF task_list_add_links(4)] split: prod.split)

lemma free_remove_tcb [simp]:
  "tk_state (sc_tasks (free_remove t s) i) = tk_state (sc_tasks s i)"
  "tk_priority (sc_tasks (free_remove t s) i) = tk_priority (sc_tasks s i)"
  "tk_wake_time (sc_tasks (free_remove t s) i) = tk_wake_time (sc_tasks s i)"
  "tk_context (sc_tasks (free_remove t s) i) = tk_context (sc_tasks s i)"
  "tk_context_valid (sc_tasks (free_remove t s) i) = tk_context_valid (sc_tasks s i)"
  "tk_power_demand (sc_tasks (free_remove t s) i) = tk_power_demand (sc_tasks s i)"
  "tk_stack_base (sc_tasks (free_remove t s) i) = tk_stack_base (sc_tasks s i)"
  by (simp_all add: free_remove_def Let_def unlinked_fields [OF task_list_remove_links(4)] split: prod.split)

lemma blocked_add_tcb [simp]:
  "tk_state (sc_tasks (blocked_add t s) i) = tk_state (sc_tasks s i)"
  "tk_priority (sc_tasks (blocked_add t s) i) = tk_priority (sc_tasks s i)"
  "tk_wake_time (sc_tasks (blocked_add t s) i) = tk_wake_time (sc_tasks s i)"
  "tk_context (sc_tasks (blocked_add t s) i) = tk_context (sc_tasks s i)"
  "tk_context_valid (sc_tasks (blocked_add t s) i) = tk_context_valid (sc_tasks s i)"
  "tk_power_demand (sc_tasks (blocked_add t s) i) = tk_power_demand (sc_tasks s i)"
  "tk_stack_base (sc_tasks (blocked_add t s) i) = tk_stack_base (sc_tasks s i)"
  by (simp_all add: blocked_add_def Let_def unlinked_fields [OF task_list_add_links(4)] split: prod.split)

lemma blocked_remove_tcb [simp]:
  "tk_state (sc_tasks (blocked_remove t s) i) = tk_state (sc_tasks s i)"
  "tk_priority (sc_tasks (blocked_remove t s) i) = tk_priority (sc_tasks s i)"
  "tk_wake_time (sc_tasks (blocked_remove t s) i) = tk_wake_time (sc_tasks s i)"
  "tk_context (sc_tasks (blocked_remove t s) i) = tk_context (sc_tasks s i)"
  "tk_context_valid (sc_tasks (blocked_remove t s) i) = tk_context_valid (sc_tasks s i)"
  "tk_power_demand (sc_tasks (blocked_remove t s) i) = tk_power_demand (sc_tasks s i)"
  "tk_stack_base (sc_tasks (blocked_remove t s) i) = tk_stack_base (sc_tasks s i)"
  by (simp_all add: blocked_remove_def Let_def unlinked_fields [OF task_list_remove_links(4)] split: prod.split)

lemma ready_remove_tcb [simp]:
  "tk_state (sc_tasks (ready_remove t s) i) = tk_state (sc_tasks s i)"
  "tk_priority (sc_tasks (ready_remove t s) i) = tk_priority (sc_tasks s i)"
  "tk_wake_time (sc_tasks (ready_remove t s) i) = tk_wake_time (sc_tasks s i)"
  "tk_context (sc_tasks (ready_remove t s) i) = tk_context (sc_tasks s i)"
  "tk_context_valid (sc_tasks (ready_remove t s) i) = tk_context_valid (sc_tasks s i)"
  "tk_power_demand (sc_tasks (ready_remove t s) i) = tk_power_demand (sc_tasks s i)"
  "tk_stack_base (sc_tasks (ready_remove t s) i) = tk_stack_base (sc_tasks s i)"
  by (simp_all add: ready_remove_def Let_def unlinked_fields [OF task_list_remove_links(4)] split: prod.split)

lemma task_add_to_ready_tcb [simp]:
  "tk_state (sc_tasks (task_add_to_ready t s) i) = (if i = t then TASK_STATE_READY else tk_state (sc_tasks s i))"
  "tk_priority (sc_tasks (task_add_to_ready t s) i) = tk_priority (sc_tasks s i)"
  "tk_wake_time (sc_tasks (task_add_to_ready t s) i) = tk_wake_time (sc_tasks s i)"
  "tk_context (sc_tasks (task_add_to_ready t s) i) = tk_context (sc_tasks s i)"
  "tk_context_valid (sc_tasks (task_add_to_ready t s) i) = tk_context_valid (sc_tasks s i)"
  "tk_power_demand (sc_tasks (task_add_to_ready t s) i) = tk_power_demand (sc_tasks s i)"
  "tk_stack_base (sc_tasks (task_add_to_ready t s) i) = tk_stack_base (sc_tasks s i)"
  by (simp_all add: task_add_to_ready_def upd_task_def Let_def unlinked_fields [OF task_list_add_links(4)] split: prod.split)

lemma upd_task_frame [simp]:
  "sc_current (upd_task t f s) = sc_current s"
  "sc_main_task (upd_task t f s) = sc_main_task s"
  "sc_last_switched (upd_task t f s) = sc_last_switched s"
  "sc_caller_context_valid (upd_task t f s) = sc_caller_context_valid s"
  "sc_tick_count (upd_task t f s) = sc_tick_count s"
  "sc_in_isr (upd_task t f s) = sc_in_isr s"
  "sc_nesting_level (upd_task t f s) = sc_nesting_level s"
  "sc_scheduler_started (upd_task t f s) = sc_scheduler_started s"
  "sc_governor (upd_task t f s) = sc_governor s"
  "sc_power (upd_task t f s) = sc_power s"
  "sc_next_wake_tick (upd_task t f s) = sc_next_wake_tick s"
  "sc_tickless_idle_enabled (upd_task t f s) = sc_tickless_idle_enabled s"
  "sc_power_mode (upd_task t f s) = sc_power_mode s"
  "sc_ready_list (upd_task t f s) = sc_ready_list s"
  "sc_blocked_list (upd_task t f s) = sc_blocked_list s"
  "sc_free_list (upd_task t f s) = sc_free_list s"
  by (simp_all add: upd_task_def)

lemma upd_task_tcb [simp]: "sc_tasks (upd_task t f s) i = (if i = t then f (sc_tasks s t) else sc_tasks s i)"
  by (simp add: upd_task_def)

lemma scheduler_lock_frame [simp]:
  "sc_tasks (scheduler_lock s) = sc_tasks s"
  "sc_current (scheduler_lock s) = sc_current s"
  "sc_main_task (scheduler_lock s) = sc_main_task s"
  "sc_last_switched (scheduler_lock s) = sc_last_switched s"
  "sc_caller_context_valid (scheduler_lock s) = sc_caller_context_valid s"
  "sc_tick_count (scheduler_lock s) = sc_tick_count s"
  "sc_in_isr (scheduler_lock s) = sc_in_isr s"
  "sc_scheduler_started (scheduler_lock s) = sc_scheduler_started s"
  "sc_governor (scheduler_lock s) = sc_governor s"
  "sc_power (scheduler_lock s) = sc_power s"
  "sc_next_wake_tick (scheduler_lock s) = sc_next_wake_tick s"
  "sc_tickless_idle_enabled (scheduler_lock s) = sc_tickless_idle_enabled s"
  "sc_power_mode (scheduler_lock s) = sc_power_mode s"
  "sc_ready_list (scheduler_lock s) = sc_ready_list s"
  "sc_blocked_list (scheduler_lock s) = sc_blocked_list s"
  "sc_free_list (scheduler_lock s) = sc_free_list s"
  by (simp_all add: scheduler_lock_def)

lemma scheduler_unlock_frame [simp]:
  "sc_tasks (scheduler_unlock s) = sc_tasks s"
  "sc_current (scheduler_unlock s) = sc_current s"
  "sc_main_task (scheduler_unlock s) = sc_main_task s"
  "sc_last_switched (scheduler_unlock s) = sc_last_switched s"
  "sc_caller_context_valid (scheduler_unlock s) = sc_caller_context_valid s"
  "sc_tick_count (scheduler_unlock s) = sc_tick_count s"
  "sc_in_isr (scheduler_unlock s) = sc_in_isr s"
  "sc_scheduler_started (scheduler_unlock s) = sc_scheduler_started s"
  "sc_governor (scheduler_unlock s) = sc_governor s"
  "sc_power (scheduler_unlock s) = sc_power s"
  "sc_next_wake_tick (scheduler_unlock s) = sc_next_wake_tick s"
  "sc_tickless_idle_enabled (scheduler_unlock s) = sc_tickless_idle_enabled s"
  "sc_power_mode (scheduler_unlock s) = sc_power_mode s"
  "sc_ready_list (scheduler_unlock s) = sc_ready_list s"
  "sc_blocked_list (scheduler_unlock s) = sc_blocked_list s"
  "sc_free_list (scheduler_unlock s) = sc_free_list s"
  by (simp_all add: scheduler_unlock_def)

lemma links_ok_ctx [simp]:
  "links_ok (s\<lparr>sc_current := a\<rparr>) L = links_ok s L"
  "links_ok (s\<lparr>sc_last_switched := a\<rparr>) L = links_ok s L"
  "links_ok (s\<lparr>sc_caller_context_valid := b\<rparr>) L = links_ok s L"
  "links_ok (s\<lparr>sc_governor := g\<rparr>) L = links_ok s L"
  "links_ok (s\<lparr>sc_power := pw\<rparr>) L = links_ok s L"
  "links_ok (s\<lparr>sc_tick_count := n\<rparr>) L = links_ok s L"
  "links_ok (s\<lparr>sc_next_wake_tick := n\<rparr>) L = links_ok s L"
  "links_ok (s\<lparr>sc_power_mode := md\<rparr>) L = links_ok s L"
  "links_ok (s\<lparr>sc_tickless_idle_enabled := b\<rparr>) L = links_ok s L"
  "links_ok (s\<lparr>sc_idle_tick_count := n\<rparr>) L = links_ok s L"
  "links_ok (s\<lparr>sc_deep_sleep_min_ticks := n\<rparr>) L = links_ok s L"
  "links_ok (s\<lparr>sc_nesting_level := w\<rparr>) L = links_ok s L"
  "links_ok (s\<lparr>sc_in_isr := b\<rparr>) L = links_ok s L"
  "links_ok (s\<lparr>sc_scheduler_started := b\<rparr>) L = links_ok s L"
  "links_ok (s\<lparr>sc_main_task := a\<rparr>) L = links_ok s L"
  "links_ok (scheduler_lock s) L = links_ok s L"
  "links_ok (scheduler_unlock s) L = links_ok s L"
  by (auto elim!: links_ok_cong)

lemma listedI: "k < 7 \<Longrightarrow> t \<in> set (L k) \<Longrightarrow> listed L t"
  by (auto simp: listed_def)

lemma listed_add [simp]: "k < 7 \<Longrightarrow> listed (L(k := t # L k)) i \<longleftrightarrow> i = t \<or> listed L i"
  by (auto simp: listed_def)

lemma listed_remove: "lists_sep L \<Longrightarrow> k < 7 \<Longrightarrow> t \<in> set (L k) \<Longrightarrow>
    listed (L(k := remove1 t (L k))) i \<longleftrightarrow> i \<noteq> t \<and> listed L i"
  unfolding listed_def lists_sep_def
  by (auto dest: notin_set_remove1)

section \<open>The scheduler invariant\<close>

text \<open>
  \<open>sched_core s L m E\<close>: the lists of \<open>s\<close> are \<open>L\<close>, the main task is \<open>m\<close>, listed tasks are in the
  state and priority of their list, and every other task outside \<open>E\<close> is suspended or terminated.
\<close>

definition sched_core :: "scheduler \<Rightarrow> (nat \<Rightarrow> nat list) \<Rightarrow> nat \<Rightarrow> nat set \<Rightarrow> bool" where
  "sched_core s L m E \<longleftrightarrow> links_ok s L \<and> sc_main_task s = Some m \<and> m < 8 \<and> \<not> listed L m \<and>
    tk_state (sc_tasks s m) = TASK_STATE_RUNNING \<and> sc_last_switched s = None \<and>
    (\<forall>t. tk_priority (sc_tasks s t) < 5) \<and> (\<forall>t. listed L t \<longrightarrow> t < 8) \<and>
    (\<forall>p<5. \<forall>t\<in>set (L p). tk_priority (sc_tasks s t) = p \<and> tk_state (sc_tasks s t) = TASK_STATE_READY) \<and>
    (\<forall>t\<in>set (L 5). tk_state (sc_tasks s t) = TASK_STATE_BLOCKED) \<and>
    (\<forall>t<8. \<not> listed L t \<and> t \<noteq> m \<and> t \<notin> E \<longrightarrow>
       tk_state (sc_tasks s t) = TASK_STATE_SUSPENDED \<or> tk_state (sc_tasks s t) = TASK_STATE_TERMINATED)"

definition sched_rel :: "scheduler \<Rightarrow> (nat \<Rightarrow> nat list) \<Rightarrow> nat \<Rightarrow> nat \<Rightarrow> bool" where
  "sched_rel s L m c \<longleftrightarrow> sched_core s L m {c} \<and> sc_current s = Some c \<and> c < 8 \<and> \<not> listed L c \<and>
    tk_state (sc_tasks s c) = TASK_STATE_RUNNING \<and> (c \<noteq> m \<longrightarrow> sc_caller_context_valid s)"

lemma sched_core_sep: "sched_core s L m E \<Longrightarrow> lists_sep L"
  by (simp add: sched_core_def links_ok_def)

text \<open>The highest nonempty ready list above idle.\<close>

definition top_prio :: "(nat \<Rightarrow> nat list) \<Rightarrow> nat option" where
  "top_prio L = List.find (\<lambda>p. L p \<noteq> []) [4, 3, 2, 1]"

lemma topD: "top_prio L = Some p \<Longrightarrow> p < 5 \<and> 0 < p \<and> L p \<noteq> [] \<and> (\<forall>q. p < q \<and> q < 5 \<longrightarrow> L q = [])"
  by (auto simp: top_prio_def less_Suc_eq numeral_eq_Suc split: if_splits)

lemma topN: "top_prio L = None \<Longrightarrow> 0 < p \<Longrightarrow> p < 5 \<Longrightarrow> L p = []"
  by (auto simp: top_prio_def less_Suc_eq numeral_eq_Suc split: if_splits)

lemma list_heads: "links_ok s L \<Longrightarrow> p < 5 \<Longrightarrow> sc_ready_list s p = first (L p)"
  unfolding links_ok_def by (elim conjE allE [of _ p]) (auto simp: list_head_def dest: dll_first)

lemma blocked_head: "links_ok s L \<Longrightarrow> sc_blocked_list s = first (L 5)"
  unfolding links_ok_def by (elim conjE allE [of _ 5]) (auto simp: list_head_def dest: dll_first)

lemma free_head: "links_ok s L \<Longrightarrow> sc_free_list s = first (L 6)"
  unfolding links_ok_def by (elim conjE allE [of _ 6]) (auto simp: list_head_def dest: dll_first)

lemma first_None [simp]: "first xs = None \<longleftrightarrow> xs = []"
  by (cases xs) auto

lemma highest_ready:
  assumes "links_ok s L"
  shows "task_get_highest_ready s =
    (case top_prio L of Some p \<Rightarrow> first (L p) | None \<Rightarrow> first (L 0))"
proof -
  have "sc_ready_list s p \<noteq> None \<longleftrightarrow> L p \<noteq> []" if "p < 5" for p using list_heads [OF assms that] by simp
  moreover have "rev [0..<TASK_PRIO_CRITICAL + 1] = [4, 3, 2, 1, 0]" by (simp add: upt_rec)
  ultimately show ?thesis using list_heads [OF assms]
    by (auto simp: task_get_highest_ready_def top_prio_def)
qed

subsection \<open>Building blocks\<close>

lemma core_upd:
  assumes "sched_core s L m E" "\<not> listed L t" "t \<noteq> m"
    "\<And>tcb. tk_next (f tcb) = tk_next tcb" "\<And>tcb. tk_prev (f tcb) = tk_prev tcb" "tk_priority (f (sc_tasks s t)) < 5"
  shows "sched_core (upd_task t f s) L m (insert t E)"
  using assms by (auto simp: sched_core_def links_ok_upd_task listed_def)

lemma core_upd_self:
  assumes "sched_core s L m E" "t \<in> E" "\<not> listed L t" "t \<noteq> m" "\<And>tcb. tk_next (f tcb) = tk_next tcb"
    "\<And>tcb. tk_prev (f tcb) = tk_prev tcb" "\<And>tcb. tk_priority (f tcb) = tk_priority tcb"
  shows "sched_core (upd_task t f s) L m E"
  using core_upd [of s L m E t f] assms by (auto simp: insert_absorb sched_core_def)

lemma core_upd_keep:
  assumes "sched_core s L m E" "\<And>tcb. tk_next (f tcb) = tk_next tcb" "\<And>tcb. tk_prev (f tcb) = tk_prev tcb"
    "\<And>tcb. tk_priority (f tcb) = tk_priority tcb" "\<And>tcb. tk_state (f tcb) = tk_state tcb"
  shows "sched_core (upd_task t f s) L m E"
proof -
  have "tk_state (sc_tasks (upd_task t f s) i) = tk_state (sc_tasks s i)"
    "tk_priority (sc_tasks (upd_task t f s) i) = tk_priority (sc_tasks s i)" for i using assms by simp_all
  then show ?thesis using assms(1-3) by (simp add: sched_core_def links_ok_upd_task del: upd_task_tcb)
qed

lemma core_upd_main:
  assumes "sched_core s L m E" "\<And>tcb. tk_next (f tcb) = tk_next tcb" "\<And>tcb. tk_prev (f tcb) = tk_prev tcb"
    "tk_priority (f (sc_tasks s m)) < 5" "tk_state (f (sc_tasks s m)) = TASK_STATE_RUNNING"
  shows "sched_core (upd_task m f s) L m E"
  using assms by (auto simp: sched_core_def links_ok_upd_task listed_def)

lemma core_close:
  assumes "sched_core s L m (insert t E)"
    "tk_state (sc_tasks s t) = TASK_STATE_SUSPENDED \<or> tk_state (sc_tasks s t) = TASK_STATE_TERMINATED"
  shows "sched_core s L m E"
  using assms by (auto simp: sched_core_def)

lemma core_mono: "sched_core s L m E \<Longrightarrow> E \<subseteq> E' \<Longrightarrow> sched_core s L m E'"
  by (auto simp: sched_core_def)

lemma core_ready_add:
  assumes "sched_core s L m (insert t E)" "\<not> listed L t" "t \<noteq> m" "t < 8" "tk_priority (sc_tasks s t) = p"
  shows "sched_core (task_add_to_ready t s) (L(p := t # L p)) m E"
proof -
  have p: "p < 5" using assms by (auto simp: sched_core_def)
  then have "links_ok (task_add_to_ready t s) (L(p := t # L p))"
    using task_add_to_ready_links assms by (auto simp: sched_core_def)
  moreover have "t \<notin> set (L 5)" "\<And>q. q < 5 \<Longrightarrow> t \<notin> set (L q)" using assms(2) by (auto simp: listed_def)
  ultimately show ?thesis using assms p by (auto simp: sched_core_def)
qed

lemma core_blocked_add:
  assumes "sched_core s L m (insert t E)" "\<not> listed L t" "t \<noteq> m" "t < 8" "tk_state (sc_tasks s t) = TASK_STATE_BLOCKED"
  shows "sched_core (blocked_add t s) (L(5 := t # L 5)) m E"
  using assms blocked_add_links [of s L t] by (auto simp: sched_core_def)

lemma core_free_add:
  assumes "sched_core s L m (insert t E)" "\<not> listed L t" "t \<noteq> m" "t < 8"
  shows "sched_core (free_add t s) (L(6 := t # L 6)) m E"
  using assms free_add_links [of s L t] by (auto simp: sched_core_def)

lemma core_ready_remove:
  assumes "sched_core s L m E" "t \<in> set (L p)" "p < 5"
  shows "sched_core (ready_remove t s) (L(p := remove1 t (L p))) m (insert t E)"
proof -
  have "links_ok (ready_remove t s) (L(p := remove1 t (L p)))"
    by (rule ready_remove_links) (use assms in \<open>auto simp: sched_core_def\<close>)
  then show ?thesis using assms sched_core_sep [OF assms(1)] listed_remove [of L p t]
    by (auto simp: sched_core_def dest: notin_set_remove1 set_remove1_subset [THEN subsetD])
qed

lemma core_blocked_remove:
  assumes "sched_core s L m E" "t \<in> set (L 5)"
  shows "sched_core (blocked_remove t s) (L(5 := remove1 t (L 5))) m (insert t E)"
proof -
  have "links_ok (blocked_remove t s) (L(5 := remove1 t (L 5)))"
    by (rule blocked_remove_links) (use assms in \<open>auto simp: sched_core_def\<close>)
  then show ?thesis using assms sched_core_sep [OF assms(1)] listed_remove [of L 5 t]
    by (auto simp: sched_core_def dest: notin_set_remove1 set_remove1_subset [THEN subsetD])
qed

lemma core_free_remove:
  assumes "sched_core s L m E" "t \<in> set (L 6)"
  shows "sched_core (free_remove t s) (L(6 := remove1 t (L 6))) m (insert t E)"
proof -
  have "links_ok (free_remove t s) (L(6 := remove1 t (L 6)))"
    by (rule free_remove_links) (use assms in \<open>auto simp: sched_core_def\<close>)
  then show ?thesis using assms sched_core_sep [OF assms(1)] listed_remove [of L 6 t]
    by (auto simp: sched_core_def dest: notin_set_remove1 set_remove1_subset [THEN subsetD])
qed

lemma core_ctx [simp]:
  "sched_core (s\<lparr>sc_current := a\<rparr>) L m E = sched_core s L m E"
  "sched_core (s\<lparr>sc_caller_context_valid := b\<rparr>) L m E = sched_core s L m E"
  "sched_core (s\<lparr>sc_governor := g\<rparr>) L m E = sched_core s L m E"
  "sched_core (s\<lparr>sc_power := pw\<rparr>) L m E = sched_core s L m E"
  "sched_core (s\<lparr>sc_tick_count := n\<rparr>) L m E = sched_core s L m E"
  "sched_core (s\<lparr>sc_next_wake_tick := n\<rparr>) L m E = sched_core s L m E"
  "sched_core (s\<lparr>sc_power_mode := md\<rparr>) L m E = sched_core s L m E"
  "sched_core (s\<lparr>sc_tickless_idle_enabled := b\<rparr>) L m E = sched_core s L m E"
  "sched_core (s\<lparr>sc_idle_tick_count := n\<rparr>) L m E = sched_core s L m E"
  "sched_core (s\<lparr>sc_deep_sleep_min_ticks := n\<rparr>) L m E = sched_core s L m E"
  "sched_core (s\<lparr>sc_nesting_level := w\<rparr>) L m E = sched_core s L m E"
  "sched_core (s\<lparr>sc_in_isr := b\<rparr>) L m E = sched_core s L m E"
  "sched_core (s\<lparr>sc_scheduler_started := b\<rparr>) L m E = sched_core s L m E"
  "sched_core (scheduler_lock s) L m E = sched_core s L m E"
  "sched_core (scheduler_unlock s) L m E = sched_core s L m E"
  by (simp_all add: sched_core_def)

subsection \<open>Switching\<close>

lemma core_main:
  assumes "sched_core s L m {}"
  shows "sched_rel (switch_to_main s) L m m"
proof -
  have main: "sc_main_task s = Some m" "m < 8" "\<not> listed L m" using assms by (auto simp: sched_core_def)
  have "sched_core (s\<lparr>sc_current := Some m, sc_last_switched := None\<rparr>) L m {}"
    using assms by (simp add: sched_core_def)
  then have "sched_core (switch_to_main s) L m {}"
    unfolding switch_to_main_def main option.case
    by (rule core_upd_main) (use assms in \<open>auto simp: sched_core_def\<close>)
  then show ?thesis using main core_mono [of _ L m "{}" "{m}"] by (simp add: sched_rel_def switch_to_main_def)
qed

lemma resume_task_rel:
  assumes "sched_rel s L m n" "n \<noteq> m"
  shows "sched_rel (resume_task n s) L m n"
proof -
  let ?u = "upd_task n (\<lambda>tcb. tcb\<lparr>tk_state := TASK_STATE_RUNNING\<rparr>) s"
  have "sched_core s L m {n}" "\<not> listed L n" using assms by (auto simp: sched_rel_def)
  then have "sched_core ?u L m (insert n {n})"
    using assms(2) by (intro core_upd) (auto simp: sched_core_def)
  then have "sched_rel ?u L m n" using assms by (simp add: sched_rel_def)
  then show ?thesis using assms
    by (auto simp: resume_task_def sched_rel_def split: resume_point.split)
qed

lemma core_context_switch:
  assumes "sched_core s L m {}" "sc_caller_context_valid s" "p < 5" "n \<in> set (L p)"
  shows "sched_rel (context_switch n s) (L(p := remove1 n (L p))) m n"
proof -
  let ?L = "L(p := remove1 n (L p))"
  let ?s = "(ready_remove n s)\<lparr>sc_current := Some n\<rparr>"
  let ?u = "upd_task n (\<lambda>tcb. tcb\<lparr>tk_state := TASK_STATE_RUNNING\<rparr>) ?s"
  have l: "listed L n" using listedI [of p] assms(3,4) by simp
  then have n: "n \<noteq> m" "n < 8" "\<not> listed ?L n"
    using assms sched_core_sep [OF assms(1)] by (auto simp: sched_core_def listed_remove)
  have "sched_core ?s ?L m {n}" using core_ready_remove [OF assms(1,4,3)] by simp
  then have "sched_core ?u ?L m (insert n {n})"
    using n by (intro core_upd) (auto simp: sched_core_def)
  then have "sched_rel ?u ?L m n" using assms(2) n by (simp add: sched_rel_def)
  then have "sched_rel (resume_task n ?u) ?L m n" using n by (intro resume_task_rel)
  moreover have "sc_main_task s = Some m" using assms(1) by (simp add: sched_core_def)
  ultimately show ?thesis using n by (simp add: context_switch_def)
qed

section \<open>The abstract scheduler\<close>

text \<open>
  The contract of the scheduler over the lists alone: which context runs next and how the lists
  change. The task that runs next is the head of the highest nonempty ready list above idle.
\<close>

definition abs_dispatch :: "nat \<Rightarrow> (nat \<Rightarrow> nat list) \<Rightarrow> (nat \<Rightarrow> nat list) \<times> nat" where
  "abs_dispatch m L = (case top_prio L of Some p \<Rightarrow> (L(p := tl (L p)), hd (L p)) | None \<Rightarrow> (L, m))"

definition abs_yield :: "nat \<Rightarrow> nat \<Rightarrow> (nat \<Rightarrow> nat list) \<times> nat \<Rightarrow> (nat \<Rightarrow> nat list) \<times> nat" where
  "abs_yield m prio = (\<lambda>(L, c).
    (case top_prio L of
       None \<Rightarrow> (L(prio := c # L prio), m)
     | Some p \<Rightarrow> (let L' = L(p := tl (L p)) in (L'(prio := c # L' prio), hd (L p)))))"

lemma step_pick:
  assumes "sched_core s L m E"
  shows "(case task_get_highest_ready s of
      Some n \<Rightarrow> if tk_priority (sc_tasks s n) = TASK_PRIO_IDLE then None else Some n | None \<Rightarrow> None)
    = map_option (\<lambda>p. hd (L p)) (top_prio L)"
    and "task_get_highest_ready s = Some n \<Longrightarrow> tk_priority (sc_tasks s n) \<noteq> TASK_PRIO_IDLE \<longleftrightarrow> top_prio L \<noteq> None"
proof -
  have links: "links_ok s L" and r: "\<And>p t. p < 5 \<Longrightarrow> t \<in> set (L p) \<Longrightarrow> tk_priority (sc_tasks s t) = p"
    using assms by (auto simp: sched_core_def)
  have high: "task_get_highest_ready s = Some (hd (L p)) \<and> tk_priority (sc_tasks s (hd (L p))) = p \<and> p \<noteq> 0"
    if "top_prio L = Some p" for p
    using topD [OF that] r [of p "hd (L p)"] that unfolding highest_ready [OF links] by (cases "L p") auto
  have low: "tk_priority (sc_tasks s n) = 0" if "top_prio L = None" "task_get_highest_ready s = Some n" for n
    using that r [of 0 n] unfolding highest_ready [OF links] by (cases "L 0") auto
  show "(case task_get_highest_ready s of
      Some n \<Rightarrow> if tk_priority (sc_tasks s n) = TASK_PRIO_IDLE then None else Some n | None \<Rightarrow> None)
    = map_option (\<lambda>p. hd (L p)) (top_prio L)"
    using high low by (cases "top_prio L") (auto split: option.split)
  show "task_get_highest_ready s = Some n \<Longrightarrow> tk_priority (sc_tasks s n) \<noteq> TASK_PRIO_IDLE \<longleftrightarrow> top_prio L \<noteq> None"
    using high low by (cases "top_prio L") auto
qed

lemma core_dispatch:
  assumes "sched_core s L m {}" "sc_caller_context_valid s" "top_prio L = Some p"
  shows "sched_rel (context_switch (hd (L p)) s) (L(p := tl (L p))) m (hd (L p))"
proof -
  have p: "p < 5" "L p \<noteq> []" using topD [OF assms(3)] by auto
  then have "remove1 (hd (L p)) (L p) = tl (L p)" by (cases "L p") auto
  then show ?thesis using core_context_switch [OF assms(1,2) p(1), of "hd (L p)"] p by simp
qed

lemma sched_relD:
  assumes "sched_rel s L m c"
  shows "sched_core s L m {c}" "sc_current s = Some c" "sc_main_task s = Some m" "c < 8" "m < 8" "\<not> listed L c"
    "\<not> listed L m" "tk_state (sc_tasks s c) = TASK_STATE_RUNNING" "tk_state (sc_tasks s m) = TASK_STATE_RUNNING"
    "sc_last_switched s = None" "links_ok s L" "c \<noteq> m \<Longrightarrow> sc_caller_context_valid s"
  using assms by (auto simp: sched_rel_def sched_core_def)

lemma core_main_current: "sched_core s L m {m} \<longleftrightarrow> sched_core s L m {}"
  by (auto simp: sched_core_def)

lemma scheduler_step_rel:
  assumes "sched_rel s L m m" "sc_scheduler_started s"
  shows "fst (scheduler_step s) = 0 \<and> sched_rel (snd (scheduler_step s)) (fst (abs_dispatch m L)) m (snd (abs_dispatch m L))"
proof (cases "top_prio L")
  case None
  have core: "sched_core s L m {m}" using sched_relD(1) [OF assms(1)] .
  then have "scheduler_step s = (0, s\<lparr>sc_governor := power_governor_note_idle (sc_governor s)\<rparr>)"
    using step_pick(2) [OF core] assms(2) None by (auto simp: scheduler_step_def split: option.split)
  then show ?thesis using assms(1) None by (simp add: abs_dispatch_def sched_rel_def)
next
  case (Some p)
  have core: "sched_core s L m {m}" using sched_relD(1) [OF assms(1)] .
  have n: "task_get_highest_ready s = Some (hd (L p))"
    using highest_ready [OF sched_relD(11) [OF assms(1)]] topD [OF Some] Some by (simp add: first_def split: list.split)
  let ?s = "s\<lparr>sc_governor := power_governor_note_busy (task_demand (Some (hd (L p))) s) (sc_governor s),
    sc_caller_context_valid := True\<rparr>"
  have "scheduler_step s = (0, context_switch (hd (L p)) ?s)"
    using n step_pick(2) [OF core n] Some assms(2) sched_relD(10) [OF assms(1)] by (simp add: scheduler_step_def)
  moreover have "sched_core ?s L m {}" using core by (simp add: core_main_current)
  ultimately show ?thesis using core_dispatch [of ?s L m p] Some by (simp add: abs_dispatch_def)
qed

lemma task_yield_main:
  assumes "sched_rel s L m m"
  shows "task_yield s = snd (scheduler_step (scheduler_unlock (scheduler_lock s)))"
  using sched_relD(2,3) [OF assms] by (simp add: task_yield_def Let_def)

lemma task_yield_rel:
  assumes rel: "sched_rel s L m c" and c: "c \<noteq> m"
  shows "sched_rel (task_yield s) (fst (abs_yield m (tk_priority (sc_tasks s c)) (L, c))) m
    (snd (abs_yield m (tk_priority (sc_tasks s c)) (L, c)))"
proof -
  let ?u = "upd_task c (\<lambda>tcb. tcb\<lparr>tk_context := In_Yield, tk_context_valid := True, tk_state := TASK_STATE_READY\<rparr>)
    (scheduler_lock s)"
  let ?p = "tk_priority (sc_tasks s c)"
  let ?L = "L(?p := c # L ?p)"
  note r = sched_relD [OF rel]
  have u: "sched_core ?u L m {c}"
    by (rule core_upd_self) (use r(1,6) c in simp_all)
  have q: "sched_core (task_add_to_ready c ?u) ?L m {}"
    by (rule core_ready_add) (use u r c in auto)
  have yield: "task_yield s = (case map_option (\<lambda>p. hd (L p)) (top_prio L) of
      Some n \<Rightarrow> context_switch n (task_add_to_ready c ?u) | None \<Rightarrow> switch_to_main (task_add_to_ready c ?u))"
    using r c unfolding step_pick(1) [OF u, symmetric] by (simp add: task_yield_def Let_def)
  show ?thesis
  proof (cases "top_prio L")
    case None
    then show ?thesis using core_main [OF q] by (simp add: yield abs_yield_def)
  next
    case (Some p)
    have p: "p < 5" "L p \<noteq> []" using topD [OF Some] by auto
    then have n: "hd (L p) \<in> set (?L p)" "c \<noteq> hd (L p)" using r(6) listedI [of p "hd (L p)" L] by auto
    have "remove1 (hd (L p)) (L p) = tl (L p)" using p by (cases "L p") auto
    then have L: "?L(p := remove1 (hd (L p)) (?L p)) = fst (abs_yield m ?p (L, c))"
      using Some n by (auto simp: abs_yield_def fun_eq_iff)
    have "sched_rel (context_switch (hd (L p)) (task_add_to_ready c ?u)) (?L(p := remove1 (hd (L p)) (?L p))) m (hd (L p))"
      by (rule core_context_switch [OF q _ p(1) n(1)]) (simp add: r(12) [OF c])
    moreover have "snd (abs_yield m ?p (L, c)) = hd (L p)" "task_yield s = context_switch (hd (L p)) (task_add_to_ready c ?u)"
      using Some by (simp_all add: abs_yield_def Let_def yield)
    ultimately show ?thesis unfolding L by simp
  qed
qed

lemma task_sleep_rel:
  assumes rel: "sched_rel s L m c" and c: "c \<noteq> m"
  shows "sched_rel (task_sleep_task c ticks s) (L(5 := c # L 5)) m m"
proof -
  let ?u = "upd_task c (\<lambda>tcb. tcb\<lparr>tk_sleep_ticks := ticks, tk_wake_time := sc_tick_count s + ticks,
    tk_state := TASK_STATE_BLOCKED\<rparr>) s"
  let ?v = "upd_task c (\<lambda>tcb. tcb\<lparr>tk_context := In_Sleep, tk_context_valid := True\<rparr>) (blocked_add c ?u)"
  note r = sched_relD [OF rel]
  have "sched_core ?u L m {c}" by (rule core_upd_self) (use r(1,6) c in simp_all)
  then have "sched_core (blocked_add c ?u) (L(5 := c # L 5)) m {}"
    by (rule core_blocked_add) (use r c in auto)
  then have "sched_core ?v (L(5 := c # L 5)) m {}" by (rule core_upd_keep) simp_all
  then show ?thesis using core_main by (simp add: task_sleep_task_def Let_def)
qed

lemma task_exit_rel:
  assumes rel: "sched_rel s L m c" and c: "c \<noteq> m"
  shows "sched_rel (task_trampoline_exit s) L m m"
proof -
  note r = sched_relD [OF rel]
  let ?u = "upd_task c (\<lambda>tcb. tcb\<lparr>tk_state := TASK_STATE_TERMINATED\<rparr>) s"
  have "sched_core ?u L m {c}" by (rule core_upd_self) (use r(1,6) c in simp_all)
  then have "sched_core ?u L m {}" by (rule core_close) simp
  then show ?thesis using core_main r(2) by (simp add: task_trampoline_exit_def)
qed

lemma task_suspend_self_rel:
  assumes rel: "sched_rel s L m c" and c: "c \<noteq> m"
  shows "sched_rel (task_suspend (Some c) s) (fst (abs_dispatch m L)) m (snd (abs_dispatch m L))"
proof -
  note r = sched_relD [OF rel]
  let ?u = "upd_task c (\<lambda>tcb. tcb\<lparr>tk_context := In_Suspend, tk_context_valid := True,
    tk_state := TASK_STATE_SUSPENDED\<rparr>) (scheduler_lock s)"
  have "sched_core ?u L m {c}" by (rule core_upd_self) (use r(1,6) c in simp_all)
  then have u: "sched_core ?u L m {}" by (rule core_close) simp
  have "task_suspend (Some c) s = (case map_option (\<lambda>p. hd (L p)) (top_prio L) of
      Some n \<Rightarrow> context_switch n ?u | None \<Rightarrow> switch_to_main ?u)"
    using r(2) unfolding step_pick(1) [OF u, symmetric]
    by (simp add: task_suspend_def Let_def split: option.split)
  then show ?thesis using core_dispatch [OF u] core_main [OF u] r(12) [OF c]
    by (auto simp: abs_dispatch_def split: option.split)
qed

definition abs_unlist :: "nat \<Rightarrow> (nat \<Rightarrow> nat list) \<Rightarrow> nat \<Rightarrow> nat list" where
  "abs_unlist t L = (\<lambda>k. if k < 6 then remove1 t (L k) else L k)"

lemma lists_sep_only:
  assumes "lists_sep L" "j < 7" "k < 7" "t \<in> set (L j)" "t \<in> set (L k)"
  shows "j = k"
proof (rule ccontr)
  assume "j \<noteq> k"
  then have "set (L j) \<inter> set (L k) = {}" using assms(1-3) by (simp add: lists_sep_def)
  then show False using assms(4,5) by (simp add: disjoint_iff)
qed

lemma abs_unlist_eq:
  assumes "lists_sep L" "k < 6" "t \<in> set (L k)"
  shows "abs_unlist t L = L(k := remove1 t (L k))"
proof
  fix j
  show "abs_unlist t L j = (L(k := remove1 t (L k))) j"
  proof (cases "j = k")
    case False
    then have "j < 6 \<Longrightarrow> t \<notin> set (L j)" using lists_sep_only [OF assms(1), of j k t] assms(2,3) by auto
    then show ?thesis using False by (simp add: abs_unlist_def remove1_idem)
  qed (use assms(2) in \<open>simp add: abs_unlist_def\<close>)
qed

lemma abs_unlist_id: "\<not> listed L t \<Longrightarrow> abs_unlist t L = L"
  by (simp add: abs_unlist_def listed_def fun_eq_iff remove1_idem)

lemma live_cases:
  assumes "sched_core s L m E" "t < 8" "t \<notin> set (L 6)" "t \<noteq> m" "t \<notin> E"
  obtains (ready) p where "p < 5" "t \<in> set (L p)" "tk_state (sc_tasks s t) = TASK_STATE_READY" "tk_priority (sc_tasks s t) = p"
    | (blocked) "t \<in> set (L 5)" "tk_state (sc_tasks s t) = TASK_STATE_BLOCKED"
    | (suspended) "\<not> listed L t" "tk_state (sc_tasks s t) = TASK_STATE_SUSPENDED"
    | (terminated) "\<not> listed L t" "tk_state (sc_tasks s t) = TASK_STATE_TERMINATED"
proof (cases "listed L t")
  case True
  then obtain k where k: "k < 7" "t \<in> set (L k)" by (auto simp: listed_def)
  then have "k \<noteq> 6" using assms(3) by auto
  then have "k < 5 \<or> k = 5" using k by linarith
  then show ?thesis
  proof
    assume "k < 5"
    then show ?thesis using ready [of k] k assms(1) by (auto simp: sched_core_def)
  next
    assume "k = 5"
    then show ?thesis using blocked k assms(1) by (auto simp: sched_core_def)
  qed
next
  case False
  then show ?thesis using assms suspended terminated by (auto simp: sched_core_def)
qed

lemma unlist_not_listed:
  assumes "sched_core s L m E" "t \<notin> set (L 6)"
  shows "\<not> listed (abs_unlist t L) t"
  using assms(2) sched_core_sep [OF assms(1)] less_Suc_eq [of _ 6]
  by (auto simp: listed_def abs_unlist_def lists_sep_def)

lemma unlist_ready:
  assumes "sched_core s L m E" "t \<in> set (L p)" "p < 5"
  shows "sched_core (ready_remove t s) (abs_unlist t L) m (insert t E)"
  using core_ready_remove [OF assms] abs_unlist_eq [OF sched_core_sep [OF assms(1)], of p t] assms by simp

lemma unlist_blocked:
  assumes "sched_core s L m E" "t \<in> set (L 5)"
  shows "sched_core (blocked_remove t s) (abs_unlist t L) m (insert t E)"
  using core_blocked_remove [OF assms] abs_unlist_eq [OF sched_core_sep [OF assms(1)], of 5 t] assms by simp

lemma listed_unlist: "listed (abs_unlist t L) i \<Longrightarrow> listed L i"
proof -
  assume "listed (abs_unlist t L) i"
  then obtain k where "k < 7" "i \<in> set (abs_unlist t L k)" by (auto simp: listed_def)
  then show ?thesis by (intro listedI [of k]) (auto simp: abs_unlist_def split: if_splits dest: set_remove1_subset [THEN subsetD])
qed

lemma task_suspend_other_rel:
  assumes rel: "sched_rel s L m c" and t: "t \<noteq> c" "t \<noteq> m" "t < 8" "t \<notin> set (L 6)"
  shows "sched_rel (task_suspend (Some t) s) (abs_unlist t L) m c"
proof -
  note r = sched_relD [OF rel]
  have core: "sched_core (scheduler_lock s) L m {c}" using r(1) by simp
  have unl: "\<not> listed (abs_unlist t L) t" "\<not> listed (abs_unlist t L) c"
    using unlist_not_listed [OF r(1) t(4)] listed_unlist r(6) by auto
  have cl: "sched_rel (scheduler_unlock (upd_task t f s')) (abs_unlist t L) m c"
    if "sched_core s' (abs_unlist t L) m (insert t {c})" "sc_current s' = Some c" "tk_state (sc_tasks s' c) = TASK_STATE_RUNNING"
      "sc_caller_context_valid s' = sc_caller_context_valid s"
      "\<And>tcb. tk_next (f tcb) = tk_next tcb \<and> tk_prev (f tcb) = tk_prev tcb \<and> tk_priority (f tcb) = tk_priority tcb \<and>
        tk_state (f tcb) = TASK_STATE_SUSPENDED" for s' f
  proof -
    have "sched_core (upd_task t f s') (abs_unlist t L) m (insert t {c})"
      by (rule core_upd_self) (use that unl t in auto)
    then have "sched_core (upd_task t f s') (abs_unlist t L) m {c}" by (rule core_close) (use that in simp)
    then show ?thesis using that t r unl by (simp add: sched_rel_def)
  qed
  have t1: "t < 8" "t \<notin> set (L 6)" "t \<noteq> m" "t \<notin> {c}" using t by auto
  show ?thesis
  proof (cases rule: live_cases [OF r(1) t1])
    case (1 p)
    have "sched_core (ready_remove t (scheduler_lock s)) (abs_unlist t L) m (insert t {c})"
      using unlist_ready [OF core] 1 by simp
    then show ?thesis using 1 r t by (simp add: task_suspend_def Let_def cl)
  next
    case 2
    have "sched_core (blocked_remove t (scheduler_lock s)) (abs_unlist t L) m (insert t {c})"
      using unlist_blocked [OF core] 2 by simp
    then show ?thesis using 2 r t by (simp add: task_suspend_def Let_def cl)
  qed (use rel r t in \<open>auto simp: task_suspend_def Let_def abs_unlist_id sched_rel_def\<close>)
qed

lemma task_resume_rel:
  assumes rel: "sched_rel s L m c" and t: "t \<noteq> m" "t < 8" "t \<notin> set (L 6)"
  shows "sched_rel (task_resume (Some t) s)
    (if tk_state (sc_tasks s t) = TASK_STATE_SUSPENDED then L(tk_priority (sc_tasks s t) := t # L (tk_priority (sc_tasks s t))) else L) m c"
proof (cases "tk_state (sc_tasks s t) = TASK_STATE_SUSPENDED")
  case True
  note r = sched_relD [OF rel]
  let ?p = "tk_priority (sc_tasks s t)"
  have tc: "t \<noteq> c" using True r(8) by auto
  then have t1: "t < 8" "t \<notin> set (L 6)" "t \<noteq> m" "t \<notin> {c}" using t by auto
  have nl: "\<not> listed L t" by (cases rule: live_cases [OF r(1) t1]) (use True in auto)
  let ?u = "upd_task t (\<lambda>tcb. tcb\<lparr>tk_state := TASK_STATE_READY\<rparr>) (scheduler_lock s)"
  have "sched_core (scheduler_lock s) L m (insert t {c})" using core_mono [OF r(1)] by simp
  then have "sched_core ?u L m (insert t {c})" by (rule core_upd_self) (use nl t in auto)
  then have "sched_core (task_add_to_ready t ?u) (L(?p := t # L ?p)) m {c}"
    by (rule core_ready_add) (use nl t in auto)
  moreover have "?p < 7" using r(1) by (auto simp: sched_core_def elim!: allE [of _ t])
  ultimately show ?thesis using True r tc by (simp add: task_resume_def Let_def sched_rel_def)
qed (use rel in \<open>auto simp: task_resume_def Let_def sched_rel_def\<close>)

lemma task_delete_rel:
  assumes rel: "sched_rel s L m c" and t: "t \<noteq> m" "t < 8" "t \<notin> set (L 6)" "t \<noteq> c"
  shows "fst (task_delete (Some t) s) = 0 \<and>
    sched_rel (snd (task_delete (Some t) s)) ((abs_unlist t L)(6 := t # L 6)) m c"
proof -
  note r = sched_relD [OF rel]
  let ?M = "abs_unlist t L"
  let ?f = "\<lambda>tcb. tcb\<lparr>tk_stack_base := None, tk_state := TASK_STATE_TERMINATED\<rparr>"
  have unl: "\<not> listed ?M t" "\<not> listed ?M c" using unlist_not_listed [OF r(1) t(3)] listed_unlist r(6) by auto
  have M6: "?M 6 = L 6" by (simp add: abs_unlist_def)
  have cl: "sched_rel (free_add t (upd_task t ?f s')) (?M(6 := t # L 6)) m c"
    if "sched_core s' ?M m (insert t {c})" "sc_current s' = Some c" "tk_state (sc_tasks s' c) = TASK_STATE_RUNNING"
      "sc_caller_context_valid s' = sc_caller_context_valid s" for s'
  proof -
    have "sched_core (upd_task t ?f s') ?M m (insert t {c})"
      by (rule core_upd_self) (use that unl t in auto)
    then have "sched_core (free_add t (upd_task t ?f s')) (?M(6 := t # ?M 6)) m {c}"
      by (rule core_free_add) (use unl t in auto)
    then show ?thesis using that t r unl by (simp add: sched_rel_def M6 flip: M6)
  qed
  have t1: "t < 8" "t \<notin> set (L 6)" "t \<noteq> m" "t \<notin> {c}" using t by auto
  have parked: "sched_core s ?M m (insert t {c})" if "\<not> listed L t"
    using core_mono [OF r(1)] abs_unlist_id [OF that] by simp
  show ?thesis
  proof (cases rule: live_cases [OF r(1) t1])
    case (1 p)
    then show ?thesis using unlist_ready [OF r(1)] r t by (simp add: task_delete_def Let_def cl)
  next
    case 2
    then show ?thesis using unlist_blocked [OF r(1)] r t by (simp add: task_delete_def Let_def cl)
  qed (use parked r t cl in \<open>simp_all add: task_delete_def Let_def\<close>)
qed

lemma task_create_rel:
  assumes rel: "sched_rel s L m c" and prio: "priority \<le> TASK_PRIO_CRITICAL" and free: "L 6 = t # F"
  shows "base = None \<Longrightarrow> \<exists>s'. task_create name entry arg priority sz base s = (-1, None, s') \<and> sched_rel s' L m c"
    and "base = Some b \<Longrightarrow> \<exists>s'. task_create name entry arg priority sz base s = (0, Some t, s') \<and>
      sched_rel s' (L(6 := F, priority := t # L priority)) m c"
proof -
  note r = sched_relD [OF rel]
  have t: "t \<in> set (L 6)" "t < 8" "t \<noteq> m" "t \<noteq> c"
    using free listedI [of 6 t L] r(1,6,7) by (auto simp: sched_core_def)
  have fl: "sc_free_list s = Some t" using free_head [OF r(11)] free by simp
  let ?L = "L(6 := F)"
  have rm: "remove1 t (L 6) = F" using free by simp
  have nl: "\<not> listed ?L t" using listed_remove [OF sched_core_sep [OF r(1)] _ t(1)] rm by simp
  have nlc: "\<not> listed ?L c" using listed_remove [OF sched_core_sep [OF r(1)] _ t(1)] rm r(6) by simp
  have core: "sched_core (free_remove t s) ?L m (insert t {c})" using core_free_remove [OF r(1) t(1)] rm by simp
  have upd: "sched_core (upd_task t f (free_remove t s)) ?L m (insert t {c})"
    if "\<And>tcb. tk_next (f tcb) = tk_next tcb" "\<And>tcb. tk_prev (f tcb) = tk_prev tcb" "\<And>tcb. tk_priority (f tcb) = priority" for f
    using core_upd [OF core nl t(3), of f] that prio by (simp add: insert_absorb)
  show "\<exists>s'. task_create name entry arg priority sz base s = (-1, None, s') \<and> sched_rel s' L m c" if "base = None"
  proof -
    have "sched_core (free_add t (upd_task t f (free_remove t s))) (?L(6 := t # ?L 6)) m {c}"
      if "\<And>tcb. tk_next (f tcb) = tk_next tcb" "\<And>tcb. tk_prev (f tcb) = tk_prev tcb" "\<And>tcb. tk_priority (f tcb) = priority" for f
      by (rule core_free_add) (use upd [OF that] nl t in auto)
    moreover have "?L(6 := t # ?L 6) = L" using free by (simp add: fun_eq_iff)
    ultimately show ?thesis using \<open>base = None\<close> prio fl r t(4)
      by (simp add: task_create_def Let_def sched_rel_def)
  qed
  show "\<exists>s'. task_create name entry arg priority sz base s = (0, Some t, s') \<and>
      sched_rel s' (L(6 := F, priority := t # L priority)) m c" if "base = Some b"
  proof -
    have merge: "upd_task t f (upd_task t g s) = upd_task t (f \<circ> g) s" for f g s by (simp add: upd_task_def)
    have p: "priority < 7" "priority \<noteq> 6" using prio by auto
    have "sched_core (task_add_to_ready t (upd_task t f (free_remove t s))) (?L(priority := t # ?L priority)) m {c}"
      if "\<And>tcb. tk_next (f tcb) = tk_next tcb" "\<And>tcb. tk_prev (f tcb) = tk_prev tcb" "\<And>tcb. tk_priority (f tcb) = priority" for f
      by (rule core_ready_add) (use upd [OF that] nl t that in auto)
    moreover have "\<not> listed (L(6 := F, priority := t # L priority)) c"
      using listed_add [OF p(1), of ?L t c] nlc t(4) p(2) by simp
    ultimately show ?thesis using \<open>base = Some b\<close> prio fl r t(4) p
      by (simp add: task_create_def Let_def sched_rel_def host_stack_boot_def merge)
  qed
qed

subsection \<open>The tick\<close>

definition abs_tick :: "(nat \<Rightarrow> bool) \<Rightarrow> (nat \<Rightarrow> nat) \<Rightarrow> nat list \<Rightarrow> nat list \<Rightarrow> (nat \<Rightarrow> nat list) \<Rightarrow> nat \<Rightarrow> nat list" where
  "abs_tick D P ys zs L = (\<lambda>k.
    if k < 5 then rev (filter (\<lambda>t. D t \<and> P t = k) zs) @ L k
    else if k = 5 then ys @ filter (\<lambda>t. \<not> D t) zs else L k)"

lemma next_in_list:
  assumes "links_ok s L" "k < 7" "L k = ys @ t # zs"
  shows "tk_next (sc_tasks s t) = first zs"
  using assms dll_next [of "next_of (sc_tasks s)" "prev_of (sc_tasks s)" "list_head s k" None ys t zs]
  by (auto simp: links_ok_def next_of_def)

definition tick_frame :: "scheduler \<Rightarrow> scheduler \<Rightarrow> bool" where
  "tick_frame s s' \<longleftrightarrow> sc_current s' = sc_current s \<and> sc_tick_count s' = sc_tick_count s \<and>
    sc_caller_context_valid s' = sc_caller_context_valid s \<and> sc_in_isr s' = sc_in_isr s \<and>
    sc_nesting_level s' = sc_nesting_level s \<and> sc_scheduler_started s' = sc_scheduler_started s \<and>
    sc_governor s' = sc_governor s \<and> sc_power s' = sc_power s \<and>
    (\<forall>t. tk_wake_time (sc_tasks s' t) = tk_wake_time (sc_tasks s t) \<and> tk_priority (sc_tasks s' t) = tk_priority (sc_tasks s t))"

lemma tick_loop_core:
  assumes "sched_core s L m E" "L 5 = ys @ zs"
    and "\<And>t. D t \<longleftrightarrow> sc_tick_count s \<ge> tk_wake_time (sc_tasks s t)" "\<And>t. P t = tk_priority (sc_tasks s t)"
  shows "\<exists>s'. tick_loop (first zs) s = Some s' \<and> sched_core s' (abs_tick D P ys zs L) m E \<and> tick_frame s s' \<and>
    (\<forall>t. t \<notin> set zs \<longrightarrow> tk_state (sc_tasks s' t) = tk_state (sc_tasks s t))"
  using assms
proof (induction zs arbitrary: s L ys)
  case Nil
  then have "abs_tick D P ys [] L = L" by (auto simp: abs_tick_def fun_eq_iff)
  then show ?case using Nil.prems(1) by (simp add: tick_loop.simps tick_frame_def)
next
  case (Cons t zs)
  have links: "links_ok s L" and sep: "lists_sep L" using Cons.prems(1) by (auto simp: sched_core_def links_ok_def)
  have nx: "tk_next (sc_tasks s t) = first zs" using next_in_list [OF links _ Cons.prems(2)] by simp
  have "distinct (L 5)" using sep by (simp add: lists_sep_def)
  moreover have "t \<in> set (L 5)" using Cons.prems(2) by simp
  ultimately have t5: "t \<in> set (L 5)" "distinct (L 5)" by auto
  have tm: "t \<noteq> m" "t < 8" using t5 listedI [of 5 t L] Cons.prems(1) by (auto simp: sched_core_def)
  show ?case
  proof (cases "D t")
    case True
    let ?L = "L(5 := remove1 t (L 5))"
    let ?u = "upd_task t (\<lambda>tcb. tcb\<lparr>tk_state := TASK_STATE_READY\<rparr>) (blocked_remove t s)"
    let ?M = "?L(P t := t # ?L (P t))"
    have nl: "\<not> listed ?L t" using listed_remove [OF sep _ t5(1)] by simp
    have "sched_core (blocked_remove t s) ?L m (insert t E)" by (rule core_blocked_remove [OF Cons.prems(1) t5(1)])
    then have "sched_core ?u ?L m (insert t E)" by (rule core_upd_self) (use nl tm in auto)
    then have c: "sched_core (task_add_to_ready t ?u) ?M m E"
      by (rule core_ready_add) (use nl tm Cons.prems(4) in auto)
    have Pt: "P t < 5" using Cons.prems(1,4) by (auto simp: sched_core_def)
    have M5: "?M 5 = ys @ zs" using t5 Pt by (auto simp: Cons.prems(2) remove1_append)
    have "\<exists>s'. tick_loop (first zs) (task_add_to_ready t ?u) = Some s' \<and>
        sched_core s' (abs_tick D P ys zs ?M) m E \<and> tick_frame (task_add_to_ready t ?u) s' \<and>
        (\<forall>i. i \<notin> set zs \<longrightarrow> tk_state (sc_tasks s' i) = tk_state (sc_tasks (task_add_to_ready t ?u) i))"
      by (rule Cons.IH [OF c M5]) (simp_all add: Cons.prems)
    then obtain s' where s': "tick_loop (first zs) (task_add_to_ready t ?u) = Some s'"
      "sched_core s' (abs_tick D P ys zs ?M) m E" "tick_frame (task_add_to_ready t ?u) s'"
      "\<forall>i. i \<notin> set zs \<longrightarrow> tk_state (sc_tasks s' i) = tk_state (sc_tasks (task_add_to_ready t ?u) i)"
      by blast
    have "abs_tick D P ys zs ?M = abs_tick D P ys (t # zs) L"
      using Pt True by (auto simp: abs_tick_def fun_eq_iff)
    moreover have "tick_loop (first (t # zs)) s = tick_loop (first zs) (task_add_to_ready t ?u)"
      using True Cons.prems(3) nx by (subst tick_loop.simps) (simp add: Let_def)
    ultimately show ?thesis using s' by (auto simp: tick_frame_def)
  next
    case False
    have "abs_tick D P (ys @ [t]) zs L = abs_tick D P ys (t # zs) L"
      using False by (auto simp: abs_tick_def fun_eq_iff)
    moreover have "tick_loop (first (t # zs)) s = tick_loop (first zs) s"
      using False Cons.prems(3) nx by (subst tick_loop.simps) (simp add: Let_def)
    moreover have "\<exists>s'. tick_loop (first zs) s = Some s' \<and> sched_core s' (abs_tick D P (ys @ [t]) zs L) m E \<and> tick_frame s s' \<and>
        (\<forall>t. t \<notin> set zs \<longrightarrow> tk_state (sc_tasks s' t) = tk_state (sc_tasks s t))"
      by (rule Cons.IH) (simp_all add: Cons.prems)
    ultimately show ?thesis by auto
  qed
qed

lemma next_wake_loop_eq:
  assumes "links_ok s L" "L 5 = ys @ zs"
  shows "next_wake_loop (first zs) s =
    Some (s\<lparr>sc_next_wake_tick := fold (\<lambda>t w. min (tk_wake_time (sc_tasks s t)) w) zs (sc_next_wake_tick s)\<rparr>)"
  using assms
proof (induction zs arbitrary: s ys)
  case Nil
  then show ?case by (simp add: next_wake_loop.simps)
next
  case (Cons t zs)
  let ?s = "s\<lparr>sc_next_wake_tick := min (tk_wake_time (sc_tasks s t)) (sc_next_wake_tick s)\<rparr>"
  have nx: "tk_next (sc_tasks s t) = first zs" using next_in_list [OF Cons.prems(1) _ Cons.prems(2)] by simp
  have "(if tk_wake_time (sc_tasks s t) < sc_next_wake_tick s
      then s\<lparr>sc_next_wake_tick := tk_wake_time (sc_tasks s t)\<rparr> else s) = ?s"
    by (simp add: min_def not_less)
  then have "next_wake_loop (first (t # zs)) s = next_wake_loop (first zs) ?s"
    by (subst next_wake_loop.simps) (simp add: nx)
  moreover have "next_wake_loop (first zs) ?s =
    Some (?s\<lparr>sc_next_wake_tick := fold (\<lambda>t w. min (tk_wake_time (sc_tasks ?s t)) w) zs (sc_next_wake_tick ?s)\<rparr>)"
    by (rule Cons.IH [of _ "ys @ [t]"]) (use Cons.prems in simp_all)
  ultimately show ?case by simp
qed

lemma tick_governor_frame [simp]:
  "sc_tasks (tick_governor r h s) = sc_tasks s" "sc_current (tick_governor r h s) = sc_current s"
  "sc_tick_count (tick_governor r h s) = sc_tick_count s" "sc_next_wake_tick (tick_governor r h s) = sc_next_wake_tick s"
  "sc_caller_context_valid (tick_governor r h s) = sc_caller_context_valid s"
  "sc_scheduler_started (tick_governor r h s) = sc_scheduler_started s"
  "sc_main_task (tick_governor r h s) = sc_main_task s"
  "sc_in_isr (tick_governor r h s) = sc_in_isr s" "sc_nesting_level (tick_governor r h s) = sc_nesting_level s"
  "sched_core (tick_governor r h s) L m E = sched_core s L m E"
  by (simp_all add: tick_governor_def Let_def split: prod.split)

lemma scheduler_tick_rel:
  assumes rel: "sched_rel s L m c"
    and D: "\<And>t. D t \<longleftrightarrow> sc_tick_count s + 1 \<ge> tk_wake_time (sc_tasks s t)" and P: "\<And>t. P t = tk_priority (sc_tasks s t)"
  shows "\<exists>s'. scheduler_tick r h s = Some s' \<and> sched_rel s' (abs_tick D P [] (L 5) L) m c \<and>
    sc_tick_count s' = sc_tick_count s + 1 \<and> sc_scheduler_started s' = sc_scheduler_started s \<and>
    (\<forall>t. tk_wake_time (sc_tasks s' t) = tk_wake_time (sc_tasks s t)) \<and>
    sc_next_wake_tick s' = fold (\<lambda>t w. min (tk_wake_time (sc_tasks s t)) w) (filter (\<lambda>t. \<not> D t) (L 5)) UINT32_MAX"
proof -
  note rl = sched_relD [OF rel]
  let ?s = "(scheduler_lock s)\<lparr>sc_tick_count := sc_tick_count s + 1\<rparr>"
  let ?M = "abs_tick D P [] (L 5) L"
  have core: "sched_core ?s L m {c}" using rl(1) by simp
  have "\<exists>s'. tick_loop (first (L 5)) ?s = Some s' \<and> sched_core s' ?M m {c} \<and> tick_frame ?s s' \<and>
    (\<forall>t. t \<notin> set (L 5) \<longrightarrow> tk_state (sc_tasks s' t) = tk_state (sc_tasks ?s t))"
    by (rule tick_loop_core [OF core]) (simp_all add: D P)
  then obtain s1 where s1: "tick_loop (first (L 5)) ?s = Some s1" "sched_core s1 ?M m {c}" "tick_frame ?s s1"
    "\<forall>t. t \<notin> set (L 5) \<longrightarrow> tk_state (sc_tasks s1 t) = tk_state (sc_tasks ?s t)" by blast
  have l1: "links_ok s1 ?M" using s1(2) by (simp add: sched_core_def)
  have b: "sc_blocked_list s = first (L 5)" using blocked_head rl(11) by simp
  have "scheduler_update_next_wake_tick s1 = next_wake_loop (first (?M 5)) (s1\<lparr>sc_next_wake_tick := UINT32_MAX\<rparr>)"
    using blocked_head [OF l1] by (simp add: scheduler_update_next_wake_tick_def)
  also have "\<dots> = Some (s1\<lparr>sc_next_wake_tick := fold (\<lambda>t w. min (tk_wake_time (sc_tasks s1 t)) w) (?M 5) UINT32_MAX\<rparr>)"
    using next_wake_loop_eq [of "s1\<lparr>sc_next_wake_tick := UINT32_MAX\<rparr>" ?M "[]" "?M 5"] l1 by simp
  finally have s2: "scheduler_update_next_wake_tick s1 = \<dots>" .
  have c5: "c \<notin> set (L 5)" using rl(6) listedI [of 5 c L] by auto
  have nl: "\<not> listed ?M c"
  proof
    assume "listed ?M c"
    then obtain k where k: "k < 7" "c \<in> set (?M k)" by (auto simp: listed_def)
    then show False using rl(6) c5 listedI [of k c L] by (auto simp: abs_tick_def split: if_splits)
  qed
  have "scheduler_tick r h s = Some (scheduler_unlock (tick_governor r h
      (s1\<lparr>sc_next_wake_tick := fold (\<lambda>t w. min (tk_wake_time (sc_tasks s1 t)) w) (?M 5) UINT32_MAX\<rparr>)))"
    using s1(1) s2 b by (simp add: scheduler_tick_def Let_def)
  moreover have "tk_wake_time (sc_tasks s1 t) = tk_wake_time (sc_tasks s t)" for t
    using s1(3) by (simp add: tick_frame_def)
  ultimately show ?thesis using s1(2-4) rl nl c5
    by (simp add: sched_rel_def tick_frame_def) (simp add: abs_tick_def)
qed

end
