(* ===== verification/Scheduler_Steps.thy ===== *)
theory Scheduler_Steps
  imports Scheduler_Lists
begin

text \<open>
  Initialisation, the calls of a running system as a step relation, and the invariant over all
  states it reaches.
\<close>

definition init_lists :: "nat \<Rightarrow> nat list" where
  "init_lists k = (if k = 0 then [7] else if k = 6 then [5, 4, 3, 2, 1, 0] else [])"

lemma all_less_numeral: "(\<forall>k<numeral n. P k) \<longleftrightarrow> list_all P [0..<numeral n]"
  by (auto simp: list_all_iff)

lemma listed_init: "listed init_lists t \<longleftrightarrow> t < 8 \<and> t \<noteq> 6"
proof
  assume "t < 8 \<and> t \<noteq> 6"
  then have "t = 7 \<or> t \<in> {0, 1, 2, 3, 4, 5}" by auto
  then show "listed init_lists t" using listedI [of 0 t init_lists] listedI [of 6 t init_lists] by (auto simp: init_lists_def)
qed (auto simp: listed_def init_lists_def split: if_splits)

lemma lists_sep_init: "lists_sep init_lists"
  by (auto simp: lists_sep_def init_lists_def)

lemma scheduler_init_rel:
  assumes "sc_last_switched s0 = None"
  shows "\<exists>s. scheduler_init e (Some b) s0 = (0, s) \<and> sched_rel s init_lists 6 6 \<and> \<not> sc_scheduler_started s"
  using assms
  by (simp add: scheduler_init_def scheduler_zero_def upt_rec free_add_def task_list_add_def upd_task_def task_create_def
     free_remove_def task_list_remove_def Let_def host_stack_boot_def task_add_to_ready_def tcb_zero_def power_set_demand_def
     sched_rel_def sched_core_def links_ok_def lists_sep_init listed_init all_less_numeral list_head_def
     next_of_def prev_of_def init_lists_def)

section \<open>Reachable states\<close>

text \<open>
  The calls a system makes, with the set of task handles that were returned by \<open>task_create\<close> and
  not deleted since: a client passes only such handles. The main context steps the scheduler; a
  running task yields, sleeps, suspends itself or returns from its entry function; ticks and
  interrupt entry and exit may come at any time.
\<close>

inductive sched_step :: "scheduler \<times> nat set \<Rightarrow> scheduler \<times> nat set \<Rightarrow> bool" where
  Start: "sc_current s = sc_main_task s \<Longrightarrow> sched_step (s, H) (snd (scheduler_start s), H)"
| Step: "sc_current s = sc_main_task s \<Longrightarrow> sched_step (s, H) (snd (scheduler_step s), H)"
| Tick: "scheduler_tick r h s = Some s' \<Longrightarrow> sched_step (s, H) (s', H)"
| Create: "task_create name entry arg priority sz base s = (ret, out, s') \<Longrightarrow> sched_step (s, H) (s', H \<union> set_option out)"
| Delete: "t \<in> H \<Longrightarrow> task_delete (Some t) s = (ret, s') \<Longrightarrow> sched_step (s, H) (s', if ret = 0 then H - {t} else H)"
| Yield: "sched_step (s, H) (task_yield s, H)"
| Sleep: "sc_current s = Some t \<Longrightarrow> sc_current s \<noteq> sc_main_task s \<Longrightarrow> sched_step (s, H) (task_sleep_task t ticks s, H)"
| Suspend: "t \<in> H \<Longrightarrow> sched_step (s, H) (task_suspend (Some t) s, H)"
| Resume: "t \<in> H \<Longrightarrow> sched_step (s, H) (task_resume (Some t) s, H)"
| Exit: "sc_current s \<noteq> sc_main_task s \<Longrightarrow> sched_step (s, H) (task_trampoline_exit s, H)"
| Enter_Isr: "sched_step (s, H) (scheduler_enter_isr s, H)"
| Exit_Isr: "sched_step (s, H) (scheduler_exit_isr s, H)"
| Enter_Idle: "sched_step (s, H) (scheduler_enter_idle s, H)"
| Tickless: "sched_step (s, H) (scheduler_tickless_idle s, H)"
| Deep_Sleep: "sched_step (s, H) (snd (scheduler_enter_deep_sleep timeout s), H)"

definition sched_inv :: "scheduler \<times> nat set \<Rightarrow> bool" where
  "sched_inv = (\<lambda>(s, H). \<exists>L m c. sched_rel s L m c \<and> H = {t. t < 8 \<and> t \<noteq> m \<and> t \<notin> set (L 6)})"

lemma sched_invI: "sched_rel s L m c \<Longrightarrow> H = {t. t < 8 \<and> t \<noteq> m \<and> t \<notin> set (L 6)} \<Longrightarrow> sched_inv (s, H)"
  by (auto simp: sched_inv_def)

lemma abs_dispatch_free [simp]: "fst (abs_dispatch m L) 6 = L 6"
  by (auto simp: abs_dispatch_def split: option.split dest: topD)

lemma abs_yield_free [simp]: "prio < 5 \<Longrightarrow> fst (abs_yield m prio (L, c)) 6 = L 6"
  by (auto simp: abs_yield_def Let_def split: option.split dest: topD)

lemma sched_rel_prio: "sched_rel s L m c \<Longrightarrow> tk_priority (sc_tasks s t) < 5"
  by (simp add: sched_rel_def sched_core_def)

lemma sched_rel_ctx [simp]:
  "sched_rel (s\<lparr>sc_governor := g\<rparr>) L m c = sched_rel s L m c"
  "sched_rel (s\<lparr>sc_tick_count := n\<rparr>) L m c = sched_rel s L m c"
  "sched_rel (s\<lparr>sc_power_mode := md\<rparr>) L m c = sched_rel s L m c"
  "sched_rel (s\<lparr>sc_tickless_idle_enabled := b\<rparr>) L m c = sched_rel s L m c"
  "sched_rel (s\<lparr>sc_idle_tick_count := n\<rparr>) L m c = sched_rel s L m c"
  "sched_rel (s\<lparr>sc_nesting_level := w\<rparr>) L m c = sched_rel s L m c"
  "sched_rel (s\<lparr>sc_in_isr := b\<rparr>) L m c = sched_rel s L m c"
  "sched_rel (s\<lparr>sc_scheduler_started := b\<rparr>) L m c = sched_rel s L m c"
  "sched_rel (scheduler_lock s) L m c = sched_rel s L m c"
  "sched_rel (scheduler_unlock s) L m c = sched_rel s L m c"
  by (simp_all add: sched_rel_def)

lemma scheduler_step_inv:
  assumes "sched_rel s L m m"
  shows "\<exists>L' c. sched_rel (snd (scheduler_step s)) L' m c \<and> L' 6 = L 6"
proof (cases "sc_scheduler_started s")
  case True
  then show ?thesis using scheduler_step_rel [OF assms] abs_dispatch_free by blast
next
  case False
  then show ?thesis using assms by (auto simp: scheduler_step_def)
qed

lemma task_yield_inv:
  assumes "sched_rel s L m c"
  shows "\<exists>L' c. sched_rel (task_yield s) L' m c \<and> L' 6 = L 6"
proof (cases "c = m")
  case True
  then have "sched_rel (scheduler_unlock (scheduler_lock s)) L m m" using assms by simp
  then show ?thesis using scheduler_step_inv assms True by (simp add: task_yield_main)
next
  case False
  then show ?thesis using task_yield_rel [OF assms False] abs_yield_free sched_rel_prio [OF assms] by blast
qed

lemma scheduler_start_inv:
  assumes "sched_rel s L m m"
  shows "\<exists>L' c. sched_rel (snd (scheduler_start s)) L' m c \<and> L' 6 = L 6"
proof -
  let ?u = "upd_task m (\<lambda>tcb. tcb\<lparr>tk_context_valid := True\<rparr>) (s\<lparr>sc_scheduler_started := True\<rparr>)"
  have "sched_core ?u L m {m}" by (rule core_upd_keep) (use sched_relD(1) [OF assms] in simp_all)
  then have "sched_rel ?u L m m" using assms by (simp add: sched_rel_def)
  then show ?thesis using scheduler_step_inv [of ?u] assms sched_relD(3) [OF assms]
    by (auto simp: scheduler_start_def Let_def)
qed

lemma task_suspend_inv:
  assumes "sched_rel s L m c" "t < 8" "t \<noteq> m" "t \<notin> set (L 6)"
  shows "\<exists>L' c. sched_rel (task_suspend (Some t) s) L' m c \<and> L' 6 = L 6"
proof (cases "t = c")
  case True
  then show ?thesis using task_suspend_self_rel [OF assms(1)] assms(3) abs_dispatch_free by blast
next
  case False
  then show ?thesis using task_suspend_other_rel [OF assms(1) False] assms by (auto simp: abs_unlist_def)
qed

lemma task_create_inv:
  assumes "sched_rel s L m c" "task_create name entry arg priority sz base s = (ret, out, s')"
  shows "\<exists>L'. sched_rel s' L' m c \<and> (out = None \<and> L' 6 = L 6 \<or> (\<exists>t. out = Some t \<and> L 6 = t # L' 6))"
proof (cases "L 6 = [] \<or> priority > TASK_PRIO_CRITICAL")
  case True
  then have "task_create name entry arg priority sz base s = (-1, None, s)"
    using free_head [OF sched_relD(11) [OF assms(1)]] by (auto simp: task_create_def first_def split: list.split)
  then show ?thesis using assms by auto
next
  case False
  then obtain t F where F: "L 6 = t # F" "priority \<le> TASK_PRIO_CRITICAL" by (cases "L 6") auto
  show ?thesis
  proof (cases base)
    case None
    then show ?thesis using task_create_rel(1) [OF assms(1) F(2,1) None, of name entry arg sz] assms(2) by auto
  next
    case (Some b)
    then obtain s1 where s1: "task_create name entry arg priority sz base s = (0, Some t, s1)"
      "sched_rel s1 (L(6 := F, priority := t # L priority)) m c"
      using task_create_rel(2) [OF assms(1) F(2,1) Some, of name entry arg sz] by auto
    moreover have "(L(6 := F, priority := t # L priority)) 6 = F" using F(2) by simp
    ultimately show ?thesis using assms(2) F(1) by (intro exI [of _ "L(6 := F, priority := t # L priority)"]) auto
  qed
qed

lemma scheduler_tick_inv:
  assumes "sched_rel s L m c" "scheduler_tick r h s = Some s'"
  shows "\<exists>L' c. sched_rel s' L' m c \<and> L' 6 = L 6"
proof -
  obtain s1 M where "scheduler_tick r h s = Some s1" "sched_rel s1 M m c" "M 6 = L 6"
    using scheduler_tick_rel [OF assms(1) refl refl, of r h] by (auto simp: abs_tick_def)
  then show ?thesis using assms(2) by auto
qed

lemma scheduler_enter_idle_inv:
  assumes "sched_rel s L m c"
  shows "\<exists>L' c. sched_rel (scheduler_enter_idle s) L' m c \<and> L' 6 = L 6"
proof (cases "scheduler_enter_idle s = task_yield (s\<lparr>sc_power_mode := POWER_MODE_IDLE,
    sc_idle_tick_count := sc_idle_tick_count s + 1, sc_power_mode := POWER_MODE_DEEP_SLEEP\<rparr>)")
  case True
  show ?thesis unfolding True by (rule task_yield_inv [where c = c]) (simp add: assms)
next
  case False
  then have "sched_rel (scheduler_enter_idle s) L m c"
    using assms by (auto simp: scheduler_enter_idle_def Let_def split: if_splits)
  then show ?thesis by blast
qed

lemma sched_step_inv:
  assumes "sched_step x y" "sched_inv x"
  shows "sched_inv y"
proof -
  obtain s H L m c where x: "x = (s, H)" and rel: "sched_rel s L m c" and H: "H = {t. t < 8 \<and> t \<noteq> m \<and> t \<notin> set (L 6)}"
    using assms(2) by (cases x) (auto simp: sched_inv_def)
  have cm: "sc_current s = Some c" "sc_main_task s = Some m" using sched_relD(2,3) [OF rel] by auto
  have same: "sched_inv (s', H)" if ex: "\<exists>L' c. sched_rel s' L' m c \<and> L' 6 = L 6" for s'
  proof -
    from ex obtain L' c' where "sched_rel s' L' m c'" "L' 6 = L 6" by blast
    then show ?thesis using H sched_invI [of s' L' m c'] by simp
  qed
  have keep: "sched_inv (s', H)" if "sched_rel s' L' m c'" "L' 6 = L 6" for s' L' c'
    using sched_invI [OF that(1)] H that(2) by simp
  from assms(1) show ?thesis unfolding x
  proof (cases rule: sched_step.cases)
    case Start
    then show ?thesis using same scheduler_start_inv rel cm by auto
  next
    case Step
    then show ?thesis using same scheduler_step_inv rel cm by auto
  next
    case (Tick r h s')
    then show ?thesis using same scheduler_tick_inv [OF rel] by auto
  next
    case (Create name entry arg priority sz base ret out s')
    then obtain L' where L': "sched_rel s' L' m c" "out = None \<and> L' 6 = L 6 \<or> (\<exists>t. out = Some t \<and> L 6 = t # L' 6)"
      using task_create_inv [OF rel] by blast
    have "distinct (L 6)" using sched_core_sep [OF sched_relD(1) [OF rel]] by (simp add: lists_sep_def)
    moreover have "\<forall>t\<in>set (L 6). t < 8" "m \<notin> set (L 6)"
      using sched_relD(1) [OF rel] listedI [of 6 _ L] by (auto simp: sched_core_def)
    ultimately have "sched_inv (s', H \<union> set_option out)" using L' H by (intro sched_invI [OF L'(1)]) auto
    then show ?thesis using Create by simp
  next
    case (Delete t ret s')
    show ?thesis
    proof (cases "t = c")
      case True
      then have "task_delete (Some t) s = (-1, s)" using cm by (simp add: task_delete_def)
      then show ?thesis using Delete assms(2) x by auto
    next
      case False
      then have "fst (task_delete (Some t) s) = 0 \<and>
          sched_rel (snd (task_delete (Some t) s)) ((abs_unlist t L)(6 := t # L 6)) m c"
        using Delete H by (intro task_delete_rel [OF rel]) auto
      then have "ret = 0" "sched_rel s' ((abs_unlist t L)(6 := t # L 6)) m c" using Delete by simp_all
      moreover from this(2) have "sched_inv (s', H - {t})" by (rule sched_invI) (use H in auto)
      ultimately show ?thesis using Delete by simp
    qed
  next
    case Yield
    then show ?thesis using same task_yield_inv rel by auto
  next
    case (Sleep t ticks)
    then show ?thesis using keep [OF task_sleep_rel [OF rel, of ticks]] cm by auto
  next
    case (Suspend t)
    then show ?thesis using same task_suspend_inv [OF rel] H by auto
  next
    case (Resume t)
    then show ?thesis using keep [OF task_resume_rel [OF rel, of t]] H sched_rel_prio [OF rel, of t] by auto
  next
    case Exit
    then show ?thesis using keep [OF task_exit_rel [OF rel]] cm by auto
  next
    case Enter_Isr
    then show ?thesis using keep [of _ L] rel by (auto simp: scheduler_enter_isr_def)
  next
    case Exit_Isr
    then show ?thesis using keep [of _ L] rel by (auto simp: scheduler_exit_isr_def Let_def)
  next
    case Enter_Idle
    then show ?thesis using same scheduler_enter_idle_inv [OF rel] by auto
  next
    case Tickless
    then show ?thesis using keep [of _ L] rel by (auto simp: scheduler_tickless_idle_def Let_def)
  next
    case Deep_Sleep
    then show ?thesis using keep [of _ L] rel by (auto simp: scheduler_enter_deep_sleep_def Let_def)
  qed
qed

end
