(* ===== verification/Scheduler_Props.thy ===== *)
theory Scheduler_Props
  imports Scheduler_Steps
begin

text \<open>
  What the scheduler promises to its clients: the invariant, refinement of the list-level
  scheduler, priority, waking and sleeping, and the cases where it departs from its comments.
\<close>

lemma priority_frames [simp]:
  "tk_priority (sc_tasks (switch_to_main s) t) = tk_priority (sc_tasks s t)"
  "tk_priority (sc_tasks (resume_task n s) t) = tk_priority (sc_tasks s t)"
  "tk_priority (sc_tasks (context_switch n s) t) = tk_priority (sc_tasks s t)"
  by (auto simp: switch_to_main_def resume_task_def context_switch_def split: option.split resume_point.split)

lemma task_yield_priority [simp]: "tk_priority (sc_tasks (task_yield s) t) = tk_priority (sc_tasks s t)"
  by (auto simp: task_yield_def scheduler_step_def Let_def split: option.split)

lemma top_prio_same: "top_prio L = Some p \<Longrightarrow> top_prio (L(p := x # xs)) = Some p"
  by (auto simp: top_prio_def split: if_splits)

lemma yield_swap:
  assumes "sched_rel s L m a" "a \<noteq> m" "tk_priority (sc_tasks s a) = p" "top_prio L = Some p" "L p = b # cs"
  shows "sched_rel (task_yield s) (L(p := a # cs)) m b \<and> b \<noteq> m \<and> tk_priority (sc_tasks (task_yield s) b) = p
    \<and> top_prio (L(p := a # cs)) = Some p \<and> (L(p := a # cs)) p = a # cs"
proof -
  have "abs_yield m p (L, a) = (L(p := a # cs), b)" using assms(4,5) by (simp add: abs_yield_def Let_def)
  then have "sched_rel (task_yield s) (L(p := a # cs)) m b" using task_yield_rel [OF assms(1,2)] assms(3) by simp
  moreover have "p < 5" using topD [OF assms(4)] by simp
  then have "b \<noteq> m" "tk_priority (sc_tasks s b) = p"
    using sched_relD(1) [OF assms(1)] listedI [of p b L] assms(5) by (auto simp: sched_core_def)
  ultimately show ?thesis using top_prio_same [OF assms(4)] by simp
qed

lemma yields_alternate:
  assumes "sched_rel s L m a" "a \<noteq> m" "tk_priority (sc_tasks s a) = p" "top_prio L = Some p" "L p = b # cs"
  shows "sched_rel ((task_yield ^^ n) s) (L(p := (if even n then b else a) # cs)) m (if even n then a else b) \<and>
    (if even n then a else b) \<noteq> m \<and> tk_priority (sc_tasks ((task_yield ^^ n) s) (if even n then a else b)) = p"
proof (induction n)
  case 0
  have "L(p := b # cs) = L" using assms(5) by (simp add: fun_eq_iff)
  then show ?case using assms by (simp del: fun_upd_apply)
next
  case (Suc n)
  let ?x = "if even n then a else b" and ?y = "if even n then b else a"
  from yield_swap [of "(task_yield ^^ n) s" "L(p := ?y # cs)" m ?x p ?y cs] Suc top_prio_same [OF assms(4)]
  have "sched_rel (task_yield ((task_yield ^^ n) s)) (L(p := ?x # cs)) m ?y"
    "?y \<noteq> m" "tk_priority (sc_tasks (task_yield ((task_yield ^^ n) s)) ?y) = p" by (simp_all del: fun_upd_apply add: fun_upd_same)
  moreover have "(if even (Suc n) then a else b) = ?y" "(if even (Suc n) then b else a) = ?x" by simp_all
  ultimately show ?case by (simp only: funpow.simps comp_apply simp_thms)
qed

lemma free_add_twice:
  assumes "sc_free_list s = Some t"
  shows "sc_free_list (free_add t s) = Some t" "tk_next (sc_tasks (free_add t s) t) = Some t"
    "tk_prev (sc_tasks (free_add t s) t) = Some t"
  using assms by (simp_all add: free_add_def task_list_add_def)

lemma free_remove_self_loop:
  assumes "sc_free_list s = Some t" "tk_next (sc_tasks s t) = Some t" "tk_prev (sc_tasks s t) = Some t"
  shows "sc_free_list (free_remove t s) = Some t"
  using assms by (simp add: free_remove_def task_list_remove_def Let_def)

lemma task_create_head:
  assumes "sc_free_list s = Some t" "priority \<le> TASK_PRIO_CRITICAL"
  shows "\<exists>s'. task_create name entry arg priority sz (Some b) s = (0, Some t, s') \<and>
    sc_free_list s' = sc_free_list (free_remove t s)"
  using assms
  by (simp add: task_create_def Let_def host_stack_boot_def task_add_to_ready_def upd_task_def split: prod.split)

lemma free_add_head [simp]: "sc_free_list (free_add t s) = Some t"
  by (simp add: free_add_def task_list_add_def Let_def)

lemma task_delete_head:
  assumes "t \<noteq> c" "sc_current s = Some c" "fst (task_delete (Some t) s) = 0"
  shows "sc_free_list (snd (task_delete (Some t) s)) = Some t \<and> sc_current (snd (task_delete (Some t) s)) = Some c
    \<and> tk_state (sc_tasks (snd (task_delete (Some t) s)) t) = TASK_STATE_TERMINATED"
  using assms by (auto simp: task_delete_def Let_def split: task_state.splits)

lemma fold_min: "fold (\<lambda>t w. min (f t) w) xs a = Min (insert a (f ` set xs))"
  for f :: "nat \<Rightarrow> 'a::linorder"
proof (induction xs arbitrary: a)
  case (Cons x xs)
  have "Min (insert (min (f x) a) S) = Min (insert a (insert (f x) S))" if "finite S" for S
    using that by (cases "S = {}") (simp_all add: min.commute min.left_commute min.assoc)
  then show ?case using Cons by simp
qed simp

section \<open>Properties of the scheduler\<close>

text \<open>
  C1: The scheduler invariant. From initialisation, whatever calls the main context, the tasks, the
  timer and interrupts make in whatever order, as long as clients pass only handles of tasks that
  exist, the seven task lists stay well-formed and disjoint doubly linked lists, every listed task
  has the state and priority of its list, every other task is suspended, terminated or running,
  and the running contexts are in no list.
\<close>

theorem scheduler_invariant:
  assumes "sc_last_switched s0 = None" and "scheduler_init e (Some b) s0 = (0, s)"
    and "sched_step\<^sup>*\<^sup>* (s, {7}) (s', H)"
  shows "sched_inv (s', H)"
proof -
  have "sched_rel s init_lists 6 6" using scheduler_init_rel [OF assms(1), of e b] assms(2) by auto
  then have "sched_inv (s, {7})" by (rule sched_invI) (auto simp: init_lists_def)
  with assms(3) show ?thesis
    by (induction rule: rtranclp_induct) (auto intro: sched_step_inv)
qed

definition cold_state :: scheduler where
  "cold_state = \<lparr>sc_tasks = \<lambda>_. tcb_zero, sc_current = None, sc_ready_list = \<lambda>_. None, sc_blocked_list = None,
     sc_free_list = None, sc_tick_count = 0, sc_next_task_id = 0, sc_scheduler_started = False, sc_in_isr = False,
     sc_nesting_level = 0, sc_tickless_idle_enabled = False, sc_next_wake_tick = 0, sc_idle_tick_count = 0,
     sc_power_mode = POWER_MODE_ACTIVE, sc_deep_sleep_min_ticks = 0, sc_caller_context_valid = False,
     sc_main_task = None, sc_last_switched = None, sc_governor = governor_zero, sc_power = power_zero\<rparr>"

definition boot_state :: scheduler where
  "boot_state = snd (scheduler_init 1 (Some 4096) cold_state)"

lemma boot_state:
  "scheduler_init 1 (Some 4096) cold_state = (0, boot_state)" "sched_rel boot_state init_lists 6 6"
  using scheduler_init_rel [of cold_state 1 4096] by (auto simp: boot_state_def cold_state_def)

definition spawn :: "string \<Rightarrow> nat \<Rightarrow> scheduler \<Rightarrow> scheduler" where
  "spawn name priority s = snd (snd (task_create name (Some 2) 0 priority 0 (Some 8192) s))"

lemma spawn_rel:
  assumes "sched_rel s L m c" "priority \<le> 4" "L 6 = t # F" "L' = L(6 := F, priority := t # L priority)"
  shows "sched_rel (spawn name priority s) L' m c"
  using task_create_rel(2) [OF assms(1) _ assms(3), of priority "Some 8192" 8192 name "Some 2" 0 0] assms(2,4)
  by (auto simp: spawn_def)

lemma spawn_step: "\<exists>H'. sched_step (s, H) (spawn n p s, H')"
  by (cases "task_create n (Some 2) 0 p 0 (Some 8192) s") (auto simp: spawn_def intro: sched_step.Create)

text \<open>Three tasks of normal priority, created but not yet started.\<close>

definition three_tasks :: scheduler where
  "three_tasks = spawn ''c'' 2 (spawn ''b'' 2 (spawn ''a'' 2 boot_state))"

definition three_lists :: "nat list \<Rightarrow> nat list \<Rightarrow> nat \<Rightarrow> nat list" where
  "three_lists rs fs k = (if k = 0 then [7] else if k = 2 then rs else if k = 6 then fs else [])"

lemma three_tasks_rel: "sched_rel three_tasks (three_lists [3, 4, 5] [2, 1, 0]) 6 6"
proof -
  have "sched_rel (spawn ''a'' 2 boot_state) (three_lists [5] [4, 3, 2, 1, 0]) 6 6"
    by (rule spawn_rel [OF boot_state(2)]) (auto simp: init_lists_def three_lists_def fun_eq_iff)
  then have "sched_rel (spawn ''b'' 2 (spawn ''a'' 2 boot_state)) (three_lists [4, 5] [3, 2, 1, 0]) 6 6"
    by (rule spawn_rel) (auto simp: three_lists_def fun_eq_iff)
  then show ?thesis unfolding three_tasks_def by (rule spawn_rel) (auto simp: three_lists_def fun_eq_iff)
qed

theorem scheduler_invariant_witness: "\<exists>H. sched_inv (three_tasks, H)"
proof -
  obtain H1 where 1: "sched_step (boot_state, {7}) (spawn ''a'' 2 boot_state, H1)" using spawn_step by blast
  obtain H2 where 2: "sched_step (spawn ''a'' 2 boot_state, H1) (spawn ''b'' 2 (spawn ''a'' 2 boot_state), H2)"
    using spawn_step by blast
  obtain H3 where 3: "sched_step (spawn ''b'' 2 (spawn ''a'' 2 boot_state), H2) (three_tasks, H3)"
    using spawn_step unfolding three_tasks_def by blast
  have "sched_step\<^sup>*\<^sup>* (boot_state, {7}) (three_tasks, H3)"
    by (rule rtranclp.rtrancl_into_rtrancl [where r = sched_step, OF _ 3],
        rule rtranclp.rtrancl_into_rtrancl [where r = sched_step, OF _ 2],
        rule rtranclp.rtrancl_into_rtrancl [where r = sched_step, OF _ 1], rule rtranclp.rtrancl_refl)
  from scheduler_invariant [OF _ boot_state(1) this] show ?thesis by (auto simp: cold_state_def)
qed

text \<open>
  C5: Refinement. The pointer-level scheduler implements the list-level one: stepping from the main
  context, yielding, sleeping, suspending and returning from a task change the lists and the
  running context exactly as the abstract dispatch and yield rules say.
\<close>

theorem scheduler_refines_lists:
  assumes "sched_rel s L m c"
  shows "(c = m \<and> sc_scheduler_started s \<longrightarrow>
      sched_rel (snd (scheduler_step s)) (fst (abs_dispatch m L)) m (snd (abs_dispatch m L)))
    \<and> (c \<noteq> m \<longrightarrow>
      sched_rel (task_yield s) (fst (abs_yield m (tk_priority (sc_tasks s c)) (L, c))) m
        (snd (abs_yield m (tk_priority (sc_tasks s c)) (L, c)))
    \<and> sched_rel (task_suspend (Some c) s) (fst (abs_dispatch m L)) m (snd (abs_dispatch m L))
    \<and> sched_rel (task_sleep_task c ticks s) (L(5 := c # L 5)) m m
    \<and> sched_rel (task_trampoline_exit s) L m m)
    \<and> (t < 8 \<and> t \<noteq> m \<and> t \<noteq> c \<and> t \<notin> set (L 6) \<longrightarrow>
      sched_rel (task_suspend (Some t) s) (abs_unlist t L) m c
    \<and> sched_rel (snd (task_delete (Some t) s)) ((abs_unlist t L)(6 := t # L 6)) m c)"
  using scheduler_step_rel [of s L m] task_yield_rel [OF assms] task_suspend_self_rel [OF assms]
    task_sleep_rel [OF assms, of ticks] task_exit_rel [OF assms] task_suspend_other_rel [OF assms, of t]
    task_delete_rel [OF assms, of t] assms
  by (auto simp del: fun_upd_apply)

theorem scheduler_refines_lists_witness:
  "sched_rel (task_suspend (Some 4) three_tasks) (abs_unlist 4 (three_lists [3, 4, 5] [2, 1, 0])) 6 6"
  using scheduler_refines_lists [OF three_tasks_rel, of 0 4] by (simp add: three_lists_def)

text \<open>
  Priority. A step of the main context runs a task whose priority is at least that of every
  ready task, and leaves the main context running only when nothing above the idle priority is
  ready.
\<close>

theorem scheduler_step_highest:
  assumes "sched_rel s L m m" and "sc_scheduler_started s"
  shows "\<exists>c. sc_current (snd (scheduler_step s)) = Some c \<and>
    (c = m \<longrightarrow> (\<forall>p. 0 < p \<and> p < 5 \<longrightarrow> L p = [])) \<and>
    (c \<noteq> m \<longrightarrow> tk_state (sc_tasks (snd (scheduler_step s)) c) = TASK_STATE_RUNNING \<and>
      (\<forall>p<5. \<forall>t\<in>set (L p). p \<le> tk_priority (sc_tasks s c)))"
proof (cases "top_prio L")
  case None
  then have "sc_current (snd (scheduler_step s)) = Some m"
    using scheduler_step_rel [OF assms] by (simp add: abs_dispatch_def sched_rel_def)
  then show ?thesis using topN [OF None] by auto
next
  case (Some p)
  have p: "p < 5" "hd (L p) \<in> set (L p)" using topD [OF Some] by auto
  have r: "sched_rel (snd (scheduler_step s)) (L(p := tl (L p))) m (hd (L p))"
    using scheduler_step_rel [OF assms] Some by (simp add: abs_dispatch_def)
  have "tk_priority (sc_tasks s (hd (L p))) = p" "hd (L p) \<noteq> m"
    using sched_relD(1) [OF assms(1)] p listedI [of p "hd (L p)" L] by (auto simp: sched_core_def)
  moreover have "q \<le> p" if "q < 5" "t \<in> set (L q)" for q t
    using topD [OF Some] that by (metis empty_iff empty_set not_le)
  ultimately show ?thesis using sched_relD(2,8) [OF r] by auto
qed

lemma three_started: "sched_rel (three_tasks\<lparr>sc_scheduler_started := True\<rparr>) (three_lists [3, 4, 5] [2, 1, 0]) 6 6"
  using three_tasks_rel by simp

theorem scheduler_step_highest_witness:
  "\<exists>c. sc_current (snd (scheduler_step (three_tasks\<lparr>sc_scheduler_started := True\<rparr>))) = Some c \<and> c \<noteq> 6"
proof -
  have "(\<forall>p. 0 < p \<and> p < 5 \<longrightarrow> three_lists [3, 4, 5] [2, 1, 0] p = []) = False"
    by (auto simp: three_lists_def intro!: exI [of _ 2])
  then show ?thesis using scheduler_step_highest [OF three_started] by auto
qed

lemma tick_states:
  assumes "sched_rel s L m c"
  shows "\<exists>s'. scheduler_tick r h s = Some s' \<and> sc_tick_count s' = sc_tick_count s + 1 \<and>
    (\<forall>t\<in>set (L 5). tk_state (sc_tasks s' t) =
      (if tk_wake_time (sc_tasks s t) \<le> sc_tick_count s + 1 then TASK_STATE_READY else TASK_STATE_BLOCKED)) \<and>
    sc_next_wake_tick s' = fold (\<lambda>t w. min (tk_wake_time (sc_tasks s t)) w)
      (filter (\<lambda>t. \<not> sc_tick_count s + 1 \<ge> tk_wake_time (sc_tasks s t)) (L 5)) UINT32_MAX"
proof -
  let ?D = "\<lambda>t. sc_tick_count s + 1 \<ge> tk_wake_time (sc_tasks s t)"
  let ?P = "\<lambda>t. tk_priority (sc_tasks s t)"
  obtain s' where s': "scheduler_tick r h s = Some s'" "sched_rel s' (abs_tick ?D ?P [] (L 5) L) m c"
    "sc_tick_count s' = sc_tick_count s + 1"
    "sc_next_wake_tick s' = fold (\<lambda>t w. min (tk_wake_time (sc_tasks s t)) w) (filter (\<lambda>t. \<not> ?D t) (L 5)) UINT32_MAX"
    using scheduler_tick_rel [OF assms refl refl, of r h] by (elim exE conjE) (rule that)
  have st: "tk_state (sc_tasks s' t) = (if ?D t then TASK_STATE_READY else TASK_STATE_BLOCKED)" if t: "t \<in> set (L 5)" for t
  proof (cases "?D t")
    case True
    have "?P t < 5" using sched_rel_prio [OF assms] .
    then show ?thesis using s'(2) True t by (auto simp: sched_rel_def sched_core_def abs_tick_def)
  next
    case False
    then show ?thesis using s'(2) t by (auto simp: sched_rel_def sched_core_def abs_tick_def)
  qed
  show ?thesis using s' st by (intro exI [of _ s'] conjI ballI) simp_all
qed

text \<open>
  C23: Waking. A tick always returns; it makes ready exactly the sleeping tasks whose wake time has
  been reached, and the next wake time it records is the least wake time of the tasks that still
  sleep.
\<close>

theorem scheduler_tick_wakes:
  assumes "sched_rel s L m c"
  shows "\<exists>s'. scheduler_tick r h s = Some s' \<and> sc_tick_count s' = sc_tick_count s + 1 \<and>
    (\<forall>t\<in>set (L 5). tk_state (sc_tasks s' t) =
      (if tk_wake_time (sc_tasks s t) \<le> sc_tick_count s + 1 then TASK_STATE_READY else TASK_STATE_BLOCKED)) \<and>
    sc_next_wake_tick s' =
      Min (insert UINT32_MAX {w. \<exists>t\<in>set (L 5). w = tk_wake_time (sc_tasks s t) \<and> sc_tick_count s + 1 < w})"
proof -
  have "{w. \<exists>t\<in>set (L 5). w = tk_wake_time (sc_tasks s t) \<and> sc_tick_count s + 1 < w}
      = (\<lambda>t. tk_wake_time (sc_tasks s t)) ` set (filter (\<lambda>t. \<not> sc_tick_count s + 1 \<ge> tk_wake_time (sc_tasks s t)) (L 5))"
    by (auto simp: not_le)
  then show ?thesis using tick_states [OF assms, of r h] by (simp only: fold_min)
qed

lemma top_three: "rs \<noteq> [] \<Longrightarrow> top_prio (three_lists rs fs) = Some 2"
  by (simp add: top_prio_def three_lists_def)

text \<open>The first of the three tasks running.\<close>

definition one_running :: scheduler where
  "one_running = snd (scheduler_step (three_tasks\<lparr>sc_scheduler_started := True\<rparr>))"

lemma one_running_rel: "sched_rel one_running (three_lists [4, 5] [2, 1, 0]) 6 3"
proof -
  have "abs_dispatch 6 (three_lists [3, 4, 5] [2, 1, 0]) = (three_lists [4, 5] [2, 1, 0], 3)"
    by (simp add: abs_dispatch_def top_three) (auto simp: three_lists_def fun_eq_iff)
  then show ?thesis using scheduler_step_rel [OF three_started] by (simp add: one_running_def)
qed

lemma one_asleep_rel: "sched_rel (task_sleep_task 3 n one_running) ((three_lists [4, 5] [2, 1, 0])(5 := [3])) 6 6"
  using task_sleep_rel [OF one_running_rel, of n] by (simp add: three_lists_def)

theorem scheduler_tick_wakes_witness:
  "\<exists>s'. scheduler_tick None None (task_sleep_task 3 5 one_running) = Some s' \<and>
    tk_state (sc_tasks s' 3) =
      (if tk_wake_time (sc_tasks (task_sleep_task 3 5 one_running) 3) \<le> sc_tick_count (task_sleep_task 3 5 one_running) + 1
       then TASK_STATE_READY else TASK_STATE_BLOCKED)"
proof -
  let ?x = "task_sleep_task 3 5 one_running"
  obtain s' where s': "scheduler_tick None None ?x = Some s'"
    "\<forall>t\<in>set (((three_lists [4, 5] [2, 1, 0])(5 := [3])) 5). tk_state (sc_tasks s' t) =
      (if tk_wake_time (sc_tasks ?x t) \<le> sc_tick_count ?x + 1 then TASK_STATE_READY else TASK_STATE_BLOCKED)"
    using scheduler_tick_wakes [OF one_asleep_rel, of None None 5] by (elim exE conjE) (rule that)
  have st: "tk_state (sc_tasks s' 3) =
      (if tk_wake_time (sc_tasks ?x 3) \<le> sc_tick_count ?x + 1 then TASK_STATE_READY else TASK_STATE_BLOCKED)"
    by (rule s'(2) [rule_format]) simp
  show ?thesis by (rule exI [of _ s'], rule conjI, rule s'(1), rule st)
qed

text \<open>
  C35: Yielding is not round-robin. When the running task \<open>a\<close> yields and \<open>b\<close>, of the same priority, is the head of the
  highest ready list, then as long as nothing but yields happens the two alternate for ever: after \<open>n\<close> yields \<open>a\<close> runs if
  \<open>n\<close> is even and the other task \<open>b\<close> if it is odd, and the tasks behind \<open>b\<close> stay in the ready list, in their
  order, and never run.
\<close>

theorem task_yield_starves:
  assumes "sched_rel s L m a" and "a \<noteq> m" and "tk_priority (sc_tasks s a) = p" and "top_prio L = Some p"
    and "L p = b # cs"
  shows "a \<noteq> b \<and> sc_current ((task_yield ^^ n) s) = Some (if even n then a else b) \<and>
    sched_rel ((task_yield ^^ n) s) (L(p := (if even n then b else a) # cs)) m (if even n then a else b)"
proof -
  have r: "sched_rel ((task_yield ^^ n) s) (L(p := (if even n then b else a) # cs)) m (if even n then a else b)"
    using yields_alternate [OF assms, of n] by (rule conjunct1)
  moreover have "p < 5" using topD [OF assms(4)] by simp
  then have "a \<noteq> b" using assms(1,5) listedI [of p b L] by (auto simp: sched_rel_def)
  ultimately show ?thesis using sched_relD(2) [OF r] by (simp del: fun_upd_apply)
qed

theorem task_yield_starves_witness:
  "\<forall>n. sc_current ((task_yield ^^ n) one_running) = Some (if even n then 3 else 4) \<and>
    sched_rel ((task_yield ^^ n) one_running) ((three_lists [4, 5] [2, 1, 0])(2 := (if even n then 4 else 3) # [5])) 6 (if even n then 3 else 4)"
proof -
  have "tk_priority (sc_tasks three_tasks 3) = 2"
    using sched_relD(1) [OF three_tasks_rel] by (auto simp: sched_core_def three_lists_def elim!: allE [of _ 2])
  then have "tk_priority (sc_tasks one_running 3) = 2"
    by (simp add: one_running_def scheduler_step_def Let_def split: option.split)
  moreover have "three_lists [4, 5] [2, 1, 0] 2 = 4 # [5]" by (simp add: three_lists_def)
  ultimately show ?thesis
    using task_yield_starves [OF one_running_rel, of 2 4 "[5]"] top_three [of "[4, 5]"] by (simp del: fun_upd_apply)
qed

text \<open>
  C36: Deleting a task twice. The second deletion of a handle succeeds, and from then on creating
  tasks hands out the same task control block again and again.
\<close>

theorem task_delete_twice:
  assumes "sched_rel s L m c" and "t < 8" and "t \<noteq> m" and "t \<noteq> c" and "t \<notin> set (L 6)"
  shows "\<exists>s1 s2 s3 s4. task_delete (Some t) s = (0, s1) \<and> task_delete (Some t) s1 = (0, s2) \<and>
    task_create n1 e1 a1 1 z1 (Some b1) s2 = (0, Some t, s3) \<and> task_create n2 e2 a2 1 z2 (Some b2) s3 = (0, Some t, s4)"
proof -
  have cur: "sc_current s = Some c" using sched_relD(2) [OF assms(1)] .
  obtain s1 where s1: "task_delete (Some t) s = (0, s1)"
    using task_delete_rel [OF assms(1,3,2,5,4)] by (cases "task_delete (Some t) s") auto
  have h1: "sc_free_list s1 = Some t" "sc_current s1 = Some c" "tk_state (sc_tasks s1 t) = TASK_STATE_TERMINATED"
    using task_delete_head [OF assms(4) cur] s1 by auto
  let ?u = "upd_task t (\<lambda>tcb. tcb\<lparr>tk_stack_base := None, tk_state := TASK_STATE_TERMINATED\<rparr>) s1"
  have s2: "task_delete (Some t) s1 = (0, free_add t ?u)" using h1 assms(4) by (simp add: task_delete_def)
  have loop: "sc_free_list (free_remove t (free_add t ?u)) = Some t"
    using free_remove_self_loop free_add_twice [of ?u t] h1(1) by simp
  obtain s3 where s3: "task_create n1 e1 a1 1 z1 (Some b1) (free_add t ?u) = (0, Some t, s3)" "sc_free_list s3 = Some t"
    using task_create_head [of "free_add t ?u" t 1 n1 e1 a1 z1 b1] loop by auto
  then obtain s4 where "task_create n2 e2 a2 1 z2 (Some b2) s3 = (0, Some t, s4)"
    using task_create_head [of s3 t 1 n2 e2 a2 z2 b2] by auto
  then show ?thesis using s1 s2 s3 by blast
qed

theorem task_delete_twice_witness:
  "\<exists>s1 s2 s3 s4. task_delete (Some 4) one_running = (0, s1) \<and> task_delete (Some 4) s1 = (0, s2) \<and>
    task_create ''x'' None 0 1 0 (Some 64) s2 = (0, Some 4, s3) \<and> task_create ''y'' None 0 1 0 (Some 128) s3 = (0, Some 4, s4)"
  using task_delete_twice [OF one_running_rel, of 4 "''x''" None 0 0 64 "''y''" None 0 0 128] by (simp add: three_lists_def)

text \<open>
  Interrupts after a yield. A task that yields to the main context leaves the lock count raised,
  so the interrupt that is entered and left next does not end: the scheduler stays marked as
  being in an interrupt.
\<close>

theorem exit_isr_after_yield:
  assumes "sched_rel s L m c" and "c \<noteq> m" and "\<not> sc_in_isr s" and "sc_nesting_level s = 0"
    and "top_prio L = None"
  shows "sc_current (task_yield s) = Some m \<and> sc_nesting_level (task_yield s) = 1 \<and>
    sc_in_isr (scheduler_exit_isr (scheduler_enter_isr (task_yield s)))"
proof -
  note r = sched_relD [OF assms(1)]
  let ?u = "upd_task c (\<lambda>tcb. tcb\<lparr>tk_context := In_Yield, tk_context_valid := True, tk_state := TASK_STATE_READY\<rparr>)
    (scheduler_lock s)"
  have u: "sched_core ?u L m {c}" by (rule core_upd_self) (use r(1,6) assms(2) in simp_all)
  have "task_yield s = switch_to_main (task_add_to_ready c ?u)"
    using r assms(2,5) step_pick(1) [OF u] by (simp add: task_yield_def Let_def split: option.splits if_splits)
  then have "sc_nesting_level (task_yield s) = 1" "sc_current (task_yield s) = Some m"
    using assms(3,4) r(3) by (simp_all add: switch_to_main_def scheduler_lock_def)
  then show ?thesis by (simp add: scheduler_exit_isr_def scheduler_enter_isr_def Let_def)
qed

definition single_running :: scheduler where
  "single_running = snd (scheduler_step ((spawn ''a'' 2 boot_state)\<lparr>sc_scheduler_started := True\<rparr>))"

lemma single_running_rel: "sched_rel single_running (three_lists [] [4, 3, 2, 1, 0]) 6 5"
proof -
  have "sched_rel (spawn ''a'' 2 boot_state) (three_lists [5] [4, 3, 2, 1, 0]) 6 6"
    by (rule spawn_rel [OF boot_state(2)]) (auto simp: init_lists_def three_lists_def fun_eq_iff)
  then have s: "sched_rel ((spawn ''a'' 2 boot_state)\<lparr>sc_scheduler_started := True\<rparr>) (three_lists [5] [4, 3, 2, 1, 0]) 6 6"
    by simp
  have "abs_dispatch 6 (three_lists [5] [4, 3, 2, 1, 0]) = (three_lists [] [4, 3, 2, 1, 0], 5)"
    by (simp add: abs_dispatch_def top_three) (auto simp: three_lists_def fun_eq_iff)
  then show ?thesis using scheduler_step_rel [OF s] by (simp add: single_running_def)
qed

theorem exit_isr_after_yield_witness:
  "sc_in_isr (scheduler_exit_isr (scheduler_enter_isr
     (task_yield (single_running\<lparr>sc_in_isr := False, sc_nesting_level := 0\<rparr>))))"
proof -
  have "sched_rel (single_running\<lparr>sc_in_isr := False, sc_nesting_level := 0\<rparr>) (three_lists [] [4, 3, 2, 1, 0]) 6 5"
    using single_running_rel by simp
  moreover have "top_prio (three_lists [] [4, 3, 2, 1, 0]) = None" by (simp add: top_prio_def three_lists_def)
  ultimately show ?thesis using exit_isr_after_yield by simp
qed

fun ticks_from :: "nat \<Rightarrow> scheduler \<Rightarrow> scheduler option" where
  "ticks_from 0 s = Some s"
| "ticks_from (Suc k) s = (case scheduler_tick None None s of None \<Rightarrow> None | Some s' \<Rightarrow> ticks_from k s')"

lemma tick_one:
  assumes "sched_rel s L m c" "t \<in> set (L 5)"
  shows "\<exists>s' L'. scheduler_tick None None s = Some s' \<and> sched_rel s' L' m c \<and> sc_tick_count s' = sc_tick_count s + 1 \<and>
    (if tk_wake_time (sc_tasks s t) \<le> sc_tick_count s + 1 then tk_state (sc_tasks s' t) = TASK_STATE_READY
     else t \<in> set (L' 5) \<and> tk_wake_time (sc_tasks s' t) = tk_wake_time (sc_tasks s t))"
proof -
  let ?D = "\<lambda>t. sc_tick_count s + 1 \<ge> tk_wake_time (sc_tasks s t)"
  let ?P = "\<lambda>t. tk_priority (sc_tasks s t)"
  let ?L = "abs_tick ?D ?P [] (L 5) L"
  obtain s' where s': "scheduler_tick None None s = Some s'" "sched_rel s' ?L m c" "sc_tick_count s' = sc_tick_count s + 1"
    "\<forall>t. tk_wake_time (sc_tasks s' t) = tk_wake_time (sc_tasks s t)"
    using scheduler_tick_rel [OF assms(1) refl refl, of None None] by (elim exE conjE) (rule that)
  have "?P t < 5" using sched_rel_prio [OF assms(1)] .
  then have "?D t \<Longrightarrow> t \<in> set (?L (?P t))" "\<not> ?D t \<Longrightarrow> t \<in> set (?L 5)"
    using assms(2) by (auto simp: abs_tick_def)
  moreover have "t \<in> set (?L p) \<Longrightarrow> p < 5 \<Longrightarrow> tk_state (sc_tasks s' t) = TASK_STATE_READY" for p
    using sched_relD(1) [OF s'(2)] unfolding sched_core_def by blast
  ultimately show ?thesis using s' \<open>?P t < 5\<close> by (intro exI [of _ s'] exI [of _ ?L]) auto
qed

lemma ticks_blocked:
  assumes "sched_rel s L m c" "t \<in> set (L 5)" "unat (tk_wake_time (sc_tasks s t)) = unat (sc_tick_count s) + n" "0 < n"
    and "k \<le> n"
  shows "\<exists>s'. ticks_from k s = Some s' \<and>
    tk_state (sc_tasks s' t) = (if k = n then TASK_STATE_READY else TASK_STATE_BLOCKED)"
  using assms
proof (induction k arbitrary: s L n)
  case 0
  then show ?case using sched_relD(1) [OF 0(1)] by (simp add: sched_core_def)
next
  case (Suc k)
  let ?w = "tk_wake_time (sc_tasks s t)"
  obtain s' L' where s': "scheduler_tick None None s = Some s'" "sched_rel s' L' m c" "sc_tick_count s' = sc_tick_count s + 1"
    "if ?w \<le> sc_tick_count s + 1 then tk_state (sc_tasks s' t) = TASK_STATE_READY
     else t \<in> set (L' 5) \<and> tk_wake_time (sc_tasks s' t) = ?w"
    using tick_one [OF Suc.prems(1,2)] by (elim exE conjE) (rule that)
  have "unat ?w < 2 ^ 32" by (rule u32_bound)
  then have tick: "unat (sc_tick_count s + 1) = unat (sc_tick_count s) + 1"
    using Suc.prems(3,4) u32_add [of "sc_tick_count s" 1] by simp
  show ?case
  proof (cases "n = 1")
    case True
    then have "?w \<le> sc_tick_count s + 1" using tick Suc.prems(3) by (simp add: word_le_nat_alt)
    then show ?thesis using s' True Suc.prems(5) by simp
  next
    case False
    then have nle: "\<not> ?w \<le> sc_tick_count s + 1" using tick Suc.prems(3,4) by (simp add: word_le_nat_alt)
    have "\<exists>s''. ticks_from k s' = Some s'' \<and>
      tk_state (sc_tasks s'' t) = (if k = n - 1 then TASK_STATE_READY else TASK_STATE_BLOCKED)"
      by (rule Suc.IH [OF s'(2)]) (use s'(3,4) nle tick Suc.prems False in auto)
    then show ?thesis using s'(1) Suc.prems(4) by auto
  qed
qed

text \<open>
  C24: Sleeping. A task that sleeps for a number of ticks that does not run past the end of the tick
  counter stays blocked through all but the last of them and is ready after the last one.
\<close>

theorem task_sleep_on_time:
  assumes "sched_rel s L m c" and "c \<noteq> m" and "0 < ticks"
    and "unat (sc_tick_count s) + unat ticks < 2 ^ 32" and "k \<le> unat ticks"
  shows "\<exists>s'. ticks_from k (task_sleep_task c ticks s) = Some s' \<and>
    tk_state (sc_tasks s' c) = (if k = unat ticks then TASK_STATE_READY else TASK_STATE_BLOCKED)"
proof (rule ticks_blocked [OF task_sleep_rel [OF assms(1,2)]])
  have "tk_wake_time (sc_tasks (task_sleep_task c ticks s) c) = sc_tick_count s + ticks"
    "sc_tick_count (task_sleep_task c ticks s) = sc_tick_count s"
    using sched_relD(3) [OF assms(1)] assms(2) by (auto simp: task_sleep_task_def switch_to_main_def Let_def)
  then show "unat (tk_wake_time (sc_tasks (task_sleep_task c ticks s) c)) =
      unat (sc_tick_count (task_sleep_task c ticks s)) + unat ticks"
    using assms(4) by (simp add: u32_add)
  show "0 < unat ticks" using assms(3) by (simp add: unat_gt_0)
qed (use assms in simp_all)

theorem task_sleep_on_time_witness:
  "\<exists>s'. ticks_from 3 (task_sleep_task 3 4 (one_running\<lparr>sc_tick_count := 7\<rparr>)) = Some s' \<and>
    tk_state (sc_tasks s' 3) = TASK_STATE_BLOCKED"
proof -
  have "sched_rel (one_running\<lparr>sc_tick_count := 7\<rparr>) (three_lists [4, 5] [2, 1, 0]) 6 3" using one_running_rel by simp
  from task_sleep_on_time [OF this, of 4 3] show ?thesis by simp
qed

text \<open>
  Sleeping across the wrap of the tick counter. A sleep whose end lies past the last tick count
  is over at the next tick, however long it was meant to be.
\<close>

theorem task_sleep_wrap:
  assumes "sched_rel s L m c" and "c \<noteq> m" and "unat (sc_tick_count s) + unat ticks \<ge> 2 ^ 32"
    and "sc_tick_count s \<noteq> UINT32_MAX"
  shows "\<exists>s'. scheduler_tick r h (task_sleep_task c ticks s) = Some s' \<and> tk_state (sc_tasks s' c) = TASK_STATE_READY"
proof -
  let ?s = "task_sleep_task c ticks s"
  have f: "tk_wake_time (sc_tasks ?s c) = sc_tick_count s + ticks" "sc_tick_count ?s = sc_tick_count s"
    using sched_relD(3) [OF assms(1)] assms(2) by (auto simp: task_sleep_task_def switch_to_main_def Let_def)
  have "unat ticks < 2 ^ 32" "unat (sc_tick_count s) < 2 ^ 32"
    by (rule u32_bound)+
  then have "unat (sc_tick_count s + ticks) < unat (sc_tick_count s)"
    using assms(3) by (simp add: unat_word_ariths mod_if) arith
  moreover have "unat (sc_tick_count s + 1) = unat (sc_tick_count s) + 1"
    using assms(4) by (simp add: u32_inc)
  ultimately have due: "tk_wake_time (sc_tasks ?s c) \<le> sc_tick_count ?s + 1" by (simp add: f word_le_nat_alt)
  obtain s' where s': "scheduler_tick r h ?s = Some s'"
    "\<forall>t\<in>set ((L(5 := c # L 5)) 5). tk_state (sc_tasks s' t) =
      (if tk_wake_time (sc_tasks ?s t) \<le> sc_tick_count ?s + 1 then TASK_STATE_READY else TASK_STATE_BLOCKED)"
    using tick_states [OF task_sleep_rel [OF assms(1,2), of ticks], of r h] by (elim exE conjE) (rule that)
  have "tk_state (sc_tasks s' c) = (if tk_wake_time (sc_tasks ?s c) \<le> sc_tick_count ?s + 1 then TASK_STATE_READY else TASK_STATE_BLOCKED)"
    by (rule s'(2) [rule_format]) simp
  then show ?thesis using due s'(1) by simp
qed

theorem task_sleep_wrap_witness:
  "\<exists>s'. scheduler_tick None None (task_sleep_task 3 0x10000 (one_running\<lparr>sc_tick_count := 0xFFFF8000\<rparr>)) = Some s' \<and>
    tk_state (sc_tasks s' 3) = TASK_STATE_READY"
proof -
  have "sched_rel (one_running\<lparr>sc_tick_count := 0xFFFF8000\<rparr>) (three_lists [4, 5] [2, 1, 0]) 6 3" using one_running_rel by simp
  from task_sleep_wrap [OF this, of "0x10000" None None] show ?thesis by simp
qed

definition hands_back :: "nat \<Rightarrow> (scheduler \<Rightarrow> scheduler option) \<Rightarrow> bool" where
  "hands_back m run \<longleftrightarrow> (\<forall>s L c. sched_rel s L m c \<longrightarrow>
    (\<exists>s' L'. run s = Some s' \<and> sched_rel s' L' m m \<and> sc_tick_count s' = sc_tick_count s))"

lemma step_tick_count [simp]:
  "sc_tick_count (snd (scheduler_step s)) = sc_tick_count s"
  by (auto simp: scheduler_step_def context_switch_def switch_to_main_def resume_task_def Let_def
      split: option.split resume_point.split)

lemma main_sleep_loop_returns:
  assumes "hands_back m run" "sched_rel s L m m" "unat until = unat (sc_tick_count s) + n"
  shows "\<exists>s' L'. main_sleep_loop run temps until s = Some s' \<and> sched_rel s' L' m m \<and> sc_tick_count s' = until"
  using assms(2,3)
proof (induction n arbitrary: s L)
  case 0
  then have "sc_tick_count s = until" by (simp add: word_unat_eq_iff)
  then show ?case using 0(1) by (subst main_sleep_loop.simps) auto
next
  case (Suc n)
  let ?r = "fst (temps (sc_tick_count s))" and ?h = "snd (temps (sc_tick_count s))"
  have less: "sc_tick_count s < until" using Suc.prems(2) by (simp add: word_less_nat_alt)
  obtain s1 L1 where s1: "scheduler_tick ?r ?h s = Some s1" "sched_rel s1 L1 m m" "sc_tick_count s1 = sc_tick_count s + 1"
    using scheduler_tick_rel [OF Suc.prems(1) refl refl, of ?r ?h] by (elim exE conjE) (rule that)
  obtain L2 c where "sched_rel (snd (scheduler_step s1)) L2 m c" using scheduler_step_inv [OF s1(2)] by blast
  then obtain s2 L3 where s2: "run (snd (scheduler_step s1)) = Some s2" "sched_rel s2 L3 m m" "sc_tick_count s2 = sc_tick_count s1"
    using assms(1) unfolding hands_back_def step_tick_count by (metis step_tick_count)
  have "unat (sc_tick_count s + 1) = unat (sc_tick_count s) + 1"
    using Suc.prems(2) u32_bound [of until] u32_add [of "sc_tick_count s" 1] by simp
  then have "unat until = unat (sc_tick_count s2) + n" using Suc.prems(2) s1(3) s2(3) by simp
  from Suc.IH [OF s2(2) this] show ?case using less s1(1) s2(1) by (subst main_sleep_loop.simps) simp
qed

text \<open>
  C25: The main context sleeping. As long as each task that a step starts hands control back, a
  sleep of the main context returns, with the tick count advanced by exactly the requested
  number, when that count does not run past the end of the tick counter.
\<close>

theorem task_sleep_main_returns:
  assumes "sched_rel s L m m" and "hands_back m run" and "unat (sc_tick_count s) + unat ticks < 2 ^ 32"
  shows "\<exists>s'. task_sleep run temps ticks s = Some s' \<and> sc_tick_count s' = sc_tick_count s + ticks"
proof -
  have "unat (sc_tick_count s + ticks) = unat (sc_tick_count s) + unat ticks" using assms(3) by (rule u32_add)
  from main_sleep_loop_returns [OF assms(2,1) this, of temps]
  show ?thesis using sched_relD(2,3) [OF assms(1)] by (auto simp: task_sleep_def)
qed

text \<open>Tasks that run to completion whenever they are started.\<close>

definition run_to_exit :: "scheduler \<Rightarrow> scheduler option" where
  "run_to_exit s = Some (if sc_current s = sc_main_task s then s else task_trampoline_exit s)"

lemma run_to_exit_hands_back: "hands_back m run_to_exit"
  unfolding hands_back_def
proof (intro allI impI)
  fix s L c
  assume rel: "sched_rel s L m c"
  show "\<exists>s' L'. run_to_exit s = Some s' \<and> sched_rel s' L' m m \<and> sc_tick_count s' = sc_tick_count s"
  proof (cases "c = m")
    case True
    then show ?thesis using rel sched_relD(2,3) [OF rel] by (auto simp: run_to_exit_def)
  next
    case False
    then have "run_to_exit s = Some (task_trampoline_exit s)" "sc_tick_count (task_trampoline_exit s) = sc_tick_count s"
      using sched_relD(2,3) [OF rel] by (simp_all add: run_to_exit_def task_trampoline_exit_def switch_to_main_def)
    then show ?thesis using task_exit_rel [OF rel False] by blast
  qed
qed

theorem task_sleep_main_returns_witness:
  "\<exists>s'. task_sleep run_to_exit (\<lambda>_. (None, None)) 20 (three_tasks\<lparr>sc_scheduler_started := True, sc_tick_count := 5\<rparr>) = Some s'
    \<and> sc_tick_count s' = 25"
proof -
  have "sched_rel (three_tasks\<lparr>sc_scheduler_started := True, sc_tick_count := 5\<rparr>) (three_lists [3, 4, 5] [2, 1, 0]) 6 6"
    using three_tasks_rel by simp
  from task_sleep_main_returns [OF this run_to_exit_hands_back, of 20 "\<lambda>_. (None, None)"] show ?thesis by simp
qed

end
