(* ===== verification/Tlsf_Alloc.thy ===== *)
theory Tlsf_Alloc
  imports Linked_Lists
begin

text \<open>
  The heap allocator of \<^verbatim>\<open>kernel/alloc.c\<close> for a 32-bit target (\<open>sizeof(block_header_t)\<close> is 28,
  \<open>sizeof(tlsf_pool_t)\<close> is 152, \<open>size_t\<close> has 32 bits). Addresses and sizes are natural numbers
  below \<open>2 ^ 32\<close>, and the additions and subtractions of the C code that can wrap are written with
  \<open>uadd\<close> and \<open>usub\<close>. The memory is a function from addresses to block headers; an address where
  no header was written holds the zero header. The data bytes of the blocks are not modelled, but
  \<open>tlsf_realloc\<close> and \<open>os_calloc\<close> report the bytes they write.
\<close>

definition TLSF_SIGNATURE :: nat where [simp]: "TLSF_SIGNATURE = 0x544C5346"
definition TLSF_BLOCK_FREE :: u8 where [simp]: "TLSF_BLOCK_FREE = 1"
definition TLSF_BLOCK_USED :: u8 where [simp]: "TLSF_BLOCK_USED = 2"
definition TLSF_BLOCK_ALIGN :: nat where [simp]: "TLSF_BLOCK_ALIGN = 4"
definition BLOCK_OVERHEAD :: nat where [simp]: "BLOCK_OVERHEAD = 28"
definition MIN_BLOCK_SIZE :: nat where [simp]: "MIN_BLOCK_SIZE = BLOCK_OVERHEAD + TLSF_BLOCK_ALIGN"
definition POOL_SIZE :: nat where [simp]: "POOL_SIZE = 152"

record block_header =
  bh_signature :: nat
  bh_size :: nat
  bh_flags :: u8
  bh_prev_free :: "nat option"
  bh_next_free :: "nat option"
  bh_prev_phys :: "nat option"
  bh_next_phys :: "nat option"

record tlsf_pool =
  tp_signature :: nat
  tp_total_size :: nat
  tp_used_size :: nat
  tp_min_free :: nat
  tp_free_list :: "nat \<Rightarrow> nat option"
  tp_block_list :: "nat option"
  tp_memory :: nat
  tp_mem :: "nat \<Rightarrow> block_header"

definition uadd :: "nat \<Rightarrow> nat \<Rightarrow> nat" where
  "uadd a b = (a + b) mod 2 ^ 32"

definition usub :: "nat \<Rightarrow> nat \<Rightarrow> nat" where
  "usub a b = (a + (2 ^ 32 - b mod 2 ^ 32)) mod 2 ^ 32"

text \<open>\<open>ALIGN_UP\<close> for an alignment that is a power of two.\<close>

definition ALIGN_UP :: "nat \<Rightarrow> nat \<Rightarrow> nat" where
  "ALIGN_UP x a = uadd x (a - 1) div a * a"

definition upd_block :: "nat \<Rightarrow> (block_header \<Rightarrow> block_header) \<Rightarrow> tlsf_pool \<Rightarrow> tlsf_pool" where
  "upd_block b f p = p\<lparr>tp_mem := (tp_mem p)(b := f (tp_mem p b))\<rparr>"

section \<open>Buckets\<close>

definition tlsf_fls :: "nat \<Rightarrow> nat" where
  "tlsf_fls x =
    (let (x, r) = (if x \<ge> 0x10000 then (x div 2 ^ 16, 16) else (x, 0));
         (x, r) = (if x \<ge> 0x100 then (x div 2 ^ 8, r + 8) else (x, r));
         (x, r) = (if x \<ge> 0x10 then (x div 2 ^ 4, r + 4) else (x, r));
         (x, r) = (if x \<ge> 0x4 then (x div 2 ^ 2, r + 2) else (x, r))
     in if x \<ge> 0x2 then r + 1 else r)"

definition tlsf_get_fl_index :: "nat \<Rightarrow> nat" where
  "tlsf_get_fl_index size' = tlsf_fls (size' mod 2 ^ 32)"

definition tlsf_get_index :: "nat \<Rightarrow> nat" where
  "tlsf_get_index size' = (let fl = tlsf_get_fl_index size' in if fl \<ge> 32 then 31 else fl)"

definition block_from_ptr :: "nat \<Rightarrow> nat" where
  "block_from_ptr ptr = usub ptr BLOCK_OVERHEAD"

definition ptr_from_block :: "nat \<Rightarrow> nat" where
  "ptr_from_block block = uadd block BLOCK_OVERHEAD"

definition block_insert_free :: "nat \<Rightarrow> tlsf_pool \<Rightarrow> tlsf_pool" where
  "block_insert_free block p =
    (let idx = tlsf_get_index (bh_size (tp_mem p block));
         h = tp_free_list p idx;
         p = upd_block block (\<lambda>b. b\<lparr>bh_flags := bh_flags b OR TLSF_BLOCK_FREE, bh_next_free := h, bh_prev_free := None\<rparr>) p;
         p = (case h of Some y \<Rightarrow> upd_block y (\<lambda>b. b\<lparr>bh_prev_free := Some block\<rparr>) p | None \<Rightarrow> p)
     in p\<lparr>tp_free_list := (tp_free_list p)(idx := Some block)\<rparr>)"

definition block_remove_free :: "nat \<Rightarrow> tlsf_pool \<Rightarrow> tlsf_pool" where
  "block_remove_free block p =
    (let idx = tlsf_get_index (bh_size (tp_mem p block));
         p = (case bh_prev_free (tp_mem p block) of
                Some q \<Rightarrow> upd_block q (\<lambda>b. b\<lparr>bh_next_free := bh_next_free (tp_mem p block)\<rparr>) p
              | None \<Rightarrow> p\<lparr>tp_free_list := (tp_free_list p)(idx := bh_next_free (tp_mem p block))\<rparr>);
         p = (case bh_next_free (tp_mem p block) of
                Some n \<Rightarrow> upd_block n (\<lambda>b. b\<lparr>bh_prev_free := bh_prev_free (tp_mem p block)\<rparr>) p
              | None \<Rightarrow> p)
     in upd_block block (\<lambda>b. b\<lparr>bh_flags := bh_flags b AND NOT TLSF_BLOCK_FREE\<rparr>) p)"

section \<open>Splitting and merging\<close>

definition block_split :: "nat \<Rightarrow> nat \<Rightarrow> tlsf_pool \<Rightarrow> tlsf_pool" where
  "block_split block size' p =
    (let remaining = usub (usub (bh_size (tp_mem p block)) size') BLOCK_OVERHEAD in
     if remaining < MIN_BLOCK_SIZE then p
     else
       let new_block = uadd block (size' + BLOCK_OVERHEAD);
           nxt = bh_next_phys (tp_mem p block);
           p = upd_block new_block (\<lambda>b. b\<lparr>bh_signature := TLSF_SIGNATURE, bh_size := remaining, bh_flags := 0,
                 bh_prev_phys := Some block, bh_next_phys := nxt\<rparr>) p;
           p = (case nxt of Some n \<Rightarrow> upd_block n (\<lambda>b. b\<lparr>bh_prev_phys := Some new_block\<rparr>) p | None \<Rightarrow> p);
           p = upd_block block (\<lambda>b. b\<lparr>bh_next_phys := Some new_block, bh_size := size'\<rparr>) p
       in block_insert_free new_block p)"

text \<open>The block absorbs its physical successor \<open>nxt\<close>.\<close>

definition block_absorb :: "nat \<Rightarrow> nat \<Rightarrow> tlsf_pool \<Rightarrow> tlsf_pool" where
  "block_absorb block nxt p =
    (let nn = bh_next_phys (tp_mem p nxt);
         p = upd_block block (\<lambda>b. b\<lparr>bh_size := uadd (bh_size b) (BLOCK_OVERHEAD + bh_size (tp_mem p nxt)), bh_next_phys := nn\<rparr>) p
     in case nn of Some n \<Rightarrow> upd_block n (\<lambda>b. b\<lparr>bh_prev_phys := Some block\<rparr>) p | None \<Rightarrow> p)"

definition is_free :: "tlsf_pool \<Rightarrow> nat \<Rightarrow> bool" where
  "is_free p b \<longleftrightarrow> bh_flags (tp_mem p b) AND TLSF_BLOCK_FREE \<noteq> 0"

definition block_merge :: "nat \<Rightarrow> tlsf_pool \<Rightarrow> nat \<times> tlsf_pool" where
  "block_merge block p =
    (let (block, p) = (case bh_prev_phys (tp_mem p block) of
           Some prev \<Rightarrow>
             if is_free p prev then (prev, block_absorb prev block (block_remove_free prev p)) else (block, p)
         | None \<Rightarrow> (block, p))
     in case bh_next_phys (tp_mem p block) of
          Some nxt \<Rightarrow>
            if is_free p nxt then (block, block_absorb block nxt (block_remove_free nxt p)) else (block, p)
        | None \<Rightarrow> (block, p))"

section \<open>The pool\<close>

definition header_zero :: block_header where
  "header_zero = \<lparr>bh_signature = 0, bh_size = 0, bh_flags = 0, bh_prev_free = None, bh_next_free = None,
     bh_prev_phys = None, bh_next_phys = None\<rparr>"

definition tlsf_create :: "nat \<Rightarrow> nat \<Rightarrow> tlsf_pool option" where
  "tlsf_create mem bytes =
    (if mem = 0 \<or> bytes < POOL_SIZE + MIN_BLOCK_SIZE then None
     else
       let total_size = bytes - POOL_SIZE;
           block = mem + POOL_SIZE;
           p = \<lparr>tp_signature = TLSF_SIGNATURE, tp_total_size = total_size, tp_used_size = 0, tp_min_free = total_size,
                tp_free_list = \<lambda>_. None, tp_block_list = Some block, tp_memory = block, tp_mem = \<lambda>_. header_zero\<rparr>;
           p = upd_block block (\<lambda>b. b\<lparr>bh_signature := TLSF_SIGNATURE, bh_size := total_size - BLOCK_OVERHEAD, bh_flags := 0,
                 bh_prev_phys := None, bh_next_phys := None\<rparr>) p
       in Some (block_insert_free block p))"

partial_function (option) free_list_size :: "nat option \<Rightarrow> nat \<Rightarrow> tlsf_pool \<Rightarrow> nat option" where
  "free_list_size block acc p =
    (case block of
       None \<Rightarrow> Some acc
     | Some b \<Rightarrow> free_list_size (bh_next_free (tp_mem p b)) (uadd acc (bh_size (tp_mem p b) + BLOCK_OVERHEAD)) p)"

fun pool_free_loop :: "nat list \<Rightarrow> nat \<Rightarrow> tlsf_pool \<Rightarrow> nat option" where
  "pool_free_loop [] acc p = Some acc"
| "pool_free_loop (i # js) acc p =
    (case free_list_size (tp_free_list p i) acc p of None \<Rightarrow> None | Some acc \<Rightarrow> pool_free_loop js acc p)"

definition tlsf_pool_free_size :: "tlsf_pool \<Rightarrow> nat option" where
  "tlsf_pool_free_size p = pool_free_loop [0..<32] 0 p"

definition tlsf_pool_used_size :: "tlsf_pool option \<Rightarrow> nat" where
  "tlsf_pool_used_size p = (case p of None \<Rightarrow> 0 | Some p \<Rightarrow> tp_used_size p)"

definition tlsf_pool_total_size :: "tlsf_pool option \<Rightarrow> nat" where
  "tlsf_pool_total_size p = (case p of None \<Rightarrow> 0 | Some p \<Rightarrow> tp_total_size p)"

partial_function (option) scan_bucket :: "nat \<Rightarrow> nat option \<Rightarrow> tlsf_pool \<Rightarrow> nat option option" where
  "scan_bucket total_size block p =
    (case block of
       None \<Rightarrow> Some None
     | Some b \<Rightarrow>
         if bh_size (tp_mem p b) < total_size then scan_bucket total_size (bh_next_free (tp_mem p b)) p else Some (Some b))"

fun malloc_find :: "nat list \<Rightarrow> nat \<Rightarrow> nat \<Rightarrow> tlsf_pool \<Rightarrow> nat option option" where
  "malloc_find [] start total_size p = Some None"
| "malloc_find (fl # fls) start total_size p =
    (case (if fl = start then scan_bucket total_size (tp_free_list p fl) p else Some (tp_free_list p fl)) of
       None \<Rightarrow> None
     | Some (Some b) \<Rightarrow> Some (Some b)
     | Some None \<Rightarrow> malloc_find fls start total_size p)"

definition malloc_take :: "nat \<Rightarrow> nat \<Rightarrow> tlsf_pool \<Rightarrow> (nat option \<times> tlsf_pool) option" where
  "malloc_take block size' p =
    (let total_size = uadd size' BLOCK_OVERHEAD;
         p = block_remove_free block p;
         p = (if bh_size (tp_mem p block) \<ge> uadd total_size MIN_BLOCK_SIZE then block_split block size' p else p);
         p = upd_block block (\<lambda>b. b\<lparr>bh_flags := bh_flags b OR TLSF_BLOCK_USED\<rparr>) p;
         p = p\<lparr>tp_used_size := uadd (tp_used_size p) (bh_size (tp_mem p block) + BLOCK_OVERHEAD)\<rparr>
     in case tlsf_pool_free_size p of
          None \<Rightarrow> None
        | Some free \<Rightarrow>
            Some (Some (ptr_from_block block), if free < tp_min_free p then p\<lparr>tp_min_free := free\<rparr> else p))"

definition tlsf_malloc :: "nat \<Rightarrow> tlsf_pool \<Rightarrow> (nat option \<times> tlsf_pool) option" where
  "tlsf_malloc size0 p =
    (if size0 = 0 then Some (None, p)
     else
       let size' = ALIGN_UP size0 TLSF_BLOCK_ALIGN;
           total_size = uadd size' BLOCK_OVERHEAD;
           start = tlsf_get_index total_size
       in case malloc_find [start..<32] start total_size p of
            None \<Rightarrow> None
          | Some None \<Rightarrow> Some (None, p)
          | Some (Some block) \<Rightarrow> malloc_take block size' p)"

definition tlsf_free :: "nat option \<Rightarrow> tlsf_pool \<Rightarrow> tlsf_pool" where
  "tlsf_free ptr p =
    (case ptr of
       None \<Rightarrow> p
     | Some a \<Rightarrow>
         let block = block_from_ptr a in
         if bh_signature (tp_mem p block) \<noteq> TLSF_SIGNATURE then p
         else if bh_flags (tp_mem p block) AND TLSF_BLOCK_USED = 0 then p
         else
           let p = upd_block block (\<lambda>b. b\<lparr>bh_flags := bh_flags b AND NOT TLSF_BLOCK_USED\<rparr>) p;
               p = p\<lparr>tp_used_size := usub (tp_used_size p) (bh_size (tp_mem p block) + BLOCK_OVERHEAD)\<rparr>
           in case block_merge block p of (block, p) \<Rightarrow> block_insert_free block p)"

text \<open>The split of an allocated block at an aligned address inside it.\<close>

definition memalign_split :: "nat \<Rightarrow> nat \<Rightarrow> nat \<Rightarrow> tlsf_pool \<Rightarrow> nat \<times> tlsf_pool" where
  "memalign_split block offset size' p =
    (let new_block = uadd block offset;
         p = block_remove_free block p;
         nxt = bh_next_phys (tp_mem p block);
         p = upd_block new_block (\<lambda>b. b\<lparr>bh_signature := TLSF_SIGNATURE,
               bh_size := usub (bh_size (tp_mem p block)) offset, bh_flags := 0,
               bh_prev_phys := Some block, bh_next_phys := nxt\<rparr>) p;
         p = (case nxt of Some n \<Rightarrow> upd_block n (\<lambda>b. b\<lparr>bh_prev_phys := Some new_block\<rparr>) p | None \<Rightarrow> p);
         p = upd_block block (\<lambda>b. b\<lparr>bh_next_phys := Some new_block, bh_size := usub offset BLOCK_OVERHEAD\<rparr>) p;
         p = block_insert_free block p;
         p = upd_block new_block (\<lambda>b. b\<lparr>bh_flags := bh_flags b OR TLSF_BLOCK_USED\<rparr>) p;
         p = p\<lparr>tp_used_size := uadd (tp_used_size p) (bh_size (tp_mem p new_block) + BLOCK_OVERHEAD)\<rparr>;
         p = (if bh_size (tp_mem p new_block) \<ge> uadd size' MIN_BLOCK_SIZE then block_split new_block size' p else p)
     in (ptr_from_block new_block, p))"

text \<open>The alignment test \<open>(align & (align - 1)) != 0\<close> is written with words.\<close>

definition tlsf_memalign :: "nat \<Rightarrow> nat \<Rightarrow> tlsf_pool \<Rightarrow> (nat option \<times> tlsf_pool) option" where
  "tlsf_memalign align0 size0 p =
    (if size0 = 0 then Some (None, p)
     else if (of_nat align0 :: u32) AND (of_nat align0 - 1) \<noteq> 0 then Some (None, p)
     else
       let size' = ALIGN_UP size0 TLSF_BLOCK_ALIGN;
           align = ALIGN_UP align0 TLSF_BLOCK_ALIGN
       in case tlsf_malloc (uadd (uadd size' (2 * align)) MIN_BLOCK_SIZE) p of
            None \<Rightarrow> None
          | Some (None, p) \<Rightarrow> Some (None, p)
          | Some (Some raw, p) \<Rightarrow>
              let aligned = ALIGN_UP raw align;
                  offset = usub aligned raw;
                  offset = (if offset \<noteq> 0 \<and> offset < MIN_BLOCK_SIZE then uadd offset align else offset)
              in if offset = 0 then Some (Some raw, p)
                 else case memalign_split (block_from_ptr raw) offset size' p of (ptr, p) \<Rightarrow> Some (Some ptr, p))"

text \<open>
  Reallocation. The last component of the result is the copy \<open>(destination, source, length)\<close> when
  the block moves.
\<close>

definition tlsf_realloc :: "nat option \<Rightarrow> nat \<Rightarrow> tlsf_pool \<Rightarrow> (nat option \<times> tlsf_pool \<times> (nat \<times> nat \<times> nat) option) option" where
  "tlsf_realloc ptr size0 p =
    (case ptr of
       None \<Rightarrow> map_option (\<lambda>(r, p). (r, p, None)) (tlsf_malloc size0 p)
     | Some a \<Rightarrow>
         if size0 = 0 then Some (None, tlsf_free ptr p, None)
         else
           let block = block_from_ptr a in
           if bh_signature (tp_mem p block) \<noteq> TLSF_SIGNATURE then Some (None, p, None)
           else
             let size' = ALIGN_UP size0 TLSF_BLOCK_ALIGN;
                 total_size = uadd size' BLOCK_OVERHEAD;
                 split = (\<lambda>p. if bh_size (tp_mem p block) \<ge> uadd total_size MIN_BLOCK_SIZE then block_split block size' p else p);
                 move = (case tlsf_malloc size' p of
                           None \<Rightarrow> None
                         | Some (None, p) \<Rightarrow> Some (None, p, None)
                         | Some (Some new_ptr, p) \<Rightarrow>
                             Some (Some new_ptr, tlsf_free ptr p, Some (new_ptr, a, bh_size (tp_mem p block))))
             in if bh_size (tp_mem p block) \<ge> total_size then Some (ptr, split p, None)
                else
                  case bh_next_phys (tp_mem p block) of
                    Some nxt \<Rightarrow>
                      if is_free p nxt \<and> uadd (bh_size (tp_mem p block)) (BLOCK_OVERHEAD + bh_size (tp_mem p nxt)) \<ge> total_size
                      then Some (ptr, split (block_absorb block nxt (block_remove_free nxt p)), None)
                      else move
                  | None \<Rightarrow> move)"

partial_function (option) check_loop :: "nat option \<Rightarrow> tlsf_pool \<Rightarrow> bool option" where
  "check_loop block p =
    (case block of
       None \<Rightarrow> Some True
     | Some b \<Rightarrow>
         if bh_signature (tp_mem p b) \<noteq> TLSF_SIGNATURE then Some False
         else check_loop (bh_next_phys (tp_mem p b)) p)"

definition tlsf_pool_check :: "tlsf_pool \<Rightarrow> bool option" where
  "tlsf_pool_check p = (if tp_signature p \<noteq> TLSF_SIGNATURE then Some False else check_loop (tp_block_list p) p)"

section \<open>The system heap\<close>

text \<open>
  The system heap is \<open>g_system_pool\<close>, created on first use in the 16 KB array at address \<open>heap\<close>.
\<close>

definition system_pool :: "nat \<Rightarrow> tlsf_pool option \<Rightarrow> tlsf_pool option" where
  "system_pool heap g = (case g of None \<Rightarrow> tlsf_create heap (16 * 1024) | Some p \<Rightarrow> Some p)"

definition os_malloc :: "nat \<Rightarrow> nat \<Rightarrow> tlsf_pool option \<Rightarrow> (nat option \<times> tlsf_pool option) option" where
  "os_malloc heap size0 g =
    (case system_pool heap g of
       None \<Rightarrow> Some (None, None)
     | Some p \<Rightarrow> map_option (\<lambda>(r, p). (r, Some p)) (tlsf_malloc size0 p))"

text \<open>The last component is the range that is cleared.\<close>

definition os_calloc :: "nat \<Rightarrow> nat \<Rightarrow> nat \<Rightarrow> tlsf_pool option \<Rightarrow>
    (nat option \<times> tlsf_pool option \<times> (nat \<times> nat) option) option" where
  "os_calloc heap nmemb size0 g =
    (let total_size = (nmemb * size0) mod 2 ^ 32 in
     map_option (\<lambda>(r, g). (r, g, map_option (\<lambda>a. (a, total_size)) r)) (os_malloc heap total_size g))"

definition os_realloc :: "nat \<Rightarrow> nat option \<Rightarrow> nat \<Rightarrow> tlsf_pool option \<Rightarrow>
    (nat option \<times> tlsf_pool option \<times> (nat \<times> nat \<times> nat) option) option" where
  "os_realloc heap ptr size0 g =
    (case system_pool heap g of
       None \<Rightarrow> Some (None, None, None)
     | Some p \<Rightarrow> map_option (\<lambda>(r, p, c). (r, Some p, c)) (tlsf_realloc ptr size0 p))"

definition os_free :: "nat option \<Rightarrow> tlsf_pool option \<Rightarrow> tlsf_pool option" where
  "os_free ptr g = (case g of Some p \<Rightarrow> Some (tlsf_free ptr p) | None \<Rightarrow> None)"

definition os_get_free_heap :: "nat \<Rightarrow> tlsf_pool option \<Rightarrow> (nat \<times> tlsf_pool option) option" where
  "os_get_free_heap heap g =
    (case system_pool heap g of
       None \<Rightarrow> Some (0, None)
     | Some p \<Rightarrow> map_option (\<lambda>n. (n, Some p)) (tlsf_pool_free_size p))"

definition os_get_min_free_heap :: "nat \<Rightarrow> tlsf_pool option \<Rightarrow> nat option \<times> tlsf_pool option" where
  "os_get_min_free_heap heap g =
    (let g = system_pool heap g in (map_option tp_min_free g, g))"

end
