(* ===== verification/Tlsf_Lists.thy ===== *)
theory Tlsf_Lists
  imports Tlsf_Alloc
begin

text \<open>
  The free lists and the physical chain of a pool. The state of a pool is described by the list of
  its blocks in address order and the free lists \<open>F\<close>; each step of \<^verbatim>\<open>kernel/alloc.c\<close> (insertion into and
  removal from a free list, split, merge) is shown to keep both consistent, and freeing a block is
  shown to remove exactly one allocation.
\<close>

section \<open>Arithmetic\<close>

lemma uadd_small [simp]: "a + b < 2 ^ 32 \<Longrightarrow> uadd a b = a + b"
  by (simp add: uadd_def)

lemma usub_small: "b \<le> a \<Longrightarrow> a < 2 ^ 32 \<Longrightarrow> usub a b = a - b"
  by (simp add: usub_def mod_if)

lemma uadd_less: "uadd a b < 2 ^ 32"
  by (simp add: uadd_def)

lemma fls_step:
  fixes x n :: nat
  assumes "0 < x" "x < 2 ^ (2 * n)"
  shows "(if x \<ge> 2 ^ n then x div 2 ^ n else x) > 0 \<and> (if x \<ge> 2 ^ n then x div 2 ^ n else x) < 2 ^ n"
  using assms by (auto simp: less_mult_imp_div_less power_add mult_2 div_greater_zero_iff)

lemma fls_shift:
  fixes x n r :: nat
  assumes "2 ^ r \<le> x div 2 ^ n" "x div 2 ^ n < 2 ^ (r + 1)"
  shows "2 ^ (r + n) \<le> x \<and> x < 2 ^ (r + n + 1)"
proof -
  have "2 ^ r * 2 ^ n \<le> x div 2 ^ n * 2 ^ n" using assms(1) by simp
  also have "\<dots> \<le> x" by simp
  finally have "2 ^ (r + n) \<le> x" by (simp add: power_add)
  moreover have "x < 2 ^ (r + 1) * 2 ^ n" using assms(2) by (simp add: div_less_iff_less_mult)
  ultimately show ?thesis by (simp add: power_add)
qed

text \<open>The bucket index of a size is its binary logarithm.\<close>

lemma tlsf_fls_log:
  assumes "0 < x" "x < 2 ^ 32"
  shows "2 ^ tlsf_fls x \<le> x \<and> x < 2 ^ (tlsf_fls x + 1)"
proof -
  define h where "h n x = (if x \<ge> 2 ^ n then x div 2 ^ n else x)" for n x :: nat
  define q where "q n x = (if x \<ge> 2 ^ n then n else 0)" for n x :: nat
  define x1 where "x1 = h 16 x" define x2 where "x2 = h 8 x1" define x3 where "x3 = h 4 x2" define x4 where "x4 = h 2 x3"
  have r: "tlsf_fls x = q 1 x4 + q 2 x3 + q 4 x2 + q 8 x1 + q 16 x"
  proof -
    have e: "(if x \<ge> 0x10000 then (x div 2 ^ 16, 16) else (x, 0)) = (x1, q 16 x)"
      "(if x1 \<ge> 0x100 then (x1 div 2 ^ 8, r + 8) else (x1, r)) = (x2, r + q 8 x1)"
      "(if x2 \<ge> 0x10 then (x2 div 2 ^ 4, r + 4) else (x2, r)) = (x3, r + q 4 x2)"
      "(if x3 \<ge> 0x4 then (x3 div 2 ^ 2, r + 2) else (x3, r)) = (x4, r + q 2 x3)"
      "(if x4 \<ge> 0x2 then r + 1 else r) = r + q 1 x4" for r
      by (simp_all add: x1_def x2_def x3_def x4_def h_def q_def)
    show ?thesis unfolding tlsf_fls_def Let_def e prod.case by simp
  qed
  have hs: "0 < y \<and> y < 2 ^ (2 * n) \<Longrightarrow> 0 < h n y \<and> h n y < 2 ^ n" for n y using fls_step [of y n] by (simp add: h_def)
  have b1: "0 < x1 \<and> x1 < 2 ^ (2 * 8)" using hs [of x 16] assms by (simp add: x1_def)
  have b2: "0 < x2 \<and> x2 < 2 ^ (2 * 4)" using hs [OF b1] by (simp add: x2_def)
  have b3: "0 < x3 \<and> x3 < 2 ^ (2 * 2)" using hs [OF b2] by (simp add: x3_def)
  have b4: "0 < x4 \<and> x4 < 4" using hs [OF b3] by (simp add: x4_def)
  have step: "2 ^ r \<le> h n y \<and> h n y < 2 ^ (r + 1) \<Longrightarrow> 2 ^ (r + q n y) \<le> y \<and> y < 2 ^ (r + q n y + 1)" for n y r
    using fls_shift [of r y n] by (cases "2 ^ n \<le> y") (simp_all add: h_def q_def)
  have 4: "2 ^ (q 1 x4) \<le> x4 \<and> x4 < 2 ^ (q 1 x4 + 1)" using b4 by (auto simp: q_def)
  have 3: "2 ^ (q 1 x4 + q 2 x3) \<le> x3 \<and> x3 < 2 ^ (q 1 x4 + q 2 x3 + 1)" using step [of "q 1 x4" 2 x3] 4 by (simp add: x4_def)
  have 2: "2 ^ (q 1 x4 + q 2 x3 + q 4 x2) \<le> x2 \<and> x2 < 2 ^ (q 1 x4 + q 2 x3 + q 4 x2 + 1)"
    using step [of "q 1 x4 + q 2 x3" 4 x2] 3 by (simp add: x3_def)
  have 1: "2 ^ (q 1 x4 + q 2 x3 + q 4 x2 + q 8 x1) \<le> x1 \<and> x1 < 2 ^ (q 1 x4 + q 2 x3 + q 4 x2 + q 8 x1 + 1)"
    using step [of "q 1 x4 + q 2 x3 + q 4 x2" 8 x1] 2 by (simp add: x2_def)
  show ?thesis using step [of "q 1 x4 + q 2 x3 + q 4 x2 + q 8 x1" 16 x] 1 by (simp add: r x1_def)
qed

lemma tlsf_get_index_log:
  assumes "0 < x" "x < 2 ^ 32"
  shows "2 ^ tlsf_get_index x \<le> x" "x < 2 ^ (tlsf_get_index x + 1)" "tlsf_get_index x < 32"
proof -
  have l: "2 ^ tlsf_fls x \<le> x" "x < 2 ^ (tlsf_fls x + 1)" using tlsf_fls_log [OF assms] by auto
  have "tlsf_fls x < 32"
  proof (rule ccontr)
    assume "\<not> tlsf_fls x < 32"
    then have "(2 :: nat) ^ 32 \<le> 2 ^ tlsf_fls x" by (intro power_increasing) auto
    then show False using l assms(2) by linarith
  qed
  then show "2 ^ tlsf_get_index x \<le> x" "x < 2 ^ (tlsf_get_index x + 1)" "tlsf_get_index x < 32"
    using l assms(2) by (simp_all add: tlsf_get_index_def tlsf_get_fl_index_def Let_def)
qed

lemma tlsf_get_index_0 [simp]: "tlsf_get_index 0 = 0"
  by (simp add: tlsf_get_index_def tlsf_get_fl_index_def tlsf_fls_def)

lemma tlsf_get_index_less: "x < 2 ^ 32 \<Longrightarrow> tlsf_get_index x < 32"
  using tlsf_get_index_log(3) [of x] by (cases "x = 0") auto

text \<open>Every block of a higher bucket is larger than the request.\<close>

lemma higher_bucket_fits:
  assumes "tlsf_get_index x < tlsf_get_index y" "x < 2 ^ 32" "y < 2 ^ 32"
  shows "x < y"
proof -
  have y: "0 < y" using assms(1) by (cases "y = 0") auto
  show ?thesis
  proof (cases "x = 0")
    case False
    then have "x < 2 ^ (tlsf_get_index x + 1)" using tlsf_get_index_log assms by simp
    also have "\<dots> \<le> 2 ^ tlsf_get_index y" using assms(1) by (intro power_increasing) auto
    also have "\<dots> \<le> y" using tlsf_get_index_log(1) [OF y assms(3)] .
    finally show ?thesis .
  qed (use y in simp)
qed

lemma ALIGN_UP_4: "x + 3 < 2 ^ 32 \<Longrightarrow> x \<le> ALIGN_UP x 4 \<and> ALIGN_UP x 4 < x + 4 \<and> 4 dvd ALIGN_UP x 4"
  by (simp add: ALIGN_UP_def) arith

section \<open>The layout of a pool\<close>

text \<open>The blocks \<open>bs\<close> follow one another from address \<open>a\<close> up to address \<open>e\<close>, with sizes \<open>sz\<close>.\<close>

fun layout :: "(nat \<Rightarrow> nat) \<Rightarrow> nat \<Rightarrow> nat list \<Rightarrow> nat \<Rightarrow> bool" where
  "layout sz a [] e \<longleftrightarrow> a = e"
| "layout sz a (b # bs) e \<longleftrightarrow> b = a \<and> layout sz (a + 28 + sz b) bs e"

lemma layout_append: "layout sz a (xs @ ys) e \<longleftrightarrow> (\<exists>m. layout sz a xs m \<and> layout sz m ys e)"
  by (induction xs arbitrary: a) auto

lemma layout_cong: "layout sz a bs e \<Longrightarrow> (\<And>b. b \<in> set bs \<Longrightarrow> sz' b = sz b) \<Longrightarrow> layout sz' a bs e"
  by (induction bs arbitrary: a) auto

lemma layout_le: "layout sz a bs e \<Longrightarrow> a \<le> e"
  by (induction bs arbitrary: a) fastforce+

lemma layout_bounds: "layout sz a bs e \<Longrightarrow> b \<in> set bs \<Longrightarrow> a \<le> b \<and> b + 28 + sz b \<le> e"
proof (induction bs arbitrary: a)
  case (Cons c bs)
  then have "c = a" "layout sz (a + 28 + sz c) bs e" by auto
  then show ?case using Cons layout_le [of sz "a + 28 + sz c" bs e] by fastforce
qed simp

lemma layout_distinct: "layout sz a bs e \<Longrightarrow> distinct bs"
proof (induction bs arbitrary: a)
  case (Cons c bs)
  then have "\<forall>b\<in>set bs. c < b" using layout_bounds [of sz "a + 28 + sz c" bs e] by fastforce
  then show ?case using Cons by auto
qed simp

lemma layout_disjoint:
  assumes "layout sz a bs e" "b \<in> set bs" "c \<in> set bs" "b < c"
  shows "b + 28 + sz b \<le> c"
  using assms
proof (induction bs arbitrary: a)
  case (Cons d bs)
  have l: "layout sz (a + 28 + sz d) bs e" "d = a" using Cons.prems(1) by auto
  then have "\<forall>x\<in>set bs. d + 28 + sz d \<le> x" using layout_bounds by fastforce
  then show ?case using Cons l by fastforce
qed simp

lemma layout_sum: "layout sz a bs e \<Longrightarrow> a + (\<Sum>b\<leftarrow>bs. sz b + 28) = e"
proof (induction bs arbitrary: a)
  case (Cons b bs)
  then have "a + 28 + sz b + (\<Sum>b\<leftarrow>bs. sz b + 28) = e" "b = a" by auto
  then show ?case by simp
qed simp

section \<open>Well-formed pools\<close>

abbreviation blk_size :: "tlsf_pool \<Rightarrow> nat \<Rightarrow> nat" where "blk_size p b \<equiv> bh_size (tp_mem p b)"
abbreviation blk_flags :: "tlsf_pool \<Rightarrow> nat \<Rightarrow> u8" where "blk_flags p b \<equiv> bh_flags (tp_mem p b)"
abbreviation next_free :: "tlsf_pool \<Rightarrow> nat \<Rightarrow> nat option" where "next_free p b \<equiv> bh_next_free (tp_mem p b)"
abbreviation prev_free :: "tlsf_pool \<Rightarrow> nat \<Rightarrow> nat option" where "prev_free p b \<equiv> bh_prev_free (tp_mem p b)"
abbreviation next_phys :: "tlsf_pool \<Rightarrow> nat \<Rightarrow> nat option" where "next_phys p b \<equiv> bh_next_phys (tp_mem p b)"
abbreviation prev_phys :: "tlsf_pool \<Rightarrow> nat \<Rightarrow> nat option" where "prev_phys p b \<equiv> bh_prev_phys (tp_mem p b)"

text \<open>The physical chain: all blocks in address order, filling the pool.\<close>

definition phys_ok :: "tlsf_pool \<Rightarrow> nat list \<Rightarrow> bool" where
  "phys_ok p bs \<longleftrightarrow> bs \<noteq> [] \<and> tp_block_list p = Some (tp_memory p) \<and>
    dll (next_phys p) (prev_phys p) (Some (tp_memory p)) None bs \<and>
    layout (blk_size p) (tp_memory p) bs (tp_memory p + tp_total_size p) \<and>
    tp_memory p + tp_total_size p < 2 ^ 32 \<and>
    (\<forall>b\<in>set bs. bh_signature (tp_mem p b) = TLSF_SIGNATURE)"

text \<open>
  The free lists \<open>F\<close> hold exactly the blocks marked free, each in the bucket of its size. The
  blocks in \<open>E\<close> are being worked on: they are marked neither free nor used.
\<close>

definition free_ok :: "tlsf_pool \<Rightarrow> nat list \<Rightarrow> (nat \<Rightarrow> nat list) \<Rightarrow> nat set \<Rightarrow> bool" where
  "free_ok p bs F E \<longleftrightarrow>
    (\<forall>i. dll (next_free p) (prev_free p) (tp_free_list p i) None (F i) \<and> distinct (F i)) \<and>
    (\<forall>i. \<forall>b\<in>set (F i). b \<in> set bs \<and> blk_flags p b = 1 \<and> tlsf_get_index (blk_size p b) = i) \<and>
    (\<forall>b\<in>set bs. blk_flags p b = 1 \<longrightarrow> b \<in> set (F (tlsf_get_index (blk_size p b)))) \<and>
    (\<forall>b\<in>set bs. b \<notin> E \<longrightarrow> blk_flags p b = 1 \<or> blk_flags p b = 2) \<and>
    (\<forall>b\<in>E. blk_flags p b = 0)"

definition pool_ok :: "tlsf_pool \<Rightarrow> nat list \<Rightarrow> (nat \<Rightarrow> nat list) \<Rightarrow> nat set \<Rightarrow> bool" where
  "pool_ok p bs F E \<longleftrightarrow> phys_ok p bs \<and> free_ok p bs F E \<and> E \<subseteq> set bs"

lemma upd_block_sel [simp]:
  "tp_mem (upd_block b f p) c = (if c = b then f (tp_mem p b) else tp_mem p c)"
  "tp_free_list (upd_block b f p) = tp_free_list p" "tp_block_list (upd_block b f p) = tp_block_list p"
  "tp_memory (upd_block b f p) = tp_memory p" "tp_total_size (upd_block b f p) = tp_total_size p"
  "tp_used_size (upd_block b f p) = tp_used_size p" "tp_min_free (upd_block b f p) = tp_min_free p"
  "tp_signature (upd_block b f p) = tp_signature p"
  by (simp_all add: upd_block_def)

text \<open>What insertion into and removal from a free list leave alone.\<close>

definition free_frame :: "tlsf_pool \<Rightarrow> tlsf_pool \<Rightarrow> bool" where
  "free_frame p q \<longleftrightarrow> tp_block_list q = tp_block_list p \<and> tp_memory q = tp_memory p \<and> tp_total_size q = tp_total_size p \<and>
    tp_used_size q = tp_used_size p \<and> tp_min_free q = tp_min_free p \<and> tp_signature q = tp_signature p \<and>
    (\<forall>c. blk_size q c = blk_size p c \<and> next_phys q c = next_phys p c \<and> prev_phys q c = prev_phys p c \<and>
      bh_signature (tp_mem q c) = bh_signature (tp_mem p c))"

lemma insert_frame: "free_frame p (block_insert_free b p)"
  by (auto simp: free_frame_def block_insert_free_def Let_def split: option.split)

lemma remove_frame: "free_frame p (block_remove_free b p)"
  by (auto simp: free_frame_def block_remove_free_def Let_def split: option.split)

lemma phys_ok_frame: "phys_ok p bs \<Longrightarrow> free_frame p q \<Longrightarrow> phys_ok q bs"
  by (auto simp: phys_ok_def free_frame_def elim!: dll_cong layout_cong)

lemma insert_flags: "blk_flags (block_insert_free b p) c = (if c = b then blk_flags p b OR 1 else blk_flags p c)"
  by (auto simp: block_insert_free_def Let_def split: option.split)

lemma remove_flags: "blk_flags (block_remove_free b p) c = (if c = b then blk_flags p b AND NOT 1 else blk_flags p c)"
  by (auto simp: block_remove_free_def Let_def split: option.split)

lemma insert_links:
  assumes "i = tlsf_get_index (blk_size p b)"
  shows "next_free (block_insert_free b p) = ll_add_next (next_free p) (tp_free_list p i) b"
    "prev_free (block_insert_free b p) = ll_add_prev (prev_free p) (tp_free_list p i) b"
    "tp_free_list (block_insert_free b p) = (tp_free_list p)(i := Some b)"
  unfolding assms
  by (auto simp: block_insert_free_def ll_add_next_def ll_add_prev_def fun_eq_iff Let_def split: option.split)

lemma remove_links:
  assumes "i = tlsf_get_index (blk_size p b)" "next_free p b \<noteq> Some b" "prev_free p b \<noteq> Some b"
  shows "c \<noteq> b \<Longrightarrow> next_free (block_remove_free b p) c = ll_remove_next (next_free p) (prev_free p) b c"
    "c \<noteq> b \<Longrightarrow> prev_free (block_remove_free b p) c = ll_remove_prev (next_free p) (prev_free p) b c"
    "tp_free_list (block_remove_free b p) =
      (tp_free_list p)(i := ll_remove_head (next_free p) (prev_free p) (tp_free_list p i) b)"
  using assms(2,3) unfolding assms(1)
  by (auto simp: block_remove_free_def ll_remove_next_def ll_remove_prev_def ll_remove_head_def fun_eq_iff Let_def
      split: option.split)

lemma flag_ops [simp]: "(0 :: u8) OR 1 = 1" "(1 :: u8) AND NOT 1 = 0" "(0 :: u8) OR 2 = 2" "(2 :: u8) AND NOT 2 = 0"
  "(1 :: u8) AND 1 = 1" "(2 :: u8) AND 1 = 0" "(0 :: u8) AND 1 = 0" "(2 :: u8) AND 2 = 2" "(1 :: u8) AND 2 = 0" "(0 :: u8) AND 2 = 0"
  by simp_all

lemma free_okD:
  assumes "free_ok p bs F E"
  shows "dll (next_free p) (prev_free p) (tp_free_list p i) None (F i)" "distinct (F i)"
    "b \<in> set (F i) \<Longrightarrow> b \<in> set bs \<and> blk_flags p b = 1 \<and> tlsf_get_index (blk_size p b) = i"
    "b \<in> set bs \<Longrightarrow> blk_flags p b = 1 \<Longrightarrow> b \<in> set (F (tlsf_get_index (blk_size p b)))"
    "b \<in> set bs \<Longrightarrow> b \<notin> E \<Longrightarrow> blk_flags p b = 1 \<or> blk_flags p b = 2"
    "b \<in> E \<Longrightarrow> blk_flags p b = 0"
  using assms unfolding free_ok_def by simp_all

lemma free_okI:
  assumes "\<And>i. dll (next_free p) (prev_free p) (tp_free_list p i) None (F i)" "\<And>i. distinct (F i)"
    "\<And>i b. b \<in> set (F i) \<Longrightarrow> b \<in> set bs \<and> blk_flags p b = 1 \<and> tlsf_get_index (blk_size p b) = i"
    "\<And>b. b \<in> set bs \<Longrightarrow> blk_flags p b = 1 \<Longrightarrow> b \<in> set (F (tlsf_get_index (blk_size p b)))"
    "\<And>b. b \<in> set bs \<Longrightarrow> b \<notin> E \<Longrightarrow> blk_flags p b = 1 \<or> blk_flags p b = 2"
    "\<And>b. b \<in> E \<Longrightarrow> blk_flags p b = 0"
  shows "free_ok p bs F E"
  using assms unfolding free_ok_def by blast

lemma free_sep: "free_ok p bs F E \<Longrightarrow> i \<noteq> j \<Longrightarrow> set (F i) \<inter> set (F j) = {}"
  unfolding free_ok_def disjoint_iff by metis

lemma free_ok_insert:
  assumes ok: "free_ok p bs F E" and b: "b \<in> E" "b \<in> set bs" and i: "i = tlsf_get_index (blk_size p b)"
  shows "free_ok (block_insert_free b p) bs (F(i := b # F i)) (E - {b})"
proof (rule free_okI)
  let ?q = "block_insert_free b p"
  note D = free_okD [OF ok]
  have nb: "b \<notin> set (F j)" for j using D(3) [of b j] D(6) [OF b(1)] by auto
  have sz: "blk_size ?q c = blk_size p c" for c using insert_frame by (auto simp: free_frame_def)
  have fl: "blk_flags ?q c = (if c = b then 1 else blk_flags p c)" for c using D(6) [OF b(1)] by (simp add: insert_flags)
  show "dll (next_free ?q) (prev_free ?q) (tp_free_list ?q j) None ((F(i := b # F i)) j)" for j
  proof (cases "j = i")
    case True
    then show ?thesis using dll_add [OF D(1) nb D(2), of i] unfolding insert_links [OF i] by simp
  next
    case False
    then show ?thesis using dll_add_other [OF D(1) [of j] D(1) [of i] nb free_sep [OF ok, of i j]]
      unfolding insert_links [OF i] by simp
  qed
  show "distinct ((F(i := b # F i)) j)" for j using D(2) nb by simp
  show "c \<in> set bs \<and> blk_flags ?q c = 1 \<and> tlsf_get_index (blk_size ?q c) = j" if "c \<in> set ((F(i := b # F i)) j)" for c j
    using that D(3) [of c j] b(2) i unfolding fl sz by (cases "c = b") (auto split: if_splits simp: nb)
  show "c \<in> set ((F(i := b # F i)) (tlsf_get_index (blk_size ?q c)))" if "c \<in> set bs" "blk_flags ?q c = 1" for c
    using that D(4) [of c] i unfolding fl sz by (cases "c = b") auto
  show "blk_flags ?q c = 1 \<or> blk_flags ?q c = 2" if "c \<in> set bs" "c \<notin> E - {b}" for c
    using that D(5) [of c] unfolding fl by auto
  show "blk_flags ?q c = 0" if "c \<in> E - {b}" for c using that D(6) [of c] unfolding fl by auto
qed

lemma free_links_not_self:
  assumes "free_ok p bs F E" "b \<in> set (F i)"
  shows "next_free p b \<noteq> Some b" "prev_free p b \<noteq> Some b"
proof -
  obtain ys zs where F: "F i = ys @ b # zs" using assms(2) by (auto dest: split_list)
  have d: "dll (next_free p) (prev_free p) (tp_free_list p i) None (ys @ b # zs)" "distinct (ys @ b # zs)"
    using free_okD(1,2) [OF assms(1), of i] unfolding F .
  show "next_free p b \<noteq> Some b" using dll_next [OF d(1)] d(2) by (auto simp: first_def split: list.splits)
  show "prev_free p b \<noteq> Some b" using dll_prev [OF d(1)] d(2) by (auto split: if_splits)
qed

lemma free_ok_remove:
  assumes ok: "free_ok p bs F E" and b: "b \<in> set (F i)"
  shows "free_ok (block_remove_free b p) bs (F(i := remove1 b (F i))) (insert b E)"
proof (rule free_okI)
  let ?q = "block_remove_free b p"
  note D = free_okD [OF ok]
  have p: "b \<in> set bs" "blk_flags p b = 1" "i = tlsf_get_index (blk_size p b)" using D(3) [OF b] by auto
  have sz: "blk_size ?q c = blk_size p c" for c using remove_frame by (auto simp: free_frame_def)
  have fl: "blk_flags ?q c = (if c = b then 0 else blk_flags p c)" for c using p(2) by (simp add: remove_flags)
  note links = remove_links [OF p(3) free_links_not_self [OF ok b]]
  have nb: "j \<noteq> i \<Longrightarrow> b \<notin> set (F j)" for j using free_sep [OF ok, of i j] b by auto
  have nr: "b \<notin> set (remove1 b (F i))" using D(2) by simp
  show "dll (next_free ?q) (prev_free ?q) (tp_free_list ?q j) None ((F(i := remove1 b (F i))) j)" for j
  proof (cases "j = i")
    case True
    show ?thesis unfolding True links(3) fun_upd_same
      by (rule dll_cong [OF dll_remove [OF D(1) D(2) b]]) (use nr links(1,2) in metis)+
  next
    case False
    have "dll (ll_remove_next (next_free p) (prev_free p) b) (ll_remove_prev (next_free p) (prev_free p) b)
        (tp_free_list p j) None (F j)"
      by (rule dll_remove_other [OF D(1) D(1) [of i] b]) (use free_sep [OF ok, of i j] False in simp)
    then have "dll (next_free ?q) (prev_free ?q) (tp_free_list p j) None (F j)"
      by (rule dll_cong) (use nb [OF False] links(1,2) in metis)+
    then show ?thesis using False by (simp add: links(3))
  qed
  show "distinct ((F(i := remove1 b (F i))) j)" for j using D(2) by simp
  show "c \<in> set bs \<and> blk_flags ?q c = 1 \<and> tlsf_get_index (blk_size ?q c) = j"
    if c: "c \<in> set ((F(i := remove1 b (F i))) j)" for c j
  proof -
    have "c \<noteq> b" "c \<in> set (F j)" using c nr nb [of j] set_remove1_subset [of b "F i"] by (auto split: if_splits)
    then show ?thesis using D(3) [of c j] unfolding fl sz by simp
  qed
  show "c \<in> set ((F(i := remove1 b (F i))) (tlsf_get_index (blk_size ?q c)))" if "c \<in> set bs" "blk_flags ?q c = 1" for c
    using that D(4) [of c] unfolding fl sz by (auto split: if_splits)
  show "blk_flags ?q c = 1 \<or> blk_flags ?q c = 2" if "c \<in> set bs" "c \<notin> insert b E" for c
    using that D(5) [of c] unfolding fl by auto
  show "blk_flags ?q c = 0" if "c \<in> insert b E" for c using that D(6) [of c] unfolding fl by auto
qed

lemma pool_insert:
  assumes "pool_ok p bs F E" "b \<in> E"
  shows "pool_ok (block_insert_free b p) bs (F(tlsf_get_index (blk_size p b) := b # F (tlsf_get_index (blk_size p b)))) (E - {b})"
  using assms free_ok_insert [OF _ assms(2) _ refl, of p bs F] phys_ok_frame [OF _ insert_frame] by (auto simp: pool_ok_def)

lemma pool_remove:
  assumes "pool_ok p bs F E" "b \<in> set (F i)"
  shows "pool_ok (block_remove_free b p) bs (F(i := remove1 b (F i))) (insert b E)"
  using assms free_ok_remove [of p bs F E b i] phys_ok_frame [OF _ remove_frame] free_okD(3) [of p bs F E b i]
  by (auto simp: pool_ok_def)

lemma free_ok_change:
  assumes ok: "free_ok p bs F E" and "tp_free_list q = tp_free_list p"
    and same: "\<And>c. c \<in> set bs \<Longrightarrow> c \<notin> E \<Longrightarrow> c \<in> set bs' \<and> blk_flags q c = blk_flags p c \<and> blk_size q c = blk_size p c \<and>
      next_free q c = next_free p c \<and> prev_free q c = prev_free p c"
    and orig: "\<And>c. c \<in> set bs' \<Longrightarrow> c \<notin> E' \<Longrightarrow> c \<in> set bs \<and> c \<notin> E" and zero: "\<And>c. c \<in> E' \<Longrightarrow> blk_flags q c = 0"
  shows "free_ok q bs' F E'"
proof (rule free_okI)
  note D = free_okD [OF ok]
  have mem: "c \<in> set bs \<and> c \<notin> E" if "c \<in> set (F i)" for c i using D(3) [OF that] D(6) [of c] by auto
  show "dll (next_free q) (prev_free q) (tp_free_list q i) None (F i)" for i
    unfolding assms(2) by (rule dll_cong [OF D(1)]) (use mem same in blast)+
  show "distinct (F i)" for i by (rule D(2))
  show "b \<in> set bs' \<and> blk_flags q b = 1 \<and> tlsf_get_index (blk_size q b) = i" if "b \<in> set (F i)" for b i
    using same [of b] mem [OF that] D(3) [OF that] by simp
  show "b \<in> set (F (tlsf_get_index (blk_size q b)))" if "b \<in> set bs'" "blk_flags q b = 1" for b
    using that orig [of b] zero [of b] same [of b] D(4) [of b] by (cases "b \<in> E'") auto
  show "blk_flags q b = 1 \<or> blk_flags q b = 2" if "b \<in> set bs'" "b \<notin> E'" for b
    using that orig [of b] same [of b] D(5) [of b] by auto
  show "blk_flags q b = 0" if "b \<in> E'" for b using zero that .
qed

lemma pool_mark_used:
  assumes "pool_ok p bs F E" "b \<in> E" and q: "q = upd_block b (\<lambda>h. h\<lparr>bh_flags := bh_flags h OR TLSF_BLOCK_USED\<rparr>) p"
  shows "pool_ok q bs F (E - {b})" "blk_flags q b = 2"
proof -
  have ok: "free_ok p bs F E" "phys_ok p bs" "E \<subseteq> set bs" using assms by (auto simp: pool_ok_def)
  note D = free_okD [OF ok(1)]
  have fl: "blk_flags q c = (if c = b then 2 else blk_flags p c)" for c using D(6) [OF assms(2)] by (simp add: q)
  have same: "blk_size q c = blk_size p c" "next_free q c = next_free p c" "prev_free q c = prev_free p c"
    "next_phys q c = next_phys p c" "prev_phys q c = prev_phys p c" "bh_signature (tp_mem q c) = bh_signature (tp_mem p c)" for c
    by (simp_all add: q)
  have "phys_ok q bs" using ok(2) unfolding phys_ok_def same by (simp add: q)
  moreover have "free_ok q bs F (E - {b})"
  proof (rule free_okI)
    show "dll (next_free q) (prev_free q) (tp_free_list q i) None (F i)" for i using D(1) unfolding same by (simp add: q)
    show "distinct (F i)" for i by (rule D(2))
    show "c \<in> set bs \<and> blk_flags q c = 1 \<and> tlsf_get_index (blk_size q c) = i" if "c \<in> set (F i)" for c i
      using D(3) [OF that] D(6) [OF assms(2)] unfolding fl same by auto
    show "c \<in> set (F (tlsf_get_index (blk_size q c)))" if "c \<in> set bs" "blk_flags q c = 1" for c
      using that D(4) [of c] unfolding fl same by (auto split: if_splits)
    show "blk_flags q c = 1 \<or> blk_flags q c = 2" if "c \<in> set bs" "c \<notin> E - {b}" for c
      using that D(5) [of c] unfolding fl by auto
    show "blk_flags q c = 0" if "c \<in> E - {b}" for c using that D(6) [of c] unfolding fl by auto
  qed
  ultimately show "pool_ok q bs F (E - {b})" "blk_flags q b = 2" using ok(3) fl by (auto simp: pool_ok_def)
qed

lemma next_phys_pos:
  assumes "phys_ok p bs" "bs = xs @ b # ys"
  shows "next_phys p b = first ys" "prev_phys p b = (if xs = [] then None else Some (last xs))"
  using assms dll_next [of "next_phys p" "prev_phys p" "Some (tp_memory p)" None xs b ys]
    dll_prev [of "next_phys p" "prev_phys p" "Some (tp_memory p)" None xs b ys] by (auto simp: phys_ok_def)

lemma phys_distinct: "phys_ok p bs \<Longrightarrow> distinct bs"
  by (auto simp: phys_ok_def dest: layout_distinct)

lemma phys_bound: "phys_ok p bs \<Longrightarrow> b \<in> set bs \<Longrightarrow> tp_memory p \<le> b \<and> b + 28 + blk_size p b \<le> tp_memory p + tp_total_size p \<and>
    tp_memory p + tp_total_size p < 2 ^ 32"
  using layout_bounds by (fastforce simp: phys_ok_def)

definition split_raw :: "nat \<Rightarrow> nat \<Rightarrow> nat \<Rightarrow> tlsf_pool \<Rightarrow> tlsf_pool" where
  "split_raw block new_block size' p =
    (let nxt = next_phys p block;
         remaining = blk_size p block - size' - 28;
         p = upd_block new_block (\<lambda>b. b\<lparr>bh_signature := TLSF_SIGNATURE, bh_size := remaining, bh_flags := 0,
               bh_prev_phys := Some block, bh_next_phys := nxt\<rparr>) p;
         p = (case nxt of Some n \<Rightarrow> upd_block n (\<lambda>b. b\<lparr>bh_prev_phys := Some new_block\<rparr>) p | None \<Rightarrow> p)
     in upd_block block (\<lambda>b. b\<lparr>bh_next_phys := Some new_block, bh_size := size'\<rparr>) p)"

lemma split_raw_sel:
  assumes "new \<noteq> b" "next_phys p b \<noteq> Some b" "next_phys p b \<noteq> Some new"
  shows "blk_size (split_raw b new n p) c = (if c = b then n else if c = new then blk_size p b - n - 28 else blk_size p c)"
    "blk_flags (split_raw b new n p) c = (if c = new then 0 else blk_flags p c)"
    "next_free (split_raw b new n p) c = next_free p c" "prev_free (split_raw b new n p) c = prev_free p c"
    "next_phys (split_raw b new n p) c = (if c = b then Some new else if c = new then next_phys p b else next_phys p c)"
    "prev_phys (split_raw b new n p) c = (if c = new then Some b else if next_phys p b = Some c then Some new else prev_phys p c)"
    "bh_signature (tp_mem (split_raw b new n p) c) = (if c = new then TLSF_SIGNATURE else bh_signature (tp_mem p c))"
    "tp_free_list (split_raw b new n p) = tp_free_list p" "tp_block_list (split_raw b new n p) = tp_block_list p"
    "tp_memory (split_raw b new n p) = tp_memory p" "tp_total_size (split_raw b new n p) = tp_total_size p"
    "tp_used_size (split_raw b new n p) = tp_used_size p" "tp_min_free (split_raw b new n p) = tp_min_free p"
  using assms by (auto simp: split_raw_def Let_def split: option.split)

lemma pool_split_raw:
  assumes ok: "pool_ok p (xs @ b # ys) F E" and b: "b \<in> E" and n: "n + 28 \<le> blk_size p b"
    and new: "new = b + n + 28"
  shows "pool_ok (split_raw b new n p) (xs @ b # new # ys) F (insert new E)" (is "pool_ok ?q _ _ _")
    and "new \<notin> set (xs @ b # ys)" and "new \<noteq> b" and "next_phys p b \<noteq> Some b" and "next_phys p b \<noteq> Some new"
proof -
  have ph: "phys_ok p (xs @ b # ys)" and fr: "free_ok p (xs @ b # ys) F E" and E: "E \<subseteq> set (xs @ b # ys)"
    using ok by (auto simp: pool_ok_def)
  let ?e = "tp_memory p + tp_total_size p"
  have lay: "layout (blk_size p) (tp_memory p) (xs @ b # ys) ?e" using ph by (simp add: phys_ok_def)
  then obtain m where m: "layout (blk_size p) (tp_memory p) xs m" "m = b" "layout (blk_size p) (b + 28 + blk_size p b) ys ?e"
    by (auto simp: layout_append)
  have xs: "\<forall>c\<in>set xs. c < b" using layout_bounds [OF m(1)] m(2) by fastforce
  have ys: "\<forall>c\<in>set ys. b + 28 + blk_size p b \<le> c" using layout_bounds [OF m(3)] by fastforce
  show notin: "new \<notin> set (xs @ b # ys)" and nb: "new \<noteq> b" using xs ys n new by fastforce+
  have nx: "next_phys p b = first ys" using next_phys_pos [OF ph refl] by simp
  show nb1: "next_phys p b \<noteq> Some b" and nb2: "next_phys p b \<noteq> Some new"
    using ys notin phys_distinct [OF ph] unfolding nx by (auto simp: first_def split: list.splits)
  note sel = split_raw_sel [OF nb nb1 nb2, of n]
  have d: "dll (next_phys ?q) (prev_phys ?q) (Some (tp_memory p)) None (xs @ b # new # ys)"
    by (rule dll_insert_after [of "next_phys p" "prev_phys p"])
      (use ph phys_distinct [OF ph] notin nb sel nb1 nb2 in \<open>auto simp: phys_ok_def\<close>)
  have "layout (blk_size ?q) (tp_memory p) xs m" by (rule layout_cong [OF m(1)]) (use xs notin in \<open>auto simp: sel\<close>)
  moreover have "layout (blk_size ?q) (b + 28 + blk_size p b) ys ?e"
    by (rule layout_cong [OF m(3)]) (use notin phys_distinct [OF ph] in \<open>auto simp: sel\<close>)
  moreover have "blk_size ?q b = n" "blk_size ?q new = blk_size p b - n - 28" using nb by (simp_all add: sel)
  then have "new = b + 28 + blk_size ?q b" "b + 28 + blk_size ?q b + 28 + blk_size ?q new = b + 28 + blk_size p b"
    using n new by simp_all
  ultimately have "layout (blk_size ?q) m (b # new # ys) ?e" using m(2) by (simp only: layout.simps)
  then have "layout (blk_size ?q) (tp_memory p) (xs @ b # new # ys) ?e"
    using \<open>layout (blk_size ?q) (tp_memory p) xs m\<close> unfolding layout_append by blast
  then have "phys_ok ?q (xs @ b # new # ys)" using d ph by (auto simp: phys_ok_def sel)
  moreover have "free_ok ?q (xs @ b # new # ys) F (insert new E)"
    by (rule free_ok_change [OF fr]) (use b notin free_okD(6) [OF fr] in \<open>auto simp: sel\<close>)
  ultimately show "pool_ok ?q (xs @ b # new # ys) F (insert new E)" using E by (auto simp: pool_ok_def)
qed

lemma split_sizes:
  assumes "phys_ok p bs" "b \<in> set bs" "n + 28 \<le> blk_size p b"
  shows "usub (usub (blk_size p b) n) 28 = blk_size p b - n - 28" "uadd b (n + 28) = b + n + 28"
proof -
  have "b + 28 + blk_size p b < 2 ^ 32" using phys_bound [OF assms(1,2)] by linarith
  then show "usub (usub (blk_size p b) n) 28 = blk_size p b - n - 28" "uadd b (n + 28) = b + n + 28"
    using assms(3) by (simp_all add: usub_small)
qed

text \<open>Splitting: the block keeps \<open>n\<close> bytes, and the rest becomes a new free block behind it.\<close>

lemma pool_split:
  assumes ok: "pool_ok p (xs @ b # ys) F E" and b: "b \<in> E" and n: "n + 28 + 32 \<le> blk_size p b"
  shows "\<exists>F'. pool_ok (block_split b n p) (xs @ b # (b + n + 28) # ys) F' E"
    and "blk_size (block_split b n p) b = n" "blk_size (block_split b n p) (b + n + 28) = blk_size p b - n - 28"
    and "c \<in> set (xs @ b # ys) \<Longrightarrow> c \<noteq> b \<Longrightarrow> blk_size (block_split b n p) c = blk_size p c"
    and "c \<in> set (xs @ b # ys) \<Longrightarrow> blk_flags (block_split b n p) c = blk_flags p c"
    and "blk_flags (block_split b n p) (b + n + 28) = 1"
    and "tp_used_size (block_split b n p) = tp_used_size p" "tp_min_free (block_split b n p) = tp_min_free p"
    and "tp_memory (block_split b n p) = tp_memory p" "tp_total_size (block_split b n p) = tp_total_size p"
proof -
  have ph: "phys_ok p (xs @ b # ys)" using ok by (simp add: pool_ok_def)
  let ?new = "b + n + 28"
  let ?r = "split_raw b ?new n p"
  note raw = pool_split_raw [OF ok b _ refl, of n]
  have n': "n + 28 \<le> blk_size p b" using n by simp
  have eq: "block_split b n p = block_insert_free ?new ?r"
    using split_sizes [OF ph _ n'] n by (simp add: block_split_def split_raw_def Let_def)
  note sel = split_raw_sel [OF raw(3-5) [OF n'], of n]
  note fr = insert_frame [of ?r ?new, unfolded free_frame_def]
  have "?new \<notin> E" using raw(2) [OF n'] ok by (auto simp: pool_ok_def)
  then show "\<exists>F'. pool_ok (block_split b n p) (xs @ b # ?new # ys) F' E"
    using pool_insert [OF raw(1) [OF n'], of ?new] unfolding eq by (auto simp: Diff_insert_absorb)
  show "blk_size (block_split b n p) b = n" "blk_size (block_split b n p) ?new = blk_size p b - n - 28"
    "tp_used_size (block_split b n p) = tp_used_size p" "tp_min_free (block_split b n p) = tp_min_free p"
    "tp_memory (block_split b n p) = tp_memory p" "tp_total_size (block_split b n p) = tp_total_size p"
    using fr raw(3) [OF n'] by (simp_all add: eq sel)
  show "c \<in> set (xs @ b # ys) \<Longrightarrow> c \<noteq> b \<Longrightarrow> blk_size (block_split b n p) c = blk_size p c"
    using fr raw(2) [OF n'] by (auto simp: eq sel)
  show "c \<in> set (xs @ b # ys) \<Longrightarrow> blk_flags (block_split b n p) c = blk_flags p c"
    "blk_flags (block_split b n p) ?new = 1"
    using raw(2) [OF n'] by (auto simp: eq insert_flags sel)
qed

text \<open>Merging: a block absorbs the block behind it.\<close>

lemma absorb_sel:
  assumes "b \<noteq> n" "next_phys p n \<noteq> Some b"
  shows "blk_size (block_absorb b n p) c = (if c = b then uadd (blk_size p b) (28 + blk_size p n) else blk_size p c)"
    "blk_flags (block_absorb b n p) c = blk_flags p c"
    "next_free (block_absorb b n p) c = next_free p c" "prev_free (block_absorb b n p) c = prev_free p c"
    "next_phys (block_absorb b n p) c = (if c = b then next_phys p n else next_phys p c)"
    "prev_phys (block_absorb b n p) c = (if next_phys p n = Some c then Some b else prev_phys p c)"
    "bh_signature (tp_mem (block_absorb b n p) c) = bh_signature (tp_mem p c)"
    "tp_free_list (block_absorb b n p) = tp_free_list p" "tp_block_list (block_absorb b n p) = tp_block_list p"
    "tp_memory (block_absorb b n p) = tp_memory p" "tp_total_size (block_absorb b n p) = tp_total_size p"
    "tp_used_size (block_absorb b n p) = tp_used_size p" "tp_min_free (block_absorb b n p) = tp_min_free p"
  using assms by (auto simp: block_absorb_def Let_def split: option.split)

lemma pool_absorb:
  assumes ok: "pool_ok p (xs @ b # n # ys) F E" and E: "b \<in> E" "n \<in> E"
  shows "pool_ok (block_absorb b n p) (xs @ b # ys) F (E - {n})" (is "pool_ok ?q _ _ _")
    and "blk_size (block_absorb b n p) c = (if c = b then blk_size p b + 28 + blk_size p n else blk_size p c)"
    and "blk_flags (block_absorb b n p) c = blk_flags p c"
    and "tp_used_size (block_absorb b n p) = tp_used_size p" "tp_min_free (block_absorb b n p) = tp_min_free p"
    and "tp_memory (block_absorb b n p) = tp_memory p" "tp_total_size (block_absorb b n p) = tp_total_size p"
proof -
  have ph: "phys_ok p (xs @ b # n # ys)" and fr: "free_ok p (xs @ b # n # ys) F E" and sub: "E \<subseteq> set (xs @ b # n # ys)"
    using ok by (auto simp: pool_ok_def)
  note dist = phys_distinct [OF ph]
  let ?e = "tp_memory p + tp_total_size p"
  have nb: "next_phys p b = Some n" "next_phys p n = first ys" "prev_phys p n = Some b"
    using next_phys_pos [OF ph, of xs b "n # ys"] next_phys_pos [OF ph, of "xs @ [b]" n ys] by auto
  have ne: "b \<noteq> n" "next_phys p n \<noteq> Some b"
    using dist unfolding nb by (auto simp: first_def split: list.splits)
  note sel = absorb_sel [OF ne]
  have lay: "layout (blk_size p) (tp_memory p) (xs @ b # n # ys) ?e" using ph by (simp add: phys_ok_def)
  then obtain m where m: "layout (blk_size p) (tp_memory p) xs m" "m = b" "n = b + 28 + blk_size p b"
    "layout (blk_size p) (n + 28 + blk_size p n) ys ?e" by (auto simp: layout_append)
  have "b + 28 + blk_size p b + 28 + blk_size p n < 2 ^ 32"
    using phys_bound [OF ph, of n] m(3) by auto
  then have sz: "blk_size ?q c = (if c = b then blk_size p b + 28 + blk_size p n else blk_size p c)" for c
    by (simp add: sel)
  show "blk_size ?q c = (if c = b then blk_size p b + 28 + blk_size p n else blk_size p c)" by (rule sz)
  show "blk_flags ?q c = blk_flags p c" "tp_used_size ?q = tp_used_size p" "tp_min_free ?q = tp_min_free p"
    "tp_memory ?q = tp_memory p" "tp_total_size ?q = tp_total_size p" by (simp_all add: sel)
  have "remove1 n (xs @ b # n # ys) = xs @ b # ys" using dist by (simp add: remove1_append)
  moreover have "dll (ll_remove_next (next_phys p) (prev_phys p) n) (ll_remove_prev (next_phys p) (prev_phys p) n)
      (ll_remove_head (next_phys p) (prev_phys p) (Some (tp_memory p)) n) None (remove1 n (xs @ b # n # ys))"
    by (rule dll_remove) (use ph dist in \<open>auto simp: phys_ok_def\<close>)
  ultimately have "dll (ll_remove_next (next_phys p) (prev_phys p) n) (ll_remove_prev (next_phys p) (prev_phys p) n)
      (Some (tp_memory p)) None (xs @ b # ys)" using nb by (simp add: ll_remove_head_def)
  then have d: "dll (next_phys ?q) (prev_phys ?q) (Some (tp_memory p)) None (xs @ b # ys)"
    by (rule dll_cong) (use dist nb in \<open>auto simp: sel ll_remove_next_def ll_remove_prev_def first_def split: list.splits\<close>)
  have "layout (blk_size ?q) (tp_memory p) xs m" by (rule layout_cong [OF m(1)]) (use dist in \<open>auto simp: sz\<close>)
  moreover have "layout (blk_size ?q) (n + 28 + blk_size p n) ys ?e"
    by (rule layout_cong [OF m(4)]) (use dist in \<open>auto simp: sz\<close>)
  moreover have "b + 28 + blk_size ?q b = n + 28 + blk_size p n" using sz [of b] m(3) by simp
  ultimately have "layout (blk_size ?q) (tp_memory p) (xs @ b # ys) ?e"
    using m(2) by (auto simp only: layout_append layout.simps)
  then have "phys_ok ?q (xs @ b # ys)" using d ph by (auto simp: phys_ok_def sel)
  moreover have "free_ok ?q (xs @ b # ys) F (E - {n})"
    by (rule free_ok_change [OF fr]) (use E dist free_okD(6) [OF fr] in \<open>auto simp: sel\<close>)
  ultimately show "pool_ok ?q (xs @ b # ys) F (E - {n})" using sub by (auto simp: pool_ok_def)
qed

section \<open>Merging with the neighbours\<close>

definition pool_frame :: "tlsf_pool \<Rightarrow> tlsf_pool \<Rightarrow> bool" where
  "pool_frame p q \<longleftrightarrow> tp_memory q = tp_memory p \<and> tp_total_size q = tp_total_size p \<and>
    tp_used_size q = tp_used_size p \<and> tp_min_free q = tp_min_free p \<and> tp_signature q = tp_signature p"

lemma pool_frame_refl [simp]: "pool_frame p p"
  by (simp add: pool_frame_def)

lemma pool_frame_trans [trans]: "pool_frame p q \<Longrightarrow> pool_frame q r \<Longrightarrow> pool_frame p r"
  by (simp add: pool_frame_def)

lemma pool_frame_ops:
  "pool_frame p (block_insert_free b p)" "pool_frame p (block_remove_free b p)" "pool_frame p (block_absorb b c p)"
  "pool_frame p (upd_block b f p)" "pool_frame p (block_split b n p)"
  by (auto simp: pool_frame_def block_insert_free_def block_remove_free_def block_absorb_def block_split_def Let_def
      split: option.split)

lemma remove_same: "blk_size (block_remove_free a p) c = blk_size p c"
  using remove_frame [of p a] by (simp add: free_frame_def)

lemma pool_remove_free:
  assumes "pool_ok p bs F E" "a \<in> set bs" "blk_flags p a = 1"
  shows "\<exists>F'. pool_ok (block_remove_free a p) bs F' (insert a E)"
  using pool_remove [OF assms(1), of a "tlsf_get_index (blk_size p a)"] free_okD(4) [of p bs F E a] assms
  by (auto simp: pool_ok_def)

text \<open>Absorbing a free block that stands before or behind the block being freed.\<close>

lemma merge_free:
  assumes "pool_ok p (xs @ a # b # ys) F {e}" "e = a \<and> blk_flags p b = 1 \<and> r = b \<or> e = b \<and> blk_flags p a = 1 \<and> r = a"
    and q: "q = block_absorb a b (block_remove_free r p)"
  shows "\<exists>F'. pool_ok q (xs @ a # ys) F' {a}" and "pool_frame p q"
    and "c \<in> set (xs @ ys) \<Longrightarrow> blk_flags q c = blk_flags p c \<and> blk_size q c = blk_size p c"
proof -
  have ne: "a \<noteq> b" "a \<notin> set xs" "a \<notin> set ys" "b \<notin> set xs" "b \<notin> set ys"
    using assms(1) phys_distinct by (force simp: pool_ok_def)+
  obtain F1 where ok: "pool_ok (block_remove_free r p) (xs @ a # b # ys) F1 {a, b}"
    using pool_remove_free [OF assms(1), of r] assms(2) by (auto simp: insert_commute)
  have ab: "pool_ok q (xs @ a # ys) F1 ({a, b} - {b})" "c \<noteq> a \<Longrightarrow> blk_size q c = blk_size p c"
    "blk_flags q c = blk_flags (block_remove_free r p) c"
    using pool_absorb(1-3) [OF ok] unfolding q by (auto simp: remove_same)
  have "{a, b} - {b} = {a}" using ne(1) by auto
  then show "\<exists>F'. pool_ok q (xs @ a # ys) F' {a}" using ab(1) by auto
  show "pool_frame p q" unfolding q using pool_frame_ops pool_frame_trans by blast
  show "blk_flags q c = blk_flags p c \<and> blk_size q c = blk_size p c" if "c \<in> set (xs @ ys)"
    using ab(2,3) ne that assms(2) by (auto simp: remove_flags remove_same)
qed

definition not_free :: "tlsf_pool \<Rightarrow> nat option \<Rightarrow> bool" where
  "not_free p r \<longleftrightarrow> (\<forall>a. r = Some a \<longrightarrow> blk_flags p a \<noteq> 1)"

definition lasto :: "nat list \<Rightarrow> nat option" where
  "lasto xs = (if xs = [] then None else Some (last xs))"

lemma is_free_flag: "pool_ok p bs F E \<Longrightarrow> a \<in> set bs \<Longrightarrow> is_free p a \<longleftrightarrow> blk_flags p a = 1"
  using free_okD(5,6) [of p bs F E a] by (cases "a \<in> E") (auto simp: pool_ok_def is_free_def)

lemma merge_prev:
  assumes ok: "pool_ok p (xs @ b # ys) F {b}"
  obtains xs' b' F' q where
    "(case prev_phys p b of
        Some prev \<Rightarrow> if is_free p prev then (prev, block_absorb prev b (block_remove_free prev p)) else (b, p)
      | None \<Rightarrow> (b, p)) = (b', q)"
    "pool_ok q (xs' @ b' # ys) F' {b'}" "pool_frame p q"
    "\<And>c. c \<in> set (xs' @ ys) \<Longrightarrow> blk_flags q c = blk_flags p c \<and> blk_size q c = blk_size p c"
    "xs' = xs \<and> not_free p (lasto xs) \<or> xs = xs' @ [b'] \<and> blk_flags p b' = 1"
proof (cases "xs = []")
  case True
  then have "prev_phys p b = None" using next_phys_pos(2) [OF _ refl, of p xs b ys] ok by (simp add: pool_ok_def)
  then show thesis using that [of b p xs F] ok True by (simp add: not_free_def lasto_def)
next
  case False
  define a where "a = last xs"
  obtain us where xs: "xs = us @ [a]" unfolding a_def using False by (metis append_butlast_last_id)
  have pr: "prev_phys p b = Some a" using next_phys_pos(2) [OF _ refl, of p xs b ys] ok xs by (simp add: pool_ok_def)
  have ok': "pool_ok p (us @ a # b # ys) F {b}" using ok xs by simp
  show thesis
  proof (cases "is_free p a")
    case True
    then have fl: "blk_flags p a = 1" using is_free_flag [OF ok, of a] xs by simp
    note m = merge_free [OF ok' _ refl, of a]
    obtain F' where "pool_ok (block_absorb a b (block_remove_free a p)) (us @ a # ys) F' {a}" using m(1) fl by auto
    then show thesis using that [of a "block_absorb a b (block_remove_free a p)" us F'] m(2,3) fl True pr xs by auto
  next
    case False
    then have "blk_flags p a \<noteq> 1" using is_free_flag [OF ok, of a] xs by simp
    then show thesis using that [of b p xs F] ok False pr xs by (simp add: not_free_def lasto_def)
  qed
qed

lemma merge_next:
  assumes ok: "pool_ok p (xs @ b # ys) F {b}"
  obtains ys' F' q where
    "(case next_phys p b of
        Some nxt \<Rightarrow> if is_free p nxt then (b, block_absorb b nxt (block_remove_free nxt p)) else (b, p)
      | None \<Rightarrow> (b, p)) = (b, q)"
    "pool_ok q (xs @ b # ys') F' {b}" "pool_frame p q"
    "\<And>c. c \<in> set (xs @ ys') \<Longrightarrow> blk_flags q c = blk_flags p c \<and> blk_size q c = blk_size p c"
    "ys' = ys \<and> not_free p (first ys) \<or> (\<exists>a. ys = a # ys' \<and> blk_flags p a = 1)"
proof (cases ys)
  case Nil
  then have "next_phys p b = None" using next_phys_pos [OF _ refl, of p xs b ys] ok by (simp add: pool_ok_def first_def)
  then show thesis using that [of p ys F] ok Nil by (simp add: not_free_def first_def)
next
  case (Cons a us)
  have nx: "next_phys p b = Some a" using next_phys_pos [OF _ refl, of p xs b ys] ok Cons by (simp add: pool_ok_def first_def)
  show thesis
  proof (cases "is_free p a")
    case True
    then have fl: "blk_flags p a = 1" using is_free_flag [OF ok, of a] Cons by simp
    note m = merge_free [OF ok [unfolded Cons] _ refl, of a]
    obtain F' where "pool_ok (block_absorb b a (block_remove_free a p)) (xs @ b # us) F' {b}" using m(1) fl by auto
    then show thesis using that [of "block_absorb b a (block_remove_free a p)" us F'] m(2,3) fl True nx Cons by auto
  next
    case False
    then have "blk_flags p a \<noteq> 1" using is_free_flag [OF ok, of a] Cons by simp
    then show thesis using that [of p ys F] ok False nx Cons by (simp add: not_free_def first_def)
  qed
qed

lemma pool_merge:
  assumes ok: "pool_ok p (xs @ b # ys) F {b}"
  obtains xs' b' ys' F' q where "block_merge b p = (b', q)" "pool_ok q (xs' @ b' # ys') F' {b'}" "pool_frame p q"
    "\<And>c. c \<in> set (xs' @ ys') \<Longrightarrow> blk_flags q c = blk_flags p c \<and> blk_size q c = blk_size p c"
    "xs' = xs \<and> not_free p (lasto xs) \<or> (\<exists>a. xs = xs' @ [a] \<and> blk_flags p a = 1)"
    "ys' = ys \<and> not_free p (first ys) \<or> (\<exists>a. ys = a # ys' \<and> blk_flags p a = 1)"
proof -
  obtain xs' b' F1 p1 where 1:
    "(case prev_phys p b of
        Some prev \<Rightarrow> if is_free p prev then (prev, block_absorb prev b (block_remove_free prev p)) else (b, p)
      | None \<Rightarrow> (b, p)) = (b', p1)"
    "pool_ok p1 (xs' @ b' # ys) F1 {b'}" "pool_frame p p1"
    "\<And>c. c \<in> set (xs' @ ys) \<Longrightarrow> blk_flags p1 c = blk_flags p c \<and> blk_size p1 c = blk_size p c"
    "xs' = xs \<and> not_free p (lasto xs) \<or> xs = xs' @ [b'] \<and> blk_flags p b' = 1"
    by (rule merge_prev [OF ok]) (rule that)
  obtain ys' F2 q where 2:
    "(case next_phys p1 b' of
        Some nxt \<Rightarrow> if is_free p1 nxt then (b', block_absorb b' nxt (block_remove_free nxt p1)) else (b', p1)
      | None \<Rightarrow> (b', p1)) = (b', q)"
    "pool_ok q (xs' @ b' # ys') F2 {b'}" "pool_frame p1 q"
    "\<And>c. c \<in> set (xs' @ ys') \<Longrightarrow> blk_flags q c = blk_flags p1 c \<and> blk_size q c = blk_size p1 c"
    "ys' = ys \<and> not_free p1 (first ys) \<or> (\<exists>a. ys = a # ys' \<and> blk_flags p1 a = 1)"
    by (rule merge_next [OF 1(2)]) (rule that)
  have y: "ys' = ys \<and> not_free p (first ys) \<or> (\<exists>a. ys = a # ys' \<and> blk_flags p a = 1)"
    using 2(5) 1(4) by (cases ys) (auto simp: not_free_def)
  show thesis
  proof (rule that [of b' q xs' ys' F2])
    show "block_merge b p = (b', q)" unfolding block_merge_def 1(1) Let_def prod.case 2(1) ..
    show "pool_ok q (xs' @ b' # ys') F2 {b'}" by (rule 2(2))
    show "pool_frame p q" using 1(3) 2(3) pool_frame_trans by blast
    show "blk_flags q c = blk_flags p c \<and> blk_size q c = blk_size p c" if "c \<in> set (xs' @ ys')" for c
      using 2(4) [OF that] 1(4) [of c] that y by auto
    show "xs' = xs \<and> not_free p (lasto xs) \<or> (\<exists>a. xs = xs' @ [a] \<and> blk_flags p a = 1)" using 1(5) by blast
  qed (rule y)
qed

section \<open>The heap as a list of allocations\<close>

text \<open>No two neighbouring blocks satisfy \<open>f\<close>.\<close>

fun no_adj :: "('a \<Rightarrow> bool) \<Rightarrow> 'a list \<Rightarrow> bool" where
  "no_adj f (a # b # xs) \<longleftrightarrow> \<not> (f a \<and> f b) \<and> no_adj f (b # xs)"
| "no_adj f xs \<longleftrightarrow> True"

lemma no_adj_Cons: "no_adj f (a # xs) \<longleftrightarrow> no_adj f xs \<and> \<not> (xs \<noteq> [] \<and> f a \<and> f (hd xs))"
  by (cases xs) auto

lemma no_adj_append:
  "no_adj f (xs @ ys) \<longleftrightarrow> no_adj f xs \<and> no_adj f ys \<and> \<not> (xs \<noteq> [] \<and> ys \<noteq> [] \<and> f (last xs) \<and> f (hd ys))"
  by (induction xs) (auto simp: no_adj_Cons hd_append)

lemma no_adj_cong: "no_adj f xs \<Longrightarrow> (\<And>c. c \<in> set xs \<Longrightarrow> g c \<longleftrightarrow> f c) \<Longrightarrow> no_adj g xs"
  by (induction xs) (auto simp: no_adj_Cons)

text \<open>The allocations of a pool in address order: the pointer handed out and the size of its block.\<close>

definition allocations :: "tlsf_pool \<Rightarrow> nat list \<Rightarrow> (nat \<times> nat) list" where
  "allocations p bs = map (\<lambda>b. (b + 28, blk_size p b)) (filter (\<lambda>b. blk_flags p b = 2) bs)"

definition alloc_bytes :: "(nat \<times> nat) list \<Rightarrow> nat" where
  "alloc_bytes A = (\<Sum>(a, n)\<leftarrow>A. n + 28)"

lemma allocations_append [simp]: "allocations p (xs @ ys) = allocations p xs @ allocations p ys"
  by (simp add: allocations_def)

lemma allocations_Cons [simp]:
  "allocations p (b # bs) = (if blk_flags p b = 2 then [(b + 28, blk_size p b)] else []) @ allocations p bs"
  by (simp add: allocations_def)

lemma allocations_Nil [simp]: "allocations p [] = []"
  by (simp add: allocations_def)

lemma alloc_bytes_simps [simp]: "alloc_bytes [] = 0" "alloc_bytes ((a, n) # A) = n + 28 + alloc_bytes A"
  "alloc_bytes (A @ B) = alloc_bytes A + alloc_bytes B"
  by (simp_all add: alloc_bytes_def)

lemma allocations_cong:
  "(\<And>c. c \<in> set bs \<Longrightarrow> blk_flags q c = blk_flags p c \<and> blk_size q c = blk_size p c) \<Longrightarrow> allocations q bs = allocations p bs"
  by (induction bs) auto

text \<open>
  A pool represents the allocations \<open>A\<close>: its physical chain and free lists are consistent, no two
  neighbouring blocks are free, the used bytes are those of \<open>A\<close>, and the recorded minimum of the
  free bytes is a bound.
\<close>

definition heap_blocks :: "tlsf_pool \<Rightarrow> nat list \<Rightarrow> (nat \<times> nat) list \<Rightarrow> bool" where
  "heap_blocks p bs A \<longleftrightarrow> (\<exists>F. pool_ok p bs F {}) \<and> no_adj (\<lambda>b. blk_flags p b = 1) bs \<and> A = allocations p bs \<and>
    tp_used_size p = alloc_bytes A \<and> tp_min_free p + alloc_bytes A \<le> tp_total_size p \<and> tp_signature p = TLSF_SIGNATURE"

definition heap_rel :: "tlsf_pool \<Rightarrow> (nat \<times> nat) list \<Rightarrow> bool" where
  "heap_rel p A \<longleftrightarrow> (\<exists>bs. heap_blocks p bs A)"

lemma heap_sizes:
  assumes "phys_ok p bs"
  shows "(\<Sum>b\<leftarrow>bs. blk_size p b + 28) = tp_total_size p"
  proof -
  have "layout (blk_size p) (tp_memory p) bs (tp_memory p + tp_total_size p)" using assms by (simp add: phys_ok_def)
  then show ?thesis using layout_sum by fastforce
qed

lemma alloc_bytes_filter: "alloc_bytes (allocations p bs) = (\<Sum>b\<leftarrow>filter (\<lambda>b. blk_flags p b = 2) bs. blk_size p b + 28)"
  by (induction bs) auto

lemma alloc_bytes_le: "phys_ok p bs \<Longrightarrow> alloc_bytes (allocations p bs) \<le> tp_total_size p"
  using sum_list_filter_le_nat [of "\<lambda>b. blk_size p b + 28" "\<lambda>b. blk_flags p b = 2" bs] heap_sizes [of p bs]
  by (simp add: alloc_bytes_filter)

lemma filter_split:
  "filter P bs = us @ b # vs \<Longrightarrow> \<exists>xs ys. bs = xs @ b # ys \<and> filter P xs = us \<and> filter P ys = vs \<and> P b"
proof (induction bs arbitrary: us)
  case (Cons c bs)
  show ?case
  proof (cases "P c \<and> us = []")
    case True
    then show ?thesis using Cons.prems by simp (rule exI [of _ "[]"], simp)
  next
    case False
    then obtain us' where "filter P bs = us' @ b # vs" "us = (if P c then c # us' else us')"
      using Cons.prems by (cases us) (auto split: if_splits)
    then obtain xs ys where "bs = xs @ b # ys" "filter P xs = us'" "filter P ys = vs" "P b" using Cons.IH by blast
    then show ?thesis using \<open>us = _\<close> by (intro exI [of _ "c # xs"] exI [of _ ys]) simp
  qed
qed simp

text \<open>Where an allocation stands in the pool.\<close>

lemma alloc_position:
  assumes "heap_blocks p bs (A1 @ (a, n) # A2)"
  obtains xs b ys where "bs = xs @ b # ys" "a = b + 28" "n = blk_size p b" "blk_flags p b = 2"
    "A1 = allocations p xs" "A2 = allocations p ys"
proof -
  have "A1 @ (a, n) # A2 = map (\<lambda>b. (b + 28, blk_size p b)) (filter (\<lambda>b. blk_flags p b = 2) bs)"
    using assms by (simp add: heap_blocks_def allocations_def)
  then obtain us b vs where f: "filter (\<lambda>b. blk_flags p b = 2) bs = us @ b # vs"
    and m: "A1 = map (\<lambda>b. (b + 28, blk_size p b)) us" "(a, n) = (b + 28, blk_size p b)" "A2 = map (\<lambda>b. (b + 28, blk_size p b)) vs"
    by (auto simp: append_eq_map_conv Cons_eq_map_conv)
  obtain xs ys where "bs = xs @ b # ys" "filter (\<lambda>b. blk_flags p b = 2) xs = us" "filter (\<lambda>b. blk_flags p b = 2) ys = vs"
    "blk_flags p b = 2" using filter_split [OF f] by auto
  then show thesis using that [of xs b ys] m by (simp add: allocations_def)
qed

lemma free_step:
  assumes ok: "pool_ok p (xs @ b # ys) F {}" and fl: "blk_flags p b = 2"
    and q: "q = (upd_block b (\<lambda>h. h\<lparr>bh_flags := bh_flags h AND NOT TLSF_BLOCK_USED\<rparr>) p)\<lparr>tp_used_size := u\<rparr>"
  shows "pool_ok q (xs @ b # ys) F {b}"
proof -
  have ph: "phys_ok p (xs @ b # ys)" and fr: "free_ok p (xs @ b # ys) F {}" using ok by (auto simp: pool_ok_def)
  have same: "blk_size q c = blk_size p c" "next_free q c = next_free p c" "prev_free q c = prev_free p c"
    "next_phys q c = next_phys p c" "prev_phys q c = prev_phys p c" "bh_signature (tp_mem q c) = bh_signature (tp_mem p c)"
    "blk_flags q c = (if c = b then 0 else blk_flags p c)" for c
    using fl by (simp_all add: q)
  note D = free_okD [OF fr]
  have "phys_ok q (xs @ b # ys)" using ph unfolding phys_ok_def same by (simp add: q)
  moreover have "free_ok q (xs @ b # ys) F {b}"
  proof (rule free_okI)
    show "dll (next_free q) (prev_free q) (tp_free_list q i) None (F i)" for i using D(1) unfolding same by (simp add: q)
    show "distinct (F i)" for i by (rule D(2))
    show "c \<in> set (xs @ b # ys) \<and> blk_flags q c = 1 \<and> tlsf_get_index (blk_size q c) = i" if "c \<in> set (F i)" for c i
      using D(3) [OF that] fl unfolding same by auto
    show "c \<in> set (F (tlsf_get_index (blk_size q c)))" if "c \<in> set (xs @ b # ys)" "blk_flags q c = 1" for c
      using that D(4) [of c] unfolding same by (auto split: if_splits)
    show "blk_flags q c = 1 \<or> blk_flags q c = 2" if "c \<in> set (xs @ b # ys)" "c \<notin> {b}" for c
      using that D(5) [of c] unfolding same by auto
    show "blk_flags q c = 0" if "c \<in> {b}" for c using that unfolding same by simp
  qed
  ultimately show ?thesis by (simp add: pool_ok_def)
qed

lemma merge_no_adj:
  assumes "no_adj f (xs @ b # ys)"
    and "xs' = xs \<and> (xs \<noteq> [] \<longrightarrow> \<not> f (last xs)) \<or> (\<exists>a. xs = xs' @ [a] \<and> f a)"
    and "ys' = ys \<and> (ys \<noteq> [] \<longrightarrow> \<not> f (hd ys)) \<or> (\<exists>a. ys = a # ys' \<and> f a)"
  shows "no_adj f xs' \<and> no_adj f ys' \<and> (xs' \<noteq> [] \<longrightarrow> \<not> f (last xs')) \<and> (ys' \<noteq> [] \<longrightarrow> \<not> f (hd ys'))"
  using assms by (auto simp: no_adj_append no_adj_Cons)

text \<open>Putting the merged block \<open>b'\<close> on its free list completes the pool.\<close>

lemma heap_insert_merged:
  assumes ok: "pool_ok q (xs' @ b' # ys') F' {b'}"
    and same: "\<And>c. c \<in> set (xs' @ ys') \<Longrightarrow> blk_flags q c = blk_flags p c \<and> blk_size q c = blk_size p c"
    and adj: "no_adj (\<lambda>c. blk_flags p c = 1) xs' \<and> no_adj (\<lambda>c. blk_flags p c = 1) ys' \<and>
      (xs' \<noteq> [] \<longrightarrow> blk_flags p (last xs') \<noteq> 1) \<and> (ys' \<noteq> [] \<longrightarrow> blk_flags p (hd ys') \<noteq> 1)"
    and A: "A = allocations p xs' @ allocations p ys'" "tp_used_size q = alloc_bytes A"
      "tp_min_free q + alloc_bytes A \<le> tp_total_size q" "tp_signature q = TLSF_SIGNATURE"
  shows "heap_blocks (block_insert_free b' q) (xs' @ b' # ys') A" (is "heap_blocks ?r _ _")
proof -
  have dist: "distinct (xs' @ b' # ys')" and fr: "free_ok q (xs' @ b' # ys') F' {b'}"
    using phys_distinct [of q "xs' @ b' # ys'"] ok by (simp_all add: pool_ok_def)
  have r: "blk_flags ?r c = blk_flags p c \<and> blk_size ?r c = blk_size p c" if "c \<in> set xs' \<union> set ys'" for c
    using that same [of c] dist insert_frame [of q b'] by (auto simp: insert_flags free_frame_def)
  have rb: "blk_flags ?r b' = 1" using free_okD(6) [OF fr, of b'] by (simp add: insert_flags)
  have "no_adj (\<lambda>c. blk_flags ?r c = 1) xs'" "no_adj (\<lambda>c. blk_flags ?r c = 1) ys'"
    "xs' \<noteq> [] \<Longrightarrow> blk_flags ?r (last xs') \<noteq> 1" "ys' \<noteq> [] \<Longrightarrow> blk_flags ?r (hd ys') \<noteq> 1"
    using r adj by (auto elim!: no_adj_cong)
  then have "no_adj (\<lambda>c. blk_flags ?r c = 1) (xs' @ b' # ys')" by (auto simp: no_adj_append no_adj_Cons)
  moreover have "allocations ?r xs' = allocations p xs'" "allocations ?r ys' = allocations p ys'"
    using r by (auto intro!: allocations_cong)
  moreover have "\<exists>F. pool_ok ?r (xs' @ b' # ys') F {}" using pool_insert [OF ok, of b'] by auto
  ultimately show ?thesis using A rb pool_frame_ops(1) [of q b'] by (auto simp: heap_blocks_def pool_frame_def)
qed

text \<open>
  Freeing an allocation removes exactly that allocation and merges its block with its free
  neighbours.
\<close>

lemma heap_free:
  assumes rel: "heap_rel p (A1 @ (a, n) # A2)"
  shows "heap_rel (tlsf_free (Some a) p) (A1 @ A2)"
proof -
  obtain bs where hb: "heap_blocks p bs (A1 @ (a, n) # A2)" using rel by (auto simp: heap_rel_def)
  obtain xs b ys where p: "bs = xs @ b # ys" "a = b + 28" "n = blk_size p b" "blk_flags p b = 2"
    "A1 = allocations p xs" "A2 = allocations p ys" by (rule alloc_position [OF hb])
  obtain F where ok: "pool_ok p (xs @ b # ys) F {}" using hb p(1) by (auto simp: heap_blocks_def)
  have ph: "phys_ok p (xs @ b # ys)" using ok by (simp add: pool_ok_def)
  have used: "tp_used_size p = alloc_bytes A1 + (n + 28 + alloc_bytes A2)" using hb by (simp add: heap_blocks_def)
  have bd: "b + 28 + blk_size p b < 2 ^ 32" "alloc_bytes (allocations p (xs @ b # ys)) < 2 ^ 32"
    using phys_bound [OF ph, of b] alloc_bytes_le [OF ph] by auto
  define p1 where "p1 = (upd_block b (\<lambda>h. h\<lparr>bh_flags := bh_flags h AND NOT TLSF_BLOCK_USED\<rparr>) p)
    \<lparr>tp_used_size := alloc_bytes (A1 @ A2)\<rparr>"
  obtain xs' b' ys' F' q where m: "block_merge b p1 = (b', q)" "pool_ok q (xs' @ b' # ys') F' {b'}" "pool_frame p1 q"
    "\<And>c. c \<in> set (xs' @ ys') \<Longrightarrow> blk_flags q c = blk_flags p1 c \<and> blk_size q c = blk_size p1 c"
    "xs' = xs \<and> not_free p1 (lasto xs) \<or> (\<exists>a. xs = xs' @ [a] \<and> blk_flags p1 a = 1)"
    "ys' = ys \<and> not_free p1 (first ys) \<or> (\<exists>a. ys = a # ys' \<and> blk_flags p1 a = 1)"
    by (rule pool_merge [OF free_step [OF ok p(4), of p1 "alloc_bytes (A1 @ A2)"]]) (simp add: p1_def, rule that)
  have bf: "block_from_ptr a = b" using p(2) bd(1) by (simp add: block_from_ptr_def usub_small)
  have sub: "usub (tp_used_size p) (blk_size p b + 28) = alloc_bytes (A1 @ A2)"
    using used bd(2) p by (simp add: usub_small)
  have sig: "bh_signature (tp_mem p b) = TLSF_SIGNATURE" using ph by (simp add: phys_ok_def)
  have eq: "tlsf_free (Some a) p = block_insert_free b' q"
    using m(1) sig p(4) sub by (simp add: tlsf_free_def bf Let_def p1_def)
  have same: "blk_flags p1 c = blk_flags p c \<and> blk_size p1 c = blk_size p c" if "c \<in> set xs \<union> set ys" for c
    using that phys_distinct [OF ph] by (auto simp: p1_def)
  have sub': "set xs' \<subseteq> set xs" "set ys' \<subseteq> set ys" using m(5,6) by auto
  have "heap_blocks (block_insert_free b' q) (xs' @ b' # ys') (A1 @ A2)"
  proof (rule heap_insert_merged [OF m(2), where p = p])
    show "blk_flags q c = blk_flags p c \<and> blk_size q c = blk_size p c" if "c \<in> set (xs' @ ys')" for c
      using m(4) [OF that] same [of c] sub' that by auto
    show "no_adj (\<lambda>c. blk_flags p c = 1) xs' \<and> no_adj (\<lambda>c. blk_flags p c = 1) ys' \<and>
        (xs' \<noteq> [] \<longrightarrow> blk_flags p (last xs') \<noteq> 1) \<and> (ys' \<noteq> [] \<longrightarrow> blk_flags p (hd ys') \<noteq> 1)"
      by (rule merge_no_adj [of _ xs b ys]) (use hb p(1) m(5,6) same in \<open>auto simp: heap_blocks_def not_free_def lasto_def first_def split: list.splits\<close>)
    show "A1 @ A2 = allocations p xs' @ allocations p ys'" using m(5,6) same p(5,6) by auto
  qed (use m(3) hb in \<open>simp_all add: pool_frame_def p1_def heap_blocks_def\<close>)
  then show ?thesis unfolding heap_rel_def eq by blast
qed

end
