(* ===== verification/Tlsf_Heap.thy ===== *)
theory Tlsf_Heap
  imports Tlsf_Lists "HOL-Library.Multiset"
begin

text \<open>
  Allocation from a pool: the search of the free lists, the free-size count, the functional
  behaviour of \<open>tlsf_malloc\<close> on the list of allocations, and the interface \<open>heap_iface\<close> a client of an
  allocator relies on, interpreted by the pool.
\<close>

section \<open>Searching the free lists\<close>

lemma scan_bucket_find:
  "dll (next_free p) (prev_free p) h v xs \<Longrightarrow> scan_bucket t h p = Some (find (\<lambda>b. t \<le> blk_size p b) xs)"
  by (induction xs arbitrary: h v) (subst scan_bucket.simps; auto)+

lemma free_list_size_sum:
  "dll (next_free p) (prev_free p) h v xs \<Longrightarrow> acc < 2 ^ 32 \<Longrightarrow>
    free_list_size h acc p = Some ((acc + (\<Sum>b\<leftarrow>xs. blk_size p b + 28)) mod 2 ^ 32)"
proof (induction xs arbitrary: h v acc)
  case Nil
  then show ?case by (subst free_list_size.simps) simp
next
  case (Cons b xs)
  have d: "h = Some b" "dll (next_free p) (prev_free p) (next_free p b) (Some b) xs" using Cons.prems(1) by auto
  have "free_list_size h acc p = free_list_size (next_free p b) (uadd acc (blk_size p b + 28)) p"
    unfolding d(1) by (subst free_list_size.simps) simp
  also have "\<dots> = Some ((uadd acc (blk_size p b + 28) + (\<Sum>b\<leftarrow>xs. blk_size p b + 28)) mod 2 ^ 32)"
    by (rule Cons.IH [OF d(2) uadd_less])
  finally show ?case by (simp add: uadd_def mod_add_left_eq add.assoc)
qed

lemma pool_free_loop_sum:
  assumes "\<And>i. dll (next_free p) (prev_free p) (tp_free_list p i) None (F i)"
  shows "acc < 2 ^ 32 \<Longrightarrow>
    pool_free_loop js acc p = Some ((acc + (\<Sum>i\<leftarrow>js. \<Sum>b\<leftarrow>F i. blk_size p b + 28)) mod 2 ^ 32)"
proof (induction js arbitrary: acc)
  case (Cons j js)
  show ?case
    using Cons.IH [of "(acc + (\<Sum>b\<leftarrow>F j. blk_size p b + 28)) mod 2 ^ 32"] free_list_size_sum [OF assms Cons.prems]
    by (simp add: mod_add_left_eq add.assoc)
qed simp

text \<open>The free lists together hold each free block of the pool once.\<close>

lemma free_lists_sum:
  fixes g :: "nat \<Rightarrow> nat"
  assumes ok: "pool_ok p bs F E"
  shows "(\<Sum>i\<leftarrow>[0..<32]. \<Sum>b\<leftarrow>F i. g b) = (\<Sum>b\<leftarrow>filter (\<lambda>b. blk_flags p b = 1) bs. g b)"
proof -
  have fr: "free_ok p bs F E" and ph: "phys_ok p bs" using ok by (auto simp: pool_ok_def)
  note D = free_okD [OF fr]
  have "(\<Sum>i\<leftarrow>[0..<32]. \<Sum>b\<leftarrow>F i. g b) = (\<Sum>i\<in>{0..<32}. \<Sum>b\<in>set (F i). g b)"
    using D(2) by (simp add: sum_list_distinct_conv_sum_set del: upt_Suc upt_rec_numeral)
  also have "\<dots> = (\<Sum>b\<in>(\<Union>i\<in>{0..<32}. set (F i)). g b)"
    by (rule sum.UNION_disjoint [symmetric]) (use free_sep [OF fr] in auto)
  also have "(\<Union>i\<in>{0..<32}. set (F i)) = set (filter (\<lambda>b. blk_flags p b = 1) bs)"
  proof -
    have "tlsf_get_index (blk_size p b) < 32" if "b \<in> set bs" for b
      using phys_bound [OF ph that] by (intro tlsf_get_index_less) linarith
    then show ?thesis using D(3,4) by fastforce
  qed
  also have "(\<Sum>b\<in>\<dots>. g b) = (\<Sum>b\<leftarrow>filter (\<lambda>b. blk_flags p b = 1) bs. g b)"
    using phys_distinct [OF ph] by (simp add: sum_list_distinct_conv_sum_set)
  finally show ?thesis .
qed

lemma sum_filter_split:
  fixes g :: "'a \<Rightarrow> nat"
  assumes "\<And>b. b \<in> set bs \<Longrightarrow> P b \<longleftrightarrow> \<not> Q b"
  shows "(\<Sum>b\<leftarrow>filter P bs. g b) + (\<Sum>b\<leftarrow>filter Q bs. g b) = (\<Sum>b\<leftarrow>bs. g b)"
  using assms by (induction bs) auto

text \<open>The free size of a pool is what the allocations leave of it.\<close>

lemma free_size_ok:
  assumes ok: "pool_ok p bs F {}"
  shows "tlsf_pool_free_size p = Some (tp_total_size p - alloc_bytes (allocations p bs))"
proof -
  have fr: "free_ok p bs F {}" and ph: "phys_ok p bs" using ok by (auto simp: pool_ok_def)
  have "(\<Sum>b\<leftarrow>filter (\<lambda>b. blk_flags p b = 1) bs. blk_size p b + 28) + alloc_bytes (allocations p bs) = tp_total_size p"
    unfolding alloc_bytes_filter heap_sizes [OF ph, symmetric]
    by (rule sum_filter_split) (use free_okD(5) [OF fr] in auto)
  moreover have "tp_total_size p < 2 ^ 32" using ph by (simp add: phys_ok_def)
  moreover have "tlsf_pool_free_size p =
      Some ((0 + (\<Sum>i\<leftarrow>[0..<32]. \<Sum>b\<leftarrow>F i. blk_size p b + 28)) mod 2 ^ 32)"
    unfolding tlsf_pool_free_size_def by (rule pool_free_loop_sum) (use free_okD(1) [OF fr] in simp_all)
  ultimately show ?thesis unfolding free_lists_sum [OF ok] by simp
qed

text \<open>The search finds a block that is large enough, if a free block is.\<close>

lemma malloc_find_ok:
  assumes fr: "free_ok p bs F E"
  shows "\<exists>r. malloc_find ls start t p = Some r \<and>
    (case r of None \<Rightarrow> \<forall>fl\<in>set ls. \<forall>b\<in>set (F fl). fl = start \<and> blk_size p b < t
     | Some b \<Rightarrow> \<exists>fl\<in>set ls. b \<in> set (F fl) \<and> (fl = start \<longrightarrow> t \<le> blk_size p b))"
proof (induction ls)
  case (Cons fl ls)
  note d = free_okD(1) [OF fr, of fl]
  have step: "(if fl = start then scan_bucket t (tp_free_list p fl) p else Some (tp_free_list p fl)) =
      Some (if fl = start then find (\<lambda>b. t \<le> blk_size p b) (F fl) else first (F fl))" (is "_ = Some ?r")
    using scan_bucket_find [OF d, of t] d by (cases "F fl") auto
  show ?case
  proof (cases ?r)
    case None
    then have "\<forall>b\<in>set (F fl). fl = start \<and> blk_size p b < t"
      by (auto simp: find_None_iff first_def split: if_splits list.splits)
    then show ?thesis using Cons.IH by (auto simp add: step None split: option.splits)
  next
    case (Some b)
    then have "b \<in> set (F fl) \<and> (fl = start \<longrightarrow> t \<le> blk_size p b)"
      by (auto simp: find_Some_iff first_def split: if_splits list.splits)
    then show ?thesis by (simp add: step Some)
  qed
qed simp

lemma malloc_find_fits:
  assumes ok: "pool_ok p bs F {}" and t: "t < 2 ^ 32" and start: "start = tlsf_get_index t"
  shows "\<exists>r. malloc_find [start..<32] start t p = Some r \<and>
    (case r of None \<Rightarrow> \<forall>b\<in>set bs. blk_flags p b = 1 \<longrightarrow> blk_size p b < t
     | Some b \<Rightarrow> b \<in> set bs \<and> blk_flags p b = 1 \<and> t \<le> blk_size p b)"
proof -
  have fr: "free_ok p bs F {}" and ph: "phys_ok p bs" using ok by (auto simp: pool_ok_def)
  note D = free_okD [OF fr]
  have bd: "blk_size p b < 2 ^ 32" if "b \<in> set bs" for b using phys_bound [OF ph that] by linarith
  have up: "t \<le> blk_size p b" if "b \<in> set bs" "start < tlsf_get_index (blk_size p b)" for b
    using higher_bucket_fits [OF that(2) [unfolded start] t bd [OF that(1)]] by simp
  have small: "blk_size p b < t" if "b \<in> set bs" "tlsf_get_index (blk_size p b) < start" for b
    using higher_bucket_fits [OF that(2) [unfolded start] bd [OF that(1)] t] by simp
  obtain r where r: "malloc_find [start..<32] start t p = Some r"
    "case r of None \<Rightarrow> \<forall>fl\<in>set [start..<32]. \<forall>b\<in>set (F fl). fl = start \<and> blk_size p b < t
     | Some b \<Rightarrow> \<exists>fl\<in>set [start..<32]. b \<in> set (F fl) \<and> (fl = start \<longrightarrow> t \<le> blk_size p b)"
    using malloc_find_ok [OF fr, of "[start..<32]" start t] by (elim exE conjE) (rule that)
  show ?thesis
  proof (cases r)
    case None
    have "blk_size p b < t" if "b \<in> set bs" "blk_flags p b = 1" for b
      using r(2) D(4) [OF that] small [OF that(1)] tlsf_get_index_less [OF bd [OF that(1)]] unfolding None
      by (cases "tlsf_get_index (blk_size p b) < start") (auto simp del: upt_Suc upt_rec_numeral)
    then show ?thesis using r(1) None by auto
  next
    case (Some b)
    then obtain fl where fl: "fl \<in> set [start..<32]" "b \<in> set (F fl)" "fl = start \<longrightarrow> t \<le> blk_size p b" using r(2) by auto
    then show ?thesis using D(3) [OF fl(2)] up [of b] r(1) Some by (cases "fl = start") auto
  qed
qed

section \<open>Allocation\<close>

lemma pool_ok_counters [simp]: "pool_ok (p\<lparr>tp_used_size := u\<rparr>) bs F E \<longleftrightarrow> pool_ok p bs F E"
  "pool_ok (p\<lparr>tp_min_free := u\<rparr>) bs F E \<longleftrightarrow> pool_ok p bs F E"
  by (simp_all add: pool_ok_def phys_ok_def free_ok_def)

lemma allocations_counters [simp]: "allocations (p\<lparr>tp_used_size := u\<rparr>) bs = allocations p bs"
  "allocations (p\<lparr>tp_min_free := u\<rparr>) bs = allocations p bs"
  by (simp_all add: allocations_def)

text \<open>Taking a free block: it is removed from its list, cut to the request when it is much larger, and marked used.\<close>

lemma take_block:
  assumes ok: "pool_ok p (xs @ b # ys) F {}" and fl: "blk_flags p b = 1" and n: "n + 28 \<le> blk_size p b"
    and q: "q = upd_block b (\<lambda>h. h\<lparr>bh_flags := bh_flags h OR TLSF_BLOCK_USED\<rparr>)
      (if blk_size p b \<ge> n + 60 then block_split b n (block_remove_free b p) else block_remove_free b p)"
    and zs: "zs = (if blk_size p b \<ge> n + 60 then [b + n + 28] else [])"
  shows "\<exists>F'. pool_ok q (xs @ b # zs @ ys) F' {}" and "pool_frame p q" and "blk_flags q b = 2"
    and "blk_size q b = (if blk_size p b \<ge> n + 60 then n else blk_size p b)"
    and "c \<in> set (xs @ ys) \<Longrightarrow> blk_flags q c = blk_flags p c \<and> blk_size q c = blk_size p c"
    and "c \<in> set zs \<Longrightarrow> blk_flags q c = 1"
proof -
  let ?p1 = "block_remove_free b p"
  let ?p2 = "if blk_size p b \<ge> n + 60 then block_split b n ?p1 else ?p1"
  have dist: "distinct (xs @ b # ys)" using phys_distinct [of p "xs @ b # ys"] ok by (simp add: pool_ok_def)
  obtain F1 where ok1: "pool_ok ?p1 (xs @ b # ys) F1 {b}" using pool_remove_free [OF ok, of b] fl by auto
  have 1: "blk_size ?p1 c = blk_size p c" "blk_flags ?p1 c = (if c = b then 0 else blk_flags p c)" for c
    using fl by (simp_all add: remove_same remove_flags)
  have 2: "(\<exists>F2. pool_ok ?p2 (xs @ b # zs @ ys) F2 {b}) \<and>
    blk_size ?p2 b = (if blk_size p b \<ge> n + 60 then n else blk_size p b) \<and>
    (\<forall>c\<in>set (xs @ ys). blk_flags ?p2 c = blk_flags p c \<and> blk_size ?p2 c = blk_size p c) \<and> (\<forall>c\<in>set zs. c \<noteq> b \<and> blk_flags ?p2 c = 1)"
  proof (cases "blk_size p b \<ge> n + 60")
    case True
    note s = pool_split [OF ok1, of n, unfolded 1(1)]
    have "n + 28 + 32 \<le> blk_size p b" using True by simp
    then show ?thesis using s(1,2,6) s(4,5) dist True 1 by (auto simp: zs)
  next
    case False
    then show ?thesis using ok1 n dist 1 by (auto simp: zs)
  qed
  obtain F2 where ok2: "pool_ok ?p2 (xs @ b # zs @ ys) F2 {b}" using 2 by blast
  note m = pool_mark_used [OF ok2 _ q]
  have qc: "c \<noteq> b \<Longrightarrow> blk_flags q c = blk_flags ?p2 c" "blk_size q c = blk_size ?p2 c" for c by (simp_all add: q)
  show "\<exists>F'. pool_ok q (xs @ b # zs @ ys) F' {}" using m(1) by auto
  show "blk_flags q b = 2" using m(2) by simp
  show "blk_size q b = (if blk_size p b \<ge> n + 60 then n else blk_size p b)" using 2 qc(2) by simp
  show "blk_flags q c = blk_flags p c \<and> blk_size q c = blk_size p c" if "c \<in> set (xs @ ys)"
    using 2 that dist qc [of c] by auto
  show "blk_flags q c = 1" if "c \<in> set zs" using 2 that qc(1) [of c] by auto
  show "pool_frame p q" unfolding q by (rule pool_frame_trans [OF _ pool_frame_ops(4)])
      (simp add: pool_frame_ops pool_frame_trans [OF pool_frame_ops(2) pool_frame_ops(5)])
qed

lemma heap_take_blocks:
  assumes hb: "heap_blocks p (xs @ b # ys) A" and fl: "blk_flags p b = 1" and n: "n + 28 \<le> blk_size p b" "n + 60 < 2 ^ 32"
  shows "\<exists>q. malloc_take b n p = Some (Some (b + 28), q) \<and>
    heap_blocks q (xs @ b # (if blk_size p b \<ge> n + 60 then [b + n + 28] else []) @ ys) (allocations p xs @ (b + 28, if blk_size p b \<ge> n + 60 then n else blk_size p b) # allocations p ys)"
proof -
  obtain F where ok: "pool_ok p (xs @ b # ys) F {}" using hb by (auto simp: heap_blocks_def)
  have ph: "phys_ok p (xs @ b # ys)" using ok by (simp add: pool_ok_def)
  define p1 where "p1 = upd_block b (\<lambda>h. h\<lparr>bh_flags := bh_flags h OR TLSF_BLOCK_USED\<rparr>)
      (if blk_size p b \<ge> n + 60 then block_split b n (block_remove_free b p) else block_remove_free b p)"
  define zs where "zs = (if blk_size p b \<ge> n + 60 then [b + n + 28] else [])"
  note t = take_block [OF ok fl n(1) p1_def zs_def]
  let ?bs = "xs @ b # zs @ ys"
  obtain F1 where ok1: "pool_ok p1 ?bs F1 {}" using t(1) by blast
  have ph1: "phys_ok p1 ?bs" using ok1 by (simp add: pool_ok_def)
  have al: "allocations p1 xs = allocations p xs" "allocations p1 ys = allocations p ys" "allocations p1 zs = []"
    using t(5,6) by (auto intro!: allocations_cong simp: zs_def)
  define A' where "A' = allocations p xs @ (b + 28, blk_size p1 b) # allocations p ys"
  have A': "allocations p1 ?bs = A'" using al t(3) by (simp add: A'_def)
  have A: "A = allocations p xs @ allocations p ys" "tp_used_size p = alloc_bytes A" "tp_signature p = TLSF_SIGNATURE"
    using hb fl by (simp_all add: heap_blocks_def)
  have bytes: "alloc_bytes A' = alloc_bytes A + (blk_size p1 b + 28)" by (simp add: A'_def A)
  have le: "alloc_bytes A' \<le> tp_total_size p1" "tp_total_size p1 < 2 ^ 32" "b + 28 < 2 ^ 32"
    using alloc_bytes_le [OF ph1] ph1 phys_bound [OF ph, of b] unfolding A' by (simp_all add: phys_ok_def)
  have used: "uadd (tp_used_size p) (blk_size p1 b + 28) = alloc_bytes A'" using bytes le A(2) by simp
  define p2 where "p2 = p1\<lparr>tp_used_size := alloc_bytes A'\<rparr>"
  have free: "tlsf_pool_free_size p2 = Some (tp_total_size p1 - alloc_bytes A')"
    using free_size_ok [of p2 ?bs F1] ok1 unfolding p2_def allocations_counters pool_ok_counters A' by simp
  define q where "q = (if tp_total_size p1 - alloc_bytes A' < tp_min_free p2
    then p2\<lparr>tp_min_free := tp_total_size p1 - alloc_bytes A'\<rparr> else p2)"
  have un: "uadd (uadd n 28) (28 + 4) = n + 60" using n(2) by simp
  have used': "uadd (tp_used_size p1) (blk_size p1 b + 28) = alloc_bytes A'" using used t(2) by (simp add: pool_frame_def)
  have ptr: "ptr_from_block b = b + 28" using le(3) by (simp add: ptr_from_block_def)
  have eq: "malloc_take b n p = Some (Some (b + 28), q)"
    unfolding malloc_take_def Let_def BLOCK_OVERHEAD_def MIN_BLOCK_SIZE_def TLSF_BLOCK_ALIGN_def remove_same un
      p1_def [symmetric] used' p2_def [symmetric] free option.case q_def [symmetric] ptr ..
  have qsel: "tp_mem q = tp_mem p1" "allocations q ?bs = A'" "pool_ok q ?bs F1 {}" "tp_used_size q = alloc_bytes A'"
    "tp_total_size q = tp_total_size p1" "tp_signature q = tp_signature p1" "tp_min_free q + alloc_bytes A' \<le> tp_total_size q"
    using ok1 le unfolding q_def p2_def A' [symmetric] by (simp_all del: allocations_append allocations_Cons) arith
  have "no_adj (\<lambda>c. blk_flags p c = 1) (xs @ b # ys)" using hb by (simp add: heap_blocks_def)
  then have "no_adj (\<lambda>c. blk_flags p c = 1) xs" "no_adj (\<lambda>c. blk_flags p c = 1) ys" "ys \<noteq> [] \<Longrightarrow> blk_flags p (hd ys) \<noteq> 1"
    using fl by (auto simp: no_adj_append no_adj_Cons)
  then have "no_adj (\<lambda>c. blk_flags p1 c = 1) xs" "no_adj (\<lambda>c. blk_flags p1 c = 1) ys" "ys \<noteq> [] \<Longrightarrow> blk_flags p1 (hd ys) \<noteq> 1"
    using t(5) by (auto elim!: no_adj_cong)
  then have "no_adj (\<lambda>c. blk_flags q c = 1) ?bs"
    using t(3,6) unfolding qsel(1) by (auto simp: no_adj_append no_adj_Cons zs_def)
  then have "heap_blocks q ?bs A'" using qsel A(3) t(2) by (auto simp: heap_blocks_def pool_frame_def)
  then show ?thesis using eq unfolding A'_def t(4) zs_def by blast
qed

lemma heap_take:
  assumes "heap_blocks p (xs @ b # ys) A" "blk_flags p b = 1" "n + 28 \<le> blk_size p b" "n + 60 < 2 ^ 32"
  shows "\<exists>q. malloc_take b n p = Some (Some (b + 28), q) \<and>
    heap_rel q (allocations p xs @ (b + 28, if blk_size p b \<ge> n + 60 then n else blk_size p b) # allocations p ys)"
  using heap_take_blocks [OF assms] unfolding heap_rel_def by blast

lemma free_block_split:
  assumes "heap_blocks p bs A" "b \<in> set bs" "blk_flags p b = 1"
  obtains xs ys where "bs = xs @ b # ys" "A = allocations p xs @ allocations p ys"
proof -
  obtain xs ys where "bs = xs @ b # ys" using split_list [OF assms(2)] by blast
  then show thesis using that [of xs ys] assms by (simp add: heap_blocks_def)
qed

text \<open>The block that an allocation takes: a free one with room for the aligned request and a header, if there is any.\<close>

lemma malloc_block:
  assumes hb: "heap_blocks p bs A" and n: "0 < n" "n + 63 < 2 ^ 32"
  obtains r where "tlsf_malloc n p = (case r of None \<Rightarrow> Some (None, p) | Some b \<Rightarrow> malloc_take b (ALIGN_UP n 4) p)"
    "case r of None \<Rightarrow> \<forall>b\<in>set bs. blk_flags p b = 1 \<longrightarrow> blk_size p b < ALIGN_UP n 4 + 28
     | Some b \<Rightarrow> b \<in> set bs \<and> blk_flags p b = 1 \<and> ALIGN_UP n 4 + 28 \<le> blk_size p b"
proof -
  let ?n = "ALIGN_UP n 4"
  obtain F where ok: "pool_ok p bs F {}" using hb by (auto simp: heap_blocks_def)
  have al: "n \<le> ?n" "?n < n + 4" using ALIGN_UP_4 [of n] n by auto
  have t: "uadd ?n 28 = ?n + 28" using al n by simp
  obtain r where r: "malloc_find [tlsf_get_index (?n + 28)..<32] (tlsf_get_index (?n + 28)) (?n + 28) p = Some r"
    "case r of None \<Rightarrow> \<forall>b\<in>set bs. blk_flags p b = 1 \<longrightarrow> blk_size p b < ?n + 28
     | Some b \<Rightarrow> b \<in> set bs \<and> blk_flags p b = 1 \<and> ?n + 28 \<le> blk_size p b"
    using malloc_find_fits [OF ok _ refl, of "?n + 28"] al n by auto
  have "tlsf_malloc n p = (case r of None \<Rightarrow> Some (None, p) | Some b \<Rightarrow> malloc_take b ?n p)"
    using n(1) r(1) by (simp add: tlsf_malloc_def Let_def t)
  then show thesis using that r(2) by blast
qed

text \<open>
  Allocation always returns. It fails, leaving the pool alone, only when every free block is
  smaller than the aligned request and a header; otherwise exactly one allocation of at least the
  requested size is added.
\<close>

lemma heap_malloc:
  assumes hb: "heap_blocks p bs A" and n: "0 < n" "n + 63 < 2 ^ 32"
  shows "\<exists>r q. tlsf_malloc n p = Some (r, q) \<and>
    (case r of None \<Rightarrow> q = p \<and> (\<forall>b\<in>set bs. blk_flags p b = 1 \<longrightarrow> blk_size p b < ALIGN_UP n 4 + 28)
     | Some a \<Rightarrow> \<exists>A1 A2 m. A = A1 @ A2 \<and> n \<le> m \<and> heap_rel q (A1 @ (a, m) # A2))"
proof -
  let ?n = "ALIGN_UP n 4"
  have al: "n \<le> ?n" "?n < n + 4" using ALIGN_UP_4 [of n] n by auto
  obtain r where eq: "tlsf_malloc n p = (case r of None \<Rightarrow> Some (None, p) | Some b \<Rightarrow> malloc_take b ?n p)"
    and r: "case r of None \<Rightarrow> \<forall>b\<in>set bs. blk_flags p b = 1 \<longrightarrow> blk_size p b < ?n + 28
     | Some b \<Rightarrow> b \<in> set bs \<and> blk_flags p b = 1 \<and> ?n + 28 \<le> blk_size p b"
    by (rule malloc_block [OF assms])
  show ?thesis
  proof (cases r)
    case None
    then show ?thesis using eq r by simp
  next
    case (Some b)
    then have b: "b \<in> set bs" "blk_flags p b = 1" "?n + 28 \<le> blk_size p b" using r by auto
    obtain xs ys where s: "bs = xs @ b # ys" "A = allocations p xs @ allocations p ys" by (rule free_block_split [OF hb b(1,2)])
    have "?n + 60 < 2 ^ 32" using al n by linarith
    then obtain q where "malloc_take b ?n p = Some (Some (b + 28), q) \<and>
      heap_rel q (allocations p xs @ (b + 28, if blk_size p b \<ge> ?n + 60 then ?n else blk_size p b) # allocations p ys)"
      using heap_take [OF hb [unfolded s(1)] b(2,3)] by blast
    moreover define m where "m = (if blk_size p b \<ge> ?n + 60 then ?n else blk_size p b)"
    ultimately have q: "malloc_take b ?n p = Some (Some (b + 28), q)" "heap_rel q (allocations p xs @ (b + 28, m) # allocations p ys)"
      by simp_all
    have m: "n \<le> m" using al(1) b(3) by (simp add: m_def)
    have "tlsf_malloc n p = Some (Some (b + 28), q)" using eq Some q(1) by simp
    then show ?thesis using q(2) m s(2) by (intro exI [of _ "Some (b + 28)"] exI [of _ q]) auto
  qed
qed

text \<open>When every free block is much larger than the request, the allocation is cut to the aligned request.\<close>

lemma heap_malloc_cut:
  assumes hb: "heap_blocks p bs A" and n: "0 < n" "n + 63 < 2 ^ 32"
    and f: "\<exists>b\<in>set bs. blk_flags p b = 1" "\<forall>b\<in>set bs. blk_flags p b = 1 \<longrightarrow> ALIGN_UP n 4 + 60 \<le> blk_size p b"
  shows "\<exists>b q xs ys. tlsf_malloc n p = Some (Some (b + 28), q) \<and> A = allocations p xs @ allocations p ys \<and>
    heap_blocks q (xs @ b # (b + ALIGN_UP n 4 + 28) # ys) (allocations p xs @ (b + 28, ALIGN_UP n 4) # allocations p ys)"
proof -
  let ?n = "ALIGN_UP n 4"
  obtain r where eq: "tlsf_malloc n p = (case r of None \<Rightarrow> Some (None, p) | Some b \<Rightarrow> malloc_take b ?n p)"
    and r: "case r of None \<Rightarrow> \<forall>b\<in>set bs. blk_flags p b = 1 \<longrightarrow> blk_size p b < ?n + 28
     | Some b \<Rightarrow> b \<in> set bs \<and> blk_flags p b = 1 \<and> ?n + 28 \<le> blk_size p b"
    by (rule malloc_block [OF hb n])
  obtain b where b: "r = Some b" "b \<in> set bs" "blk_flags p b = 1" using r f by (cases r) fastforce+
  have big: "?n + 60 \<le> blk_size p b" using f(2) b by blast
  obtain xs ys where s: "bs = xs @ b # ys" "A = allocations p xs @ allocations p ys" by (rule free_block_split [OF hb b(2,3)])
  have "?n + 60 < 2 ^ 32" "?n + 28 \<le> blk_size p b" using ALIGN_UP_4 [of n] n big by auto
  then show ?thesis
    using heap_take_blocks [OF hb [unfolded s(1)] b(3), of ?n] big eq b(1) s(2) by auto
qed

lemma heap_create:
  assumes "bytes \<ge> 184" "mem + bytes < 2 ^ 32" "tlsf_create mem bytes = Some p"
  shows "heap_blocks p [mem + 152] [] \<and> blk_size p (mem + 152) = bytes - 180 \<and> blk_flags p (mem + 152) = 1"
proof -
  let ?b = "mem + 152" and ?i = "tlsf_get_index (bytes - 180)"
  have p: "p = \<lparr>tp_signature = TLSF_SIGNATURE, tp_total_size = bytes - 152, tp_used_size = 0, tp_min_free = bytes - 152,
      tp_free_list = (\<lambda>_. None)(?i := Some ?b), tp_block_list = Some ?b, tp_memory = ?b,
      tp_mem = (\<lambda>_. header_zero)(?b := header_zero\<lparr>bh_signature := TLSF_SIGNATURE, bh_size := bytes - 180, bh_flags := 1\<rparr>)\<rparr>"
    using assms by (simp add: tlsf_create_def Let_def block_insert_free_def upd_block_def header_zero_def split: if_splits)
  have "phys_ok p [?b]" using assms by (simp add: phys_ok_def p header_zero_def)
  moreover have "free_ok p [?b] ((\<lambda>_. [])(?i := [?b])) {}"
    by (rule free_okI) (auto simp: p header_zero_def split: if_splits)
  ultimately have "pool_ok p [?b] ((\<lambda>_. [])(?i := [?b])) {}" by (simp add: pool_ok_def)
  moreover have "allocations p [?b] = []" "blk_size p ?b = bytes - 180" "blk_flags p ?b = 1" "tp_used_size p = 0"
    "tp_min_free p \<le> tp_total_size p" "tp_signature p = TLSF_SIGNATURE" by (simp_all add: p)
  ultimately show ?thesis unfolding heap_blocks_def by auto
qed

text \<open>Distinct allocations never overlap, and all lie inside the pool.\<close>

lemma heap_disjoint:
  assumes "heap_rel p (A1 @ (a, n) # A2 @ (b, m) # A3)"
  shows "tp_memory p + 28 \<le> a \<and> a + n + 28 \<le> b \<and> b + m \<le> tp_memory p + tp_total_size p"
proof -
  obtain bs where hb: "heap_blocks p bs ((A1 @ (a, n) # A2) @ (b, m) # A3)" using assms by (auto simp: heap_rel_def)
  obtain xs d ys where d: "bs = xs @ d # ys" "b = d + 28" "m = blk_size p d" "A1 @ (a, n) # A2 = allocations p xs"
    by (rule alloc_position [OF hb])
  have "(a, n) \<in> set (allocations p xs)" using d(4) by (metis in_set_conv_decomp)
  then obtain c where c: "c \<in> set xs" "a = c + 28" "n = blk_size p c" by (auto simp: allocations_def)
  have ph: "phys_ok p (xs @ d # ys)" using hb d(1) by (auto simp: heap_blocks_def pool_ok_def)
  obtain k where k: "layout (blk_size p) (tp_memory p) xs k" "k = d"
    using ph by (auto simp: phys_ok_def layout_append)
  have "c + 28 + blk_size p c \<le> d" "tp_memory p \<le> c" using layout_bounds [OF k(1) c(1)] k(2) by auto
  moreover have "d + 28 + blk_size p d \<le> tp_memory p + tp_total_size p" using phys_bound [OF ph, of d] by simp
  ultimately show ?thesis using c d by simp
qed

text \<open>When everything is freed the pool is one free block again.\<close>

lemma heap_empty:
  assumes "heap_blocks p bs []"
  shows "bs = [tp_memory p] \<and> blk_flags p (tp_memory p) = 1 \<and> blk_size p (tp_memory p) + 28 = tp_total_size p"
proof -
  obtain F where ok: "pool_ok p bs F {}" using assms by (auto simp: heap_blocks_def)
  have ph: "phys_ok p bs" and fr: "free_ok p bs F {}" using ok by (auto simp: pool_ok_def)
  have "\<forall>b\<in>set bs. blk_flags p b \<noteq> 2" using assms by (auto simp: heap_blocks_def allocations_def filter_empty_conv)
  then have free: "\<forall>b\<in>set bs. blk_flags p b = 1" using free_okD(5) [OF fr] by blast
  have "bs \<noteq> []" using ph unfolding phys_ok_def by blast
  then obtain b cs where bs: "bs = b # cs" by (meson neq_Nil_conv)
  have adj: "no_adj (\<lambda>b. blk_flags p b = 1) (b # cs)" using assms unfolding bs heap_blocks_def by blast
  have cs: "cs = []"
  proof (cases cs)
    case (Cons c ds)
    then show ?thesis using adj free [unfolded bs] by simp
  qed
  have "layout (blk_size p) (tp_memory p) (b # cs) (tp_memory p + tp_total_size p)" using ph unfolding bs phys_ok_def by blast
  then have "b = tp_memory p" "b + 28 + blk_size p b = tp_memory p + tp_total_size p" unfolding cs by auto
  then show ?thesis using free unfolding bs cs by simp
qed

lemma heap_check:
  assumes "heap_rel p A"
  shows "tlsf_pool_check p = Some True"
proof -
  obtain bs where bs: "phys_ok p bs" "tp_signature p = TLSF_SIGNATURE"
    using assms by (auto simp: heap_rel_def heap_blocks_def pool_ok_def)
  have "dll (next_phys p) (prev_phys p) h v cs \<Longrightarrow> \<forall>b\<in>set cs. bh_signature (tp_mem p b) = TLSF_SIGNATURE \<Longrightarrow>
      check_loop h p = Some True" for h v cs
    by (induction cs arbitrary: h v) (subst check_loop.simps; auto)+
  then show ?thesis using bs by (auto simp: tlsf_pool_check_def phys_ok_def)
qed

section \<open>What a client relies on\<close>

text \<open>A client program: requests, and releases of one of the pointers it holds.\<close>

datatype heap_op = Alloc nat | Release nat

fun heap_run :: "(nat \<Rightarrow> 'p \<Rightarrow> (nat option \<times> 'p) option) \<Rightarrow> (nat option \<Rightarrow> 'p \<Rightarrow> 'p) \<Rightarrow>
    heap_op list \<Rightarrow> 'p \<Rightarrow> nat list \<Rightarrow> ('p \<times> nat list) option" where
  "heap_run malloc free [] p live = Some (p, live)"
| "heap_run malloc free (Alloc n # ops) p live =
    (case malloc n p of
       None \<Rightarrow> None
     | Some (None, q) \<Rightarrow> heap_run malloc free ops q live
     | Some (Some a, q) \<Rightarrow> heap_run malloc free ops q (live @ [a]))"
| "heap_run malloc free (Release i # ops) p live =
    (if i < length live then heap_run malloc free ops (free (Some (live ! i)) p) (take i live @ drop (Suc i) live)
     else heap_run malloc free ops p live)"

fun op_ok :: "nat \<Rightarrow> heap_op \<Rightarrow> bool" where
  "op_ok limit (Alloc n) \<longleftrightarrow> 0 < n \<and> n < limit"
| "op_ok limit (Release i) \<longleftrightarrow> True"

locale heap_iface =
  fixes malloc :: "nat \<Rightarrow> 'p \<Rightarrow> (nat option \<times> 'p) option"
    and free :: "nat option \<Rightarrow> 'p \<Rightarrow> 'p"
    and repr :: "'p \<Rightarrow> (nat \<times> nat) list \<Rightarrow> bool"
    and limit :: nat
  assumes malloc_repr: "repr p A \<Longrightarrow> 0 < n \<Longrightarrow> n < limit \<Longrightarrow> \<exists>r q. malloc n p = Some (r, q) \<and>
      (case r of None \<Rightarrow> q = p | Some a \<Rightarrow> \<exists>A1 A2 m. A = A1 @ A2 \<and> n \<le> m \<and> repr q (A1 @ (a, m) # A2))"
    and free_repr: "repr p (A1 @ (a, n) # A2) \<Longrightarrow> repr (free (Some a) p) (A1 @ A2)"
begin

lemma run_repr:
  assumes "repr p A" "mset (map fst A) = mset live" "\<forall>x\<in>set ops. op_ok limit x"
  shows "\<exists>q live' A'. heap_run malloc free ops p live = Some (q, live') \<and> repr q A' \<and> mset (map fst A') = mset live'"
  using assms
proof (induction ops arbitrary: p A live)
  case (Cons x ops)
  have ops: "\<forall>x\<in>set ops. op_ok limit x" using Cons.prems(3) by simp
  show ?case
  proof (cases x)
    case (Alloc n)
    obtain r q where m: "malloc n p = Some (r, q)"
      "case r of None \<Rightarrow> q = p | Some a \<Rightarrow> \<exists>A1 A2 m. A = A1 @ A2 \<and> n \<le> m \<and> repr q (A1 @ (a, m) # A2)"
      using malloc_repr [OF Cons.prems(1), of n] Cons.prems(3) Alloc by auto
    show ?thesis
    proof (cases r)
      case None
      then show ?thesis using m Cons.IH [OF Cons.prems(1,2) ops] Alloc by simp
    next
      case (Some a)
      then obtain A1 A2 k where k: "A = A1 @ A2" "repr q (A1 @ (a, k) # A2)" using m(2) by auto
      have "mset (map fst (A1 @ (a, k) # A2)) = mset (live @ [a])" using Cons.prems(2) k(1) by simp
      then show ?thesis using Cons.IH [OF k(2) _ ops, of "live @ [a]"] m(1) Some Alloc by simp
    qed
  next
    case (Release i)
    show ?thesis
    proof (cases "i < length live")
      case True
      then have live: "live = take i live @ live ! i # drop (Suc i) live" by (rule id_take_nth_drop)
      have "live ! i \<in> set (map fst A)" using True mset_eq_setD [OF Cons.prems(2)] by simp
      then obtain A1 k A2 where A: "A = A1 @ (live ! i, k) # A2" by (auto simp: in_set_conv_decomp)
      have "mset (map fst A) = add_mset (live ! i) (mset (map fst (A1 @ A2)))" by (simp add: A)
      moreover have "mset live = add_mset (live ! i) (mset (take i live @ drop (Suc i) live))"
        by (subst live) simp
      ultimately have "mset (map fst (A1 @ A2)) = mset (take i live @ drop (Suc i) live)" using Cons.prems(2) by simp
      then show ?thesis using Cons.IH [OF free_repr [OF Cons.prems(1) [unfolded A]] _ ops] True Release by simp
    qed (use Cons.IH [OF Cons.prems(1,2) ops] Release in simp)
  qed
qed auto

end

interpretation tlsf: heap_iface tlsf_malloc tlsf_free heap_rel "2 ^ 32 - 63"
proof
  fix p A and n :: nat
  assume "heap_rel p A" "0 < n" "n < 2 ^ 32 - 63"
  moreover from this obtain bs where "heap_blocks p bs A" by (auto simp: heap_rel_def)
  ultimately obtain r q where "tlsf_malloc n p = Some (r, q)"
    "case r of None \<Rightarrow> q = p \<and> (\<forall>b\<in>set bs. blk_flags p b = 1 \<longrightarrow> blk_size p b < ALIGN_UP n 4 + 28)
     | Some a \<Rightarrow> \<exists>A1 A2 m. A = A1 @ A2 \<and> n \<le> m \<and> heap_rel q (A1 @ (a, m) # A2)"
    using heap_malloc [of p bs A n] by auto
  then show "\<exists>r q. tlsf_malloc n p = Some (r, q) \<and>
      (case r of None \<Rightarrow> q = p | Some a \<Rightarrow> \<exists>A1 A2 m. A = A1 @ A2 \<and> n \<le> m \<and> heap_rel q (A1 @ (a, m) # A2))"
    by (cases r) auto
qed (rule heap_free)

lemma heap_sorted:
  assumes "heap_rel p A"
  shows "sorted_wrt (\<lambda>(a, n) (b, m). a + n + 28 \<le> b) A \<and>
    (\<forall>(a, n)\<in>set A. tp_memory p + 28 \<le> a \<and> a + n \<le> tp_memory p + tp_total_size p)"
proof -
  have "sorted_wrt (\<lambda>(a, n) (b, m). a + n + 28 \<le> b) A"
  proof (unfold sorted_wrt_iff_nth_less, intro allI impI)
    fix i j
    assume ij: "i < j" "j < length A"
    have "A = take i A @ A ! i # drop (Suc i) A" using ij by (intro id_take_nth_drop) simp
    also have "drop (Suc i) A = take (j - Suc i) (drop (Suc i) A) @ A ! j # drop (Suc (j - Suc i)) (drop (Suc i) A)"
      using id_take_nth_drop [of "j - Suc i" "drop (Suc i) A"] ij by simp
    finally have "heap_rel p (take i A @ A ! i # take (j - Suc i) (drop (Suc i) A) @ A ! j # drop (Suc (j - Suc i)) (drop (Suc i) A))"
      using assms by simp
    then show "(case A ! i of (a, n) \<Rightarrow> \<lambda>(b, m). a + n + 28 \<le> b) (A ! j)"
      using heap_disjoint by (cases "A ! i"; cases "A ! j") auto
  qed
  moreover have "tp_memory p + 28 \<le> a \<and> a + n \<le> tp_memory p + tp_total_size p" if an: "(a, n) \<in> set A" for a n
  proof -
    obtain bs where hb: "heap_blocks p bs A" using assms by (auto simp: heap_rel_def)
    then obtain b where "b \<in> set bs" "a = b + 28" "n = blk_size p b" using an by (auto simp: heap_blocks_def allocations_def)
    then show ?thesis using phys_bound [of p bs b] hb by (auto simp: heap_blocks_def pool_ok_def)
  qed
  ultimately show ?thesis by auto
qed

end
