(* ===== verification/Tlsf_Props.thy ===== *)
theory Tlsf_Props
  imports Tlsf_Heap "HOL-Library.Code_Target_Nat"
begin

text \<open>
  Properties of the heap allocator. Pools are evaluated with \<open>code_simp\<close> on binary naturals.
\<close>

declare scan_bucket.simps [code] free_list_size.simps [code] check_loop.simps [code]

text \<open>
  C2: Any sequence of allocations and frees on a fresh pool runs to its end, with valid request
  sizes and frees of pointers that are held. The pool it leaves passes the integrity check, holds exactly
  the pointers the client holds as disjoint allocations inside the pool, in address order, and its
  free and used byte counts add up to the pool size.
\<close>

theorem tlsf_sequence:
  assumes "tlsf_create mem bytes = Some p" "mem + bytes < 2 ^ 32" "\<forall>x\<in>set ops. op_ok (2 ^ 32 - 63) x"
  shows "\<exists>q live A. heap_run tlsf_malloc tlsf_free ops p [] = Some (q, live) \<and> mset (map fst A) = mset live \<and>
    tlsf_pool_check q = Some True \<and> tlsf_pool_free_size q = Some (tp_total_size q - tp_used_size q) \<and>
    tp_used_size q = (\<Sum>(a, n)\<leftarrow>A. n + 28) \<and> tp_used_size q \<le> tp_total_size q \<and>
    sorted_wrt (\<lambda>(a, n) (b, m). a + n + 28 \<le> b) A \<and>
    (\<forall>(a, n)\<in>set A. tp_memory q + 28 \<le> a \<and> a + n \<le> tp_memory q + tp_total_size q)"
proof -
  have "bytes \<ge> 184" using assms(1) by (auto simp: tlsf_create_def split: if_splits)
  then have "heap_rel p []" using heap_create [OF _ assms(2,1)] by (auto simp: heap_rel_def)
  then obtain q live A where r: "heap_run tlsf_malloc tlsf_free ops p [] = Some (q, live)" "heap_rel q A"
    "mset (map fst A) = mset live" using tlsf.run_repr [of p "[]" "[]" ops] assms(3) by auto
  obtain bs F where bs: "heap_blocks q bs A" "pool_ok q bs F {}" using r(2) by (auto simp: heap_rel_def heap_blocks_def)
  have u: "A = allocations q bs" "tp_used_size q = alloc_bytes A" using bs(1) by (auto simp: heap_blocks_def)
  have "phys_ok q bs" using bs(2) by (simp add: pool_ok_def)
  then have le: "tp_used_size q \<le> tp_total_size q" using alloc_bytes_le u by simp
  have free: "tlsf_pool_free_size q = Some (tp_total_size q - tp_used_size q)" using free_size_ok [OF bs(2)] u by simp
  show ?thesis
    using r(1,3) heap_check [OF r(2)] free le heap_sorted [OF r(2)] u(2) unfolding alloc_bytes_def by blast
qed

theorem tlsf_sequence_witness:
  "\<exists>p q live. tlsf_create 0x1000 1024 = Some p \<and>
    heap_run tlsf_malloc tlsf_free [Alloc 40, Alloc 8, Release 0, Release 7, Alloc 4000, Alloc 60] p [] = Some (q, live) \<and>
    tlsf_pool_check q = Some True"
proof -
  obtain p where p: "tlsf_create 0x1000 1024 = Some p" by (simp add: tlsf_create_def)
  show ?thesis
    using tlsf_sequence [OF p, of "[Alloc 40, Alloc 8, Release 0, Release 7, Alloc 4000, Alloc 60]"] p by auto
qed

text \<open>
  C7: On a well-formed pool an allocation within the address range always returns. It fails only
  when every free block is smaller than the aligned request plus a header, and then changes nothing;
  otherwise it adds one allocation of at least the requested size and keeps all others.
\<close>

theorem tlsf_malloc_spec:
  assumes "heap_blocks p bs A" "0 < n" "n + 63 < 2 ^ 32"
  shows "\<exists>r q. tlsf_malloc n p = Some (r, q) \<and>
    (case r of None \<Rightarrow> q = p \<and> (\<forall>b\<in>set bs. is_free p b \<longrightarrow> bh_size (tp_mem p b) < ALIGN_UP n 4 + 28)
     | Some a \<Rightarrow> \<exists>A1 A2 m. A = A1 @ A2 \<and> n \<le> m \<and> heap_rel q (A1 @ (a, m) # A2))"
proof -
  obtain F where "pool_ok p bs F {}" using assms(1) by (auto simp: heap_blocks_def)
  then have "\<forall>b\<in>set bs. is_free p b \<longleftrightarrow> blk_flags p b = 1" using is_free_flag by blast
  then have free: "(\<forall>b\<in>set bs. is_free p b \<longrightarrow> bh_size (tp_mem p b) < ALIGN_UP n 4 + 28) \<longleftrightarrow>
      (\<forall>b\<in>set bs. blk_flags p b = 1 \<longrightarrow> bh_size (tp_mem p b) < ALIGN_UP n 4 + 28)" by blast
  show ?thesis unfolding free by (rule heap_malloc [OF assms])
qed

theorem tlsf_malloc_spec_witness:
  "\<exists>p a q m. tlsf_create 0x1000 1024 = Some p \<and> tlsf_malloc 40 p = Some (Some a, q) \<and> 40 \<le> m \<and> heap_rel q [(a, m)]"
proof -
  obtain p where p: "tlsf_create 0x1000 1024 = Some p" by (simp add: tlsf_create_def)
  have hb: "heap_blocks p [0x1098] []" and b: "is_free p 0x1098" "bh_size (tp_mem p 0x1098) = 844"
    using heap_create [OF _ _ p] by (simp_all add: is_free_def)
  have al: "ALIGN_UP 40 4 = 40" by (simp add: ALIGN_UP_def uadd_def)
  obtain r q where r: "tlsf_malloc 40 p = Some (r, q)"
    "case r of None \<Rightarrow> q = p \<and> (\<forall>b\<in>set [0x1098]. is_free p b \<longrightarrow> bh_size (tp_mem p b) < ALIGN_UP 40 4 + 28)
     | Some a \<Rightarrow> \<exists>A1 A2 m. [] = A1 @ A2 \<and> 40 \<le> m \<and> heap_rel q (A1 @ (a, m) # A2)"
    using tlsf_malloc_spec [OF hb, of 40] by auto
  then obtain a where "r = Some a" using b al by (cases r) auto
  then show ?thesis using p r by auto
qed

text \<open>
  C8: Freeing every allocation of a well-formed pool, in any order, leaves the pool as one free
  block again: the merges undo all splits.
\<close>

theorem tlsf_free_all:
  assumes "heap_rel p A" "mset ptrs = mset (map fst A)"
  shows "let q = fold (\<lambda>a p. tlsf_free (Some a) p) ptrs p in
    tp_used_size q = 0 \<and> bh_size (tp_mem q (tp_memory q)) + BLOCK_OVERHEAD = tp_total_size q \<and>
    is_free q (tp_memory q) \<and> bh_next_phys (tp_mem q (tp_memory q)) = None"
proof -
  define q where "q = fold (\<lambda>a p. tlsf_free (Some a) p) ptrs p"
  have "heap_rel q []" unfolding q_def using assms
  proof (induction ptrs arbitrary: p A)
    case (Cons a ptrs)
    have "a \<in> set (map fst A)" using mset_eq_setD [OF Cons.prems(2)] by auto
    then obtain A1 n A2 where A: "A = A1 @ (a, n) # A2" by (auto simp: in_set_conv_decomp)
    have "mset ptrs = mset (map fst (A1 @ A2))" using Cons.prems(2) by (simp add: A)
    then show ?case using Cons.IH [OF heap_free [OF Cons.prems(1) [unfolded A]]] by simp
  qed simp
  then obtain bs where bs: "heap_blocks q bs []" by (auto simp: heap_rel_def)
  have e: "bs = [tp_memory q]" "blk_flags q (tp_memory q) = 1" "blk_size q (tp_memory q) + 28 = tp_total_size q"
    using heap_empty [OF bs] by auto
  have "dll (next_phys q) (prev_phys q) (Some (tp_memory q)) None bs" "tp_used_size q = 0"
    using bs by (auto simp: heap_blocks_def pool_ok_def phys_ok_def)
  then show ?thesis using e by (simp add: q_def [symmetric] is_free_def)
qed

theorem tlsf_free_all_witness:
  "\<exists>p0 p live. tlsf_create 0x1000 1024 = Some p0 \<and>
    heap_run tlsf_malloc tlsf_free [Alloc 40, Alloc 8, Alloc 100, Release 1] p0 [] = Some (p, live) \<and>
    tp_used_size (fold (\<lambda>a p. tlsf_free (Some a) p) (rev live) p) = 0"
proof -
  obtain p0 where p: "tlsf_create 0x1000 1024 = Some p0" by (simp add: tlsf_create_def)
  have "heap_rel p0 []" using heap_create [OF _ _ p] by (auto simp: heap_rel_def)
  then obtain q live A where "heap_run tlsf_malloc tlsf_free [Alloc 40, Alloc 8, Alloc 100, Release 1] p0 [] = Some (q, live)"
    "heap_rel q A" "mset (map fst A) = mset live"
    using tlsf.run_repr [of p0 "[]" "[]" "[Alloc 40, Alloc 8, Alloc 100, Release 1]"] by auto
  then show ?thesis using p tlsf_free_all [of q A "rev live"] by (auto simp: Let_def)
qed

text \<open>
  A request within three bytes of the address range is rounded up to zero: on a fresh pool it is
  answered with a pointer to a block of no bytes instead of a failure.
\<close>

theorem tlsf_malloc_wraps:
  assumes p: "tlsf_create mem bytes = Some p" and m: "mem + bytes < 2 ^ 32" "240 \<le> bytes" and n: "2 ^ 32 - 3 \<le> n" "n < 2 ^ 32"
  shows "\<exists>q. tlsf_malloc n p = Some (Some (mem + 180), q) \<and> bh_size (tp_mem q (mem + 152)) = 0"
proof -
  let ?b = "mem + 152"
  have c: "heap_blocks p [?b] []" "blk_size p ?b = bytes - 180" "blk_flags p ?b = 1" using heap_create [OF _ m(1) p] m(2) by auto
  obtain F where ok: "pool_ok p [?b] F {}" using c(1) by (auto simp: heap_blocks_def)
  have n0: "ALIGN_UP n 4 = 0"
  proof -
    have "n + 3 - 2 ^ 32 < 3" "2 ^ 32 \<le> n + 3" using n by linarith+
    then have "uadd n 3 < 3" unfolding uadd_def by (simp add: mod_if)
    then show ?thesis by (simp add: ALIGN_UP_def)
  qed
  have u: "uadd 0 28 = 28" and t28: "(28 :: nat) < 2 ^ 32" by simp_all
  obtain r where r: "malloc_find [tlsf_get_index 28..<32] (tlsf_get_index 28) 28 p = Some r"
    "case r of None \<Rightarrow> \<forall>b\<in>set [?b]. blk_flags p b = 1 \<longrightarrow> blk_size p b < 28
     | Some b \<Rightarrow> b \<in> set [?b] \<and> blk_flags p b = 1 \<and> 28 \<le> blk_size p b"
    using malloc_find_fits [OF ok t28 refl] by (elim exE conjE) (rule that)
  have "r = Some ?b" using r(2) c m(2) by (cases r) auto
  moreover have "n \<noteq> 0" using n by simp
  ultimately have eq: "tlsf_malloc n p = malloc_take ?b 0 p"
    using r(1) unfolding tlsf_malloc_def Let_def TLSF_BLOCK_ALIGN_def BLOCK_OVERHEAD_def n0 u by simp
  obtain q where q: "malloc_take ?b 0 p = Some (Some (?b + 28), q)" "heap_rel q [(?b + 28, 0)]"
  proof -
    have "60 \<le> blk_size p ?b" using c(2) m(2) by simp
    then show ?thesis using that heap_take [of p "[]" ?b "[]" "[]" 0] c(1,3) by auto
  qed
  obtain bs where hb: "heap_blocks q bs ([] @ (?b + 28, 0) # [])" using q(2) by (auto simp: heap_rel_def)
  then have "bh_size (tp_mem q ?b) = 0" by (rule alloc_position) (simp add: add.commute [of mem])
  then show ?thesis using eq q(1) by (simp add: add.assoc)
qed

theorem tlsf_malloc_wraps_witness:
  "\<exists>p q. tlsf_create 0x1000 1024 = Some p \<and> tlsf_malloc 0xFFFFFFFE p = Some (Some 0x10B4, q) \<and> bh_size (tp_mem q 0x1098) = 0"
proof -
  obtain p where p: "tlsf_create 0x1000 1024 = Some p" by (simp add: tlsf_create_def)
  then show ?thesis using tlsf_malloc_wraps [OF p, of "0xFFFFFFFE"] by simp
qed

text \<open>
  C38: Shrinking an allocation by less than a header. The block of an allocation of \<open>n\<close> bytes is asked to shrink to
  a size whose aligned value \<open>k\<close> is below \<open>n\<close> but by less than the 28 bytes of a header, the block behind it is not free, and
  every free block is at least 60 bytes larger than \<open>k\<close>. Then the allocation is moved to a block of exactly \<open>k\<close>
  bytes, whose successor has its header right behind these, and \<open>n\<close> bytes are copied there: the copy writes over that header.
\<close>

theorem tlsf_realloc_overflow:
  assumes "heap_blocks p bs (A1 @ (a, n) # A2)" and "0 < sz" "sz + 66 < 2 ^ 32"
    and "ALIGN_UP sz 4 < n" "n < ALIGN_UP sz 4 + 28"
    and "\<forall>c. bh_next_phys (tp_mem p (a - 28)) = Some c \<longrightarrow> \<not> is_free p c"
    and "\<exists>b\<in>set bs. is_free p b" "\<forall>b\<in>set bs. is_free p b \<longrightarrow> ALIGN_UP sz 4 + 60 \<le> bh_size (tp_mem p b)"
  shows "\<exists>d q B1 B2. tlsf_malloc (ALIGN_UP sz 4) p = Some (Some d, q) \<and>
    A1 @ (a, n) # A2 = B1 @ B2 \<and> heap_rel q (B1 @ (d, ALIGN_UP sz 4) # B2) \<and>
    bh_next_phys (tp_mem q (d - 28)) = Some (d + ALIGN_UP sz 4) \<and> d + ALIGN_UP sz 4 < d + n \<and>
    tlsf_realloc (Some a) sz p = Some (Some d, tlsf_free (Some a) q, Some (d, a, n))"
proof -
  let ?k = "ALIGN_UP sz 4"
  obtain F where ok: "pool_ok p bs F {}" using assms(1) by (auto simp: heap_blocks_def)
  have al: "sz \<le> ?k" "?k < sz + 4" "ALIGN_UP ?k 4 = ?k" using ALIGN_UP_4 [of sz] assms(3) by (auto simp: ALIGN_UP_def)
  have k: "0 < ?k" "?k + 63 < 2 ^ 32" using al assms(2,3) by auto
  obtain b q xs ys where m: "tlsf_malloc ?k p = Some (Some (b + 28), q)" "A1 @ (a, n) # A2 = allocations p xs @ allocations p ys"
    "heap_blocks q (xs @ b # (b + ?k + 28) # ys) (allocations p xs @ (b + 28, ?k) # allocations p ys)"
    using heap_malloc_cut [OF assms(1) k, unfolded al(3)] assms(7,8) is_free_flag [OF ok] by blast
  have "dll (next_phys q) (prev_phys q) (Some (tp_memory q)) None (xs @ b # (b + ?k + 28) # ys)"
    using m(3) by (auto simp: heap_blocks_def pool_ok_def phys_ok_def)
  from dll_next [OF this] have nx: "bh_next_phys (tp_mem q b) = Some (b + ?k + 28)" by (simp add: first_def)
  obtain us c vs where c: "bs = us @ c # vs" "a = c + 28" "n = blk_size p c" by (rule alloc_position [OF assms(1)])
  have sig: "bh_signature (tp_mem p c) = TLSF_SIGNATURE" "c + 28 < 2 ^ 32"
    using ok c(1) phys_bound [of p bs c] by (auto simp: pool_ok_def phys_ok_def)
  have blk: "block_from_ptr a = c" using sig(2) c(2) by (simp add: block_from_ptr_def usub_small)
  have size: "blk_size q c = n"
  proof -
    have "(a, n) \<in> set (allocations p xs @ allocations p ys)" unfolding m(2) [symmetric] by simp
    then have "(a, n) \<in> set (allocations p xs @ (b + 28, ?k) # allocations p ys)" by auto
    then obtain B1 B2 where B: "allocations p xs @ (b + 28, ?k) # allocations p ys = B1 @ (a, n) # B2" using split_list by metis
    show ?thesis by (rule alloc_position [OF m(3) [unfolded B]]) (use c(2) in simp)
  qed
  have t: "uadd ?k 28 = ?k + 28" using k by simp
  have "tlsf_realloc (Some a) sz p = Some (Some (b + 28), tlsf_free (Some a) q, Some (b + 28, a, n))"
    using assms(2,5,6) m(1) size sig(1) c(2,3) by (auto simp: tlsf_realloc_def Let_def blk [unfolded c(2)] t split: option.split)
  then show ?thesis
    using m assms(4) nx unfolding heap_rel_def
    by (intro exI [of _ "b + 28"] exI [of _ q] exI [of _ "allocations p xs"] exI [of _ "allocations p ys"]) auto
qed

text \<open>A pool after allocations of 40 and 8 bytes: its two used blocks and the free rest.\<close>

lemma two_blocks:
  "case tlsf_create 0x1000 1024 of
     None \<Rightarrow> False
   | Some p \<Rightarrow>
      (case heap_run tlsf_malloc tlsf_free [Alloc 40, Alloc 8] p [] of
         None \<Rightarrow> False
       | Some (q, ptrs) \<Rightarrow> ptrs = [0x10B4, 0x10F8] \<and> tp_memory q = 0x1098 \<and> tp_total_size q = 872 \<and>
           map (\<lambda>b. (bh_size (tp_mem q b), bh_flags (tp_mem q b))) [0x1098, 0x10DC, 0x1100] = [(40, 2), (8, 2), (740, 1)] \<and>
           bh_next_phys (tp_mem q 0x1098) = Some 0x10DC)"
  by code_simp

theorem tlsf_realloc_overflow_witness:
  "\<exists>p0 p d q. tlsf_create 0x1000 1024 = Some p0 \<and>
    heap_run tlsf_malloc tlsf_free [Alloc 40, Alloc 8] p0 [] = Some (p, [0x10B4, 0x10F8]) \<and>
    tlsf_malloc 20 p = Some (Some d, q) \<and> bh_next_phys (tp_mem q (d - 28)) = Some (d + 20) \<and>
    tlsf_realloc (Some 0x10B4) 20 p = Some (Some d, tlsf_free (Some 0x10B4) q, Some (d, 0x10B4, 40))"
proof -
  obtain p0 p where p: "tlsf_create 0x1000 1024 = Some p0"
    "heap_run tlsf_malloc tlsf_free [Alloc 40, Alloc 8] p0 [] = Some (p, [0x10B4, 0x10F8])"
    and q: "tp_memory p = 0x1098" "tp_total_size p = 872" "blk_size p 0x1098 = 40" "blk_flags p 0x1098 = 2"
      "blk_size p 0x10DC = 8" "blk_flags p 0x10DC = 2" "blk_size p 0x1100 = 740" "blk_flags p 0x1100 = 1"
      "bh_next_phys (tp_mem p 0x1098) = Some 0x10DC"
    using two_blocks by (auto split: option.splits)
  have "heap_rel p0 []" using heap_create [OF _ _ p(1)] by (auto simp: heap_rel_def)
  then obtain bs A where hb: "heap_blocks p bs A" using tlsf.run_repr [of p0 "[]" "[]" "[Alloc 40, Alloc 8]"] p(2) by (auto simp: heap_rel_def)
  have "layout (blk_size p) 0x1098 bs (0x1098 + 872)" using hb q(1,2) by (auto simp: heap_blocks_def pool_ok_def phys_ok_def)
  then have bs: "bs = [0x1098, 0x10DC, 0x1100]"
    using q(3,5,7) by (cases bs; cases "tl bs"; cases "tl (tl bs)"; cases "tl (tl (tl bs))") (auto dest: layout_le)
  have A: "A = [] @ (0x10B4, 40) # [(0x10F8, 8)]" using hb q by (simp add: heap_blocks_def bs allocations_def)
  have al: "ALIGN_UP 20 4 = 20" by (simp add: ALIGN_UP_def uadd_def)
  show ?thesis
    using tlsf_realloc_overflow [OF hb [unfolded A], of 20] p q by (auto simp: al bs is_free_def)
qed

end
