(* ===== verification/Vfs.thy ===== *)
theory Vfs
  imports Ardu_Prelude
begin

text \<open>
  The virtual file system switch, \<^verbatim>\<open>fs/vfs.c\<close>. A file system is a record \<open>vfs_ops\<close> of optional operations on
  a state \<open>'w\<close> (the file systems' own data); a missing operation is a NULL function pointer. The mount list is
  private to the switch, so it is a list. Whether \<open>calloc\<close> succeeds is the argument \<open>mem\<close>. Result pointers
  passed by callers are not NULL.
\<close>

definition MAX_MOUNTS :: nat where "MAX_MOUNTS = 8"
definition VFS_NAME_MAX :: nat where "VFS_NAME_MAX = 32"

datatype vfs_whence = VFS_SEEK_SET | VFS_SEEK_CUR | VFS_SEEK_END

record vfs_stat_t =
  vs_size :: nat
  vs_blocks :: nat
  vs_mode :: nat
  vs_mtime :: nat
  vs_ctime :: nat
  vs_is_dir :: bool

record vfs_dirent =
  vd_name :: string
  vd_size :: nat
  vd_is_dir :: bool

record 'w vfs_ops =
  op_open :: "(string \<Rightarrow> nat \<Rightarrow> 'w \<Rightarrow> int \<times> nat \<times> 'w) option"
  op_close :: "(nat \<Rightarrow> 'w \<Rightarrow> int \<times> 'w) option"
  op_read :: "(nat \<Rightarrow> nat \<Rightarrow> 'w \<Rightarrow> int \<times> u8 list \<times> 'w) option"
  op_write :: "(nat \<Rightarrow> u8 list \<Rightarrow> 'w \<Rightarrow> int \<times> 'w) option"
  op_seek :: "(nat \<Rightarrow> int \<Rightarrow> vfs_whence \<Rightarrow> 'w \<Rightarrow> int \<times> 'w) option"
  op_tell :: "(nat \<Rightarrow> 'w \<Rightarrow> int) option"
  op_stat :: "(string \<Rightarrow> 'w \<Rightarrow> int \<times> vfs_stat_t option) option"
  op_unlink :: "(string \<Rightarrow> 'w \<Rightarrow> int \<times> 'w) option"
  op_rename :: "(string \<Rightarrow> string \<Rightarrow> 'w \<Rightarrow> int \<times> 'w) option"
  op_mkdir :: "(string \<Rightarrow> nat \<Rightarrow> 'w \<Rightarrow> int \<times> 'w) option"
  op_rmdir :: "(string \<Rightarrow> 'w \<Rightarrow> int \<times> 'w) option"
  op_opendir :: "(string \<Rightarrow> 'w \<Rightarrow> nat option \<times> 'w) option"
  op_readdir :: "(nat \<Rightarrow> 'w \<Rightarrow> int \<times> vfs_dirent option \<times> 'w) option"
  op_closedir :: "(nat \<Rightarrow> 'w \<Rightarrow> int \<times> 'w) option"
  op_sync :: "(nat \<Rightarrow> 'w \<Rightarrow> int \<times> 'w) option"

record 'w vfs_file =
  vf_ops :: "'w vfs_ops"
  vf_fh :: nat

record 'w vfs_dir =
  vd_ops :: "'w vfs_ops"
  vd_dh :: nat

record 'w vfs_mount_t =
  mt_prefix :: string
  mt_ops :: "'w vfs_ops"
  mt_fs_data :: nat

record 'w vfs =
  g_mounts :: "'w vfs_mount_t list"
  g_mount_count :: nat

section \<open>Mount points\<close>

definition prefix_matches :: "string \<Rightarrow> string \<Rightarrow> bool" where
  "prefix_matches path pre \<longleftrightarrow> take (length pre) path = pre \<and>
     (case drop (length pre) path of [] \<Rightarrow> True | c # _ \<Rightarrow> c = CHR ''/'')"

text \<open>The best match so far is the position of a mount in the list and the length of its prefix.\<close>

fun find_mount_loop :: "string \<Rightarrow> 'w vfs_mount_t list \<Rightarrow> nat \<Rightarrow> nat option \<Rightarrow> nat \<Rightarrow> nat option \<times> nat" where
  "find_mount_loop path [] i best best_len = (best, best_len)"
| "find_mount_loop path (m # ms) i best best_len =
    (let len = length (mt_prefix m) in
     if prefix_matches path (mt_prefix m) \<and> len > best_len then find_mount_loop path ms (i + 1) (Some i) len
     else find_mount_loop path ms (i + 1) best best_len)"

definition skip_slash :: "string \<Rightarrow> string" where
  "skip_slash s = (case s of c # cs \<Rightarrow> if c = CHR ''/'' then cs else s | [] \<Rightarrow> [])"

definition vfs_find_mount :: "string \<Rightarrow> 'w vfs \<Rightarrow> (nat \<times> string) option" where
  "vfs_find_mount path s =
    (case find_mount_loop path (g_mounts s) 0 None 0 of
       (None, _) \<Rightarrow> None
     | (Some i, best_len) \<Rightarrow> Some (i, skip_slash (drop best_len path)))"

definition vfs_init :: "'w vfs" where
  "vfs_init = \<lparr>g_mounts = [], g_mount_count = 0\<rparr>"

definition vfs_deinit :: "'w vfs \<Rightarrow> 'w vfs" where
  "vfs_deinit s = s\<lparr>g_mounts := [], g_mount_count := 0\<rparr>"

definition vfs_mount :: "bool \<Rightarrow> string option \<Rightarrow> 'w vfs_ops option \<Rightarrow> nat \<Rightarrow> 'w vfs \<Rightarrow> int \<times> 'w vfs" where
  "vfs_mount mem prefix ops fs_data s =
    (case (prefix, ops) of
       (Some pre, Some ops) \<Rightarrow>
         if g_mount_count s \<ge> MAX_MOUNTS then (-1, s)
         else if \<exists>m\<in>set (g_mounts s). mt_prefix m = pre then (-1, s)
         else if \<not> mem then (-1, s)
         else (0, s\<lparr>g_mounts := \<lparr>mt_prefix = strncpy0 (VFS_NAME_MAX - 1) pre, mt_ops = ops, mt_fs_data = fs_data\<rparr> # g_mounts s,
                   g_mount_count := g_mount_count s + 1\<rparr>)
     | _ \<Rightarrow> (-1, s))"

fun unmount_loop :: "string \<Rightarrow> 'w vfs_mount_t list \<Rightarrow> 'w vfs_mount_t list option" where
  "unmount_loop pre [] = None"
| "unmount_loop pre (m # ms) = (if mt_prefix m = pre then Some ms else map_option ((#) m) (unmount_loop pre ms))"

definition vfs_unmount :: "string \<Rightarrow> 'w vfs \<Rightarrow> int \<times> 'w vfs" where
  "vfs_unmount pre s =
    (case unmount_loop pre (g_mounts s) of
       None \<Rightarrow> (-1, s)
     | Some ms \<Rightarrow> (0, s\<lparr>g_mounts := ms, g_mount_count := g_mount_count s - 1\<rparr>))"

section \<open>Files\<close>

definition vfs_do_open :: "bool \<Rightarrow> string \<Rightarrow> nat \<Rightarrow> 'w vfs \<Rightarrow> 'w \<Rightarrow> int \<times> 'w vfs_file option \<times> 'w" where
  "vfs_do_open mem path mode s w =
    (case vfs_find_mount path s of
       None \<Rightarrow> (-1, None, w)
     | Some (i, rel) \<Rightarrow>
         (case op_open (mt_ops (g_mounts s ! i)) of
            None \<Rightarrow> (-1, None, w)
          | Some f \<Rightarrow>
              if \<not> mem then (-1, None, w)
              else case f rel mode w of
                (ret, fh, w) \<Rightarrow>
                  if ret \<noteq> 0 then (ret, None, w) else (0, Some \<lparr>vf_ops = mt_ops (g_mounts s ! i), vf_fh = fh\<rparr>, w)))"

definition vfs_open :: "bool \<Rightarrow> string option \<Rightarrow> nat \<Rightarrow> 'w vfs \<Rightarrow> 'w \<Rightarrow> int \<times> 'w vfs_file option \<times> 'w" where
  "vfs_open mem path mode s w = (case path of None \<Rightarrow> (-1, None, w) | Some path \<Rightarrow> vfs_do_open mem path mode s w)"

definition vfs_close :: "'w vfs_file option \<Rightarrow> 'w \<Rightarrow> int \<times> 'w" where
  "vfs_close file w =
    (case file of None \<Rightarrow> (-1, w) | Some f \<Rightarrow> (case op_close (vf_ops f) of None \<Rightarrow> (-1, w) | Some g \<Rightarrow> g (vf_fh f) w))"

definition vfs_read :: "'w vfs_file option \<Rightarrow> nat \<Rightarrow> 'w \<Rightarrow> int \<times> u8 list \<times> 'w" where
  "vfs_read file n w =
    (case file of None \<Rightarrow> (-1, [], w) | Some f \<Rightarrow> (case op_read (vf_ops f) of None \<Rightarrow> (-1, [], w) | Some g \<Rightarrow> g (vf_fh f) n w))"

definition vfs_write :: "'w vfs_file option \<Rightarrow> u8 list \<Rightarrow> 'w \<Rightarrow> int \<times> 'w" where
  "vfs_write file buf w =
    (case file of None \<Rightarrow> (-1, w) | Some f \<Rightarrow> (case op_write (vf_ops f) of None \<Rightarrow> (-1, w) | Some g \<Rightarrow> g (vf_fh f) buf w))"

definition vfs_seek :: "'w vfs_file option \<Rightarrow> int \<Rightarrow> vfs_whence \<Rightarrow> 'w \<Rightarrow> int \<times> 'w" where
  "vfs_seek file offset whence w =
    (case file of None \<Rightarrow> (-1, w) | Some f \<Rightarrow> (case op_seek (vf_ops f) of None \<Rightarrow> (-1, w) | Some g \<Rightarrow> g (vf_fh f) offset whence w))"

definition vfs_tell :: "'w vfs_file option \<Rightarrow> 'w \<Rightarrow> int" where
  "vfs_tell file w =
    (case file of None \<Rightarrow> -1 | Some f \<Rightarrow> (case op_tell (vf_ops f) of None \<Rightarrow> -1 | Some g \<Rightarrow> g (vf_fh f) w))"

definition vfs_sync :: "'w vfs_file option \<Rightarrow> 'w \<Rightarrow> int \<times> 'w" where
  "vfs_sync file w =
    (case file of None \<Rightarrow> (-1, w) | Some f \<Rightarrow> (case op_sync (vf_ops f) of None \<Rightarrow> (-1, w) | Some g \<Rightarrow> g (vf_fh f) w))"

section \<open>Paths and directories\<close>

text \<open>The operations that take a path look up its mount and pass on the rest of the path.\<close>

definition vfs_stat :: "string option \<Rightarrow> 'w vfs \<Rightarrow> 'w \<Rightarrow> int \<times> vfs_stat_t option" where
  "vfs_stat path s w =
    (case path of None \<Rightarrow> (-1, None) | Some path \<Rightarrow>
     case vfs_find_mount path s of None \<Rightarrow> (-1, None) | Some (i, rel) \<Rightarrow>
     case op_stat (mt_ops (g_mounts s ! i)) of None \<Rightarrow> (-1, None) | Some f \<Rightarrow> f rel w)"

definition vfs_unlink :: "string option \<Rightarrow> 'w vfs \<Rightarrow> 'w \<Rightarrow> int \<times> 'w" where
  "vfs_unlink path s w =
    (case path of None \<Rightarrow> (-1, w) | Some path \<Rightarrow>
     case vfs_find_mount path s of None \<Rightarrow> (-1, w) | Some (i, rel) \<Rightarrow>
     case op_unlink (mt_ops (g_mounts s ! i)) of None \<Rightarrow> (-1, w) | Some f \<Rightarrow> f rel w)"

definition vfs_rename :: "string option \<Rightarrow> string option \<Rightarrow> 'w vfs \<Rightarrow> 'w \<Rightarrow> int \<times> 'w" where
  "vfs_rename oldpath newpath s w =
    (case (oldpath, newpath) of
       (Some old, Some new) \<Rightarrow>
         (case vfs_find_mount old s of None \<Rightarrow> (-1, w) | Some (i, rel_old) \<Rightarrow>
          case op_rename (mt_ops (g_mounts s ! i)) of None \<Rightarrow> (-1, w) | Some f \<Rightarrow>
          case vfs_find_mount new s of
            None \<Rightarrow> (-1, w)
          | Some (j, rel_new) \<Rightarrow> if i \<noteq> j then (-1, w) else f rel_old rel_new w)
     | _ \<Rightarrow> (-1, w))"

definition vfs_mkdir :: "string option \<Rightarrow> nat \<Rightarrow> 'w vfs \<Rightarrow> 'w \<Rightarrow> int \<times> 'w" where
  "vfs_mkdir path mode s w =
    (case path of None \<Rightarrow> (-1, w) | Some path \<Rightarrow>
     case vfs_find_mount path s of None \<Rightarrow> (-1, w) | Some (i, rel) \<Rightarrow>
     case op_mkdir (mt_ops (g_mounts s ! i)) of None \<Rightarrow> (-1, w) | Some f \<Rightarrow> f rel mode w)"

definition vfs_rmdir :: "string option \<Rightarrow> 'w vfs \<Rightarrow> 'w \<Rightarrow> int \<times> 'w" where
  "vfs_rmdir path s w =
    (case path of None \<Rightarrow> (-1, w) | Some path \<Rightarrow>
     case vfs_find_mount path s of None \<Rightarrow> (-1, w) | Some (i, rel) \<Rightarrow>
     case op_rmdir (mt_ops (g_mounts s ! i)) of None \<Rightarrow> (-1, w) | Some f \<Rightarrow> f rel w)"

definition vfs_opendir :: "bool \<Rightarrow> string option \<Rightarrow> 'w vfs \<Rightarrow> 'w \<Rightarrow> 'w vfs_dir option \<times> 'w" where
  "vfs_opendir mem path s w =
    (case path of None \<Rightarrow> (None, w) | Some path \<Rightarrow>
     case vfs_find_mount path s of None \<Rightarrow> (None, w) | Some (i, rel) \<Rightarrow>
     case op_opendir (mt_ops (g_mounts s ! i)) of None \<Rightarrow> (None, w) | Some f \<Rightarrow>
     if \<not> mem then (None, w)
     else case f rel w of
       (None, w) \<Rightarrow> (None, w)
     | (Some dh, w) \<Rightarrow> (Some \<lparr>vd_ops = mt_ops (g_mounts s ! i), vd_dh = dh\<rparr>, w))"

definition vfs_readdir :: "'w vfs_dir option \<Rightarrow> 'w \<Rightarrow> int \<times> vfs_dirent option \<times> 'w" where
  "vfs_readdir dir w =
    (case dir of None \<Rightarrow> (-1, None, w) | Some d \<Rightarrow> (case op_readdir (vd_ops d) of None \<Rightarrow> (-1, None, w) | Some g \<Rightarrow> g (vd_dh d) w))"

definition vfs_closedir :: "'w vfs_dir option \<Rightarrow> 'w \<Rightarrow> int \<times> 'w" where
  "vfs_closedir dir w =
    (case dir of None \<Rightarrow> (-1, w) | Some d \<Rightarrow> (case op_closedir (vd_ops d) of None \<Rightarrow> (-1, w) | Some g \<Rightarrow> g (vd_dh d) w))"

definition vfs_get_mount_point :: "string \<Rightarrow> 'w vfs \<Rightarrow> string option" where
  "vfs_get_mount_point path s = map_option (\<lambda>(i, _). mt_prefix (g_mounts s ! i)) (vfs_find_mount path s)"

section \<open>Lookup finds the longest matching prefix\<close>

lemma find_mount_loop_spec:
  assumes "find_mount_loop path ms i best n = (r, m)"
  shows "n \<le> m \<and> (\<forall>x\<in>set ms. prefix_matches path (mt_prefix x) \<longrightarrow> length (mt_prefix x) \<le> m) \<and>
    (r = best \<and> m = n \<or>
     (\<exists>k<length ms. r = Some (i + k) \<and> m = length (mt_prefix (ms ! k)) \<and> n < m \<and> prefix_matches path (mt_prefix (ms ! k)) \<and>
       (\<forall>j<k. prefix_matches path (mt_prefix (ms ! j)) \<longrightarrow> length (mt_prefix (ms ! j)) < m)))"
  using assms
proof (induction path ms i best n rule: find_mount_loop.induct)
  case (2 path x ms i best n)
  show ?case
  proof (cases "prefix_matches path (mt_prefix x) \<and> n < length (mt_prefix x)")
    case True
    then have IH: "length (mt_prefix x) \<le> m \<and> (\<forall>y\<in>set ms. prefix_matches path (mt_prefix y) \<longrightarrow> length (mt_prefix y) \<le> m) \<and>
      (r = Some i \<and> m = length (mt_prefix x) \<or>
       (\<exists>k<length ms. r = Some (i + 1 + k) \<and> m = length (mt_prefix (ms ! k)) \<and> length (mt_prefix x) < m \<and>
         prefix_matches path (mt_prefix (ms ! k)) \<and>
         (\<forall>j<k. prefix_matches path (mt_prefix (ms ! j)) \<longrightarrow> length (mt_prefix (ms ! j)) < m)))"
      using 2(1) [OF refl] 2(3) by (simp add: Let_def)
    from IH [THEN conjunct2, THEN conjunct2] show ?thesis
    proof
      assume "r = Some i \<and> m = length (mt_prefix x)"
      then show ?thesis using IH True by (auto intro!: exI [of _ 0])
    next
      assume "\<exists>k<length ms. r = Some (i + 1 + k) \<and> m = length (mt_prefix (ms ! k)) \<and> length (mt_prefix x) < m \<and>
         prefix_matches path (mt_prefix (ms ! k)) \<and>
         (\<forall>j<k. prefix_matches path (mt_prefix (ms ! j)) \<longrightarrow> length (mt_prefix (ms ! j)) < m)"
      then obtain k where "k < length ms" "r = Some (i + 1 + k)" "m = length (mt_prefix (ms ! k))" "length (mt_prefix x) < m"
        "prefix_matches path (mt_prefix (ms ! k))"
        "\<forall>j<k. prefix_matches path (mt_prefix (ms ! j)) \<longrightarrow> length (mt_prefix (ms ! j)) < m" by blast
      then show ?thesis using IH True by (auto intro!: exI [of _ "Suc k"] simp: nth_Cons split: nat.split)
    qed
  next
    case False
    then have IH: "n \<le> m \<and> (\<forall>y\<in>set ms. prefix_matches path (mt_prefix y) \<longrightarrow> length (mt_prefix y) \<le> m) \<and>
      (r = best \<and> m = n \<or>
       (\<exists>k<length ms. r = Some (i + 1 + k) \<and> m = length (mt_prefix (ms ! k)) \<and> n < m \<and>
         prefix_matches path (mt_prefix (ms ! k)) \<and>
         (\<forall>j<k. prefix_matches path (mt_prefix (ms ! j)) \<longrightarrow> length (mt_prefix (ms ! j)) < m)))"
      using 2(2) [OF refl] 2(3) by (auto simp: Let_def)
    have x: "prefix_matches path (mt_prefix x) \<longrightarrow> length (mt_prefix x) \<le> n" using False by auto
    from IH [THEN conjunct2, THEN conjunct2] show ?thesis
    proof
      assume "r = best \<and> m = n"
      then show ?thesis using IH x by auto
    next
      assume "\<exists>k<length ms. r = Some (i + 1 + k) \<and> m = length (mt_prefix (ms ! k)) \<and> n < m \<and>
         prefix_matches path (mt_prefix (ms ! k)) \<and>
         (\<forall>j<k. prefix_matches path (mt_prefix (ms ! j)) \<longrightarrow> length (mt_prefix (ms ! j)) < m)"
      then obtain k where "k < length ms" "r = Some (i + 1 + k)" "m = length (mt_prefix (ms ! k))" "n < m"
        "prefix_matches path (mt_prefix (ms ! k))"
        "\<forall>j<k. prefix_matches path (mt_prefix (ms ! j)) \<longrightarrow> length (mt_prefix (ms ! j)) < m" by blast
      then show ?thesis using IH x by (auto intro!: exI [of _ "Suc k"] simp: nth_Cons split: nat.split)
    qed
  qed
qed simp

text \<open>Mount \<open>i\<close> is the first of the mounts with the longest matching prefix.\<close>

definition longest_at :: "string \<Rightarrow> 'w vfs_mount_t list \<Rightarrow> nat \<Rightarrow> bool" where
  "longest_at path ms i \<longleftrightarrow> i < length ms \<and> prefix_matches path (mt_prefix (ms ! i)) \<and> mt_prefix (ms ! i) \<noteq> [] \<and>
    (\<forall>j<length ms. prefix_matches path (mt_prefix (ms ! j)) \<longrightarrow> length (mt_prefix (ms ! j)) \<le> length (mt_prefix (ms ! i))) \<and>
    (\<forall>j<i. prefix_matches path (mt_prefix (ms ! j)) \<longrightarrow> length (mt_prefix (ms ! j)) < length (mt_prefix (ms ! i)))"

lemma longest_at_unique: "longest_at path ms i \<Longrightarrow> longest_at path ms j \<Longrightarrow> i = j"
  unfolding longest_at_def by (metis leD linorder_neqE_nat)

text \<open>
  C30: Path lookup returns the mount with the longest matching prefix, the first in the list of those,
  and the rest of the path without the separating slash; it fails exactly when no mount with a
  non-empty prefix matches.
\<close>

theorem vfs_find_mount_longest:
  "(vfs_find_mount path s = Some (i, rel) \<longleftrightarrow>
     longest_at path (g_mounts s) i \<and> rel = skip_slash (drop (length (mt_prefix (g_mounts s ! i))) path)) \<and>
   (vfs_find_mount path s = None \<longleftrightarrow> (\<forall>m\<in>set (g_mounts s). prefix_matches path (mt_prefix m) \<longrightarrow> mt_prefix m = []))"
proof -
  obtain r m where l: "find_mount_loop path (g_mounts s) 0 None 0 = (r, m)" by fastforce
  note sp = find_mount_loop_spec [OF l]
  show ?thesis
  proof (cases r)
    case None
    then have no: "\<forall>m\<in>set (g_mounts s). prefix_matches path (mt_prefix m) \<longrightarrow> mt_prefix m = []" using sp by auto
    then have "\<not> longest_at path (g_mounts s) i" by (auto simp: longest_at_def)
    then show ?thesis using None no by (simp add: vfs_find_mount_def l)
  next
    case (Some k)
    then have k: "longest_at path (g_mounts s) k \<and> m = length (mt_prefix (g_mounts s ! k))" using sp by (auto simp: longest_at_def)
    then have "\<not> (\<forall>m\<in>set (g_mounts s). prefix_matches path (mt_prefix m) \<longrightarrow> mt_prefix m = [])"
      by (auto simp: longest_at_def)
    then show ?thesis using k Some longest_at_unique [of path "g_mounts s" k i] by (auto simp: vfs_find_mount_def l)
  qed
qed

definition no_ops :: "unit vfs_ops" where
  "no_ops = \<lparr>op_open = None, op_close = None, op_read = None, op_write = None, op_seek = None, op_tell = None, op_stat = None,
     op_unlink = None, op_rename = None, op_mkdir = None, op_rmdir = None, op_opendir = None, op_readdir = None,
     op_closedir = None, op_sync = None\<rparr>"

theorem vfs_find_mount_longest_witness:
  "case vfs_mount True (Some ''/sd'') (Some no_ops) 0 (snd (vfs_mount True (Some ''/sd/logs'') (Some no_ops) 0 vfs_init)) of
     (_, s) \<Rightarrow> vfs_find_mount ''/sd/logs/a'' s = Some (1, ''a'') \<and> vfs_find_mount ''/sdx'' s = None"
proof -
  define s where "s = snd (vfs_mount True (Some ''/sd'') (Some no_ops) 0 (snd (vfs_mount True (Some ''/sd/logs'') (Some no_ops) 0 vfs_init)))"
  have ms: "map mt_prefix (g_mounts s) = [''/sd'', ''/sd/logs'']"
    by (simp add: s_def vfs_mount_def vfs_init_def MAX_MOUNTS_def VFS_NAME_MAX_def)
  then obtain a b where ab: "g_mounts s = [a, b]" "mt_prefix a = ''/sd''" "mt_prefix b = ''/sd/logs''" by auto
  have "longest_at ''/sd/logs/a'' (g_mounts s) 1"
    by (auto simp: ab longest_at_def prefix_matches_def less_Suc_eq)
  moreover have "\<forall>m\<in>set (g_mounts s). prefix_matches ''/sdx'' (mt_prefix m) \<longrightarrow> mt_prefix m = []"
    by (simp add: ab prefix_matches_def)
  ultimately have "vfs_find_mount ''/sd/logs/a'' s = Some (1, ''a'') \<and> vfs_find_mount ''/sdx'' s = None"
    using vfs_find_mount_longest [of "''/sd/logs/a''" s 1 "''a''"] vfs_find_mount_longest [of "''/sdx''" s]
    by (simp add: ab skip_slash_def)
  then show ?thesis unfolding s_def by (simp add: case_prod_beta)
qed

text \<open>A file system mounted at \<open>/\<close> does not serve the paths below it.\<close>

lemma root_mount_serves_nothing:
  assumes "map mt_prefix (g_mounts s) = [''/'']" "c \<noteq> CHR ''/''"
  shows "vfs_find_mount (CHR ''/'' # c # cs) s = None"
  using assms by (cases "g_mounts s") (auto simp: vfs_find_mount_def prefix_matches_def)

end
