(* ===== verification/Sim_Storage.thy ===== *)
theory Sim_Storage
  imports Ardu_Prelude
begin

text \<open>
  The storage device of the simulator, \<^verbatim>\<open>hal/arch/sim/hal_storage_sim.c\<close>: a byte array behind the
  \<open>hal_storage\<close> calls. A call of the registered callback is an entry in \<open>hs_calls\<close>. The sources are
  built for a 64-bit host here, so the sum of an offset and a size does not wrap.
\<close>

definition SIM_STORAGE_SIZE :: nat where "SIM_STORAGE_SIZE = 4 * 1024 * 1024"

datatype hal_storage_type = HAL_STORAGE_TYPE_FLASH | HAL_STORAGE_TYPE_SD_SPI | HAL_STORAGE_TYPE_SD_SDIO | HAL_STORAGE_TYPE_RAM

datatype hal_storage_op = HAL_STORAGE_OP_READ | HAL_STORAGE_OP_WRITE | HAL_STORAGE_OP_ERASE | HAL_STORAGE_OP_SYNC

record hal_storage =
  hs_path :: string
  hs_type :: hal_storage_type
  hs_data :: "u8 list"
  hs_size :: nat
  hs_callback :: "nat option"
  hs_initialized :: bool
  hs_calls :: "(nat \<times> hal_storage_op) list"

record hal_storage_info =
  hi_total_bytes :: nat
  hi_free_bytes :: nat
  hi_used_bytes :: nat
  hi_block_size :: nat
  hi_page_size :: nat

definition hal_storage_open :: "string \<Rightarrow> hal_storage_type \<Rightarrow> hal_storage" where
  "hal_storage_open path ty =
    \<lparr>hs_path = strncpy0 63 path, hs_type = ty, hs_data = replicate SIM_STORAGE_SIZE 0, hs_size = SIM_STORAGE_SIZE,
     hs_callback = None, hs_initialized = False, hs_calls = []\<rparr>"

definition hal_storage_init :: "hal_storage option \<Rightarrow> hal_storage option" where
  "hal_storage_init s = map_option (\<lambda>s. s\<lparr>hs_initialized := True\<rparr>) s"

definition hal_storage_deinit :: "hal_storage option \<Rightarrow> hal_storage option" where
  "hal_storage_deinit s = map_option (\<lambda>s. s\<lparr>hs_initialized := False\<rparr>) s"

text \<open>The call of the callback, when one is registered.\<close>

definition storage_notify :: "hal_storage_op \<Rightarrow> hal_storage \<Rightarrow> hal_storage" where
  "storage_notify op s = (case hs_callback s of None \<Rightarrow> s | Some c \<Rightarrow> s\<lparr>hs_calls := hs_calls s @ [(c, op)]\<rparr>)"

definition hal_storage_read :: "hal_storage option \<Rightarrow> nat \<Rightarrow> nat \<Rightarrow> u8 list option" where
  "hal_storage_read st offset n =
    (case st of
       None \<Rightarrow> None
     | Some s \<Rightarrow>
         if \<not> hs_initialized s then None
         else if offset + n > hs_size s then None
         else Some (slice offset n (hs_data s)))"

definition hal_storage_write :: "hal_storage option \<Rightarrow> nat \<Rightarrow> u8 list \<Rightarrow> hal_storage option" where
  "hal_storage_write st offset buf =
    (case st of
       None \<Rightarrow> None
     | Some s \<Rightarrow>
         if \<not> hs_initialized s then None
         else if offset + length buf > hs_size s then None
         else Some (storage_notify HAL_STORAGE_OP_WRITE (s\<lparr>hs_data := blit (hs_data s) offset buf\<rparr>)))"

definition hal_storage_erase :: "hal_storage option \<Rightarrow> nat \<Rightarrow> nat \<Rightarrow> hal_storage option" where
  "hal_storage_erase st offset n =
    (case st of
       None \<Rightarrow> None
     | Some s \<Rightarrow>
         if \<not> hs_initialized s then None
         else if offset + n > hs_size s then None
         else Some (storage_notify HAL_STORAGE_OP_ERASE (s\<lparr>hs_data := blit (hs_data s) offset (replicate n 0xFF)\<rparr>)))"

definition hal_storage_sync :: "hal_storage option \<Rightarrow> hal_storage option" where
  "hal_storage_sync st = map_option (storage_notify HAL_STORAGE_OP_SYNC) st"

definition hal_storage_get_info :: "hal_storage option \<Rightarrow> hal_storage_info option" where
  "hal_storage_get_info st =
    map_option (\<lambda>s. \<lparr>hi_total_bytes = hs_size s, hi_free_bytes = hs_size s, hi_used_bytes = 0, hi_block_size = 4096, hi_page_size = 256\<rparr>) st"

definition hal_storage_set_callback :: "nat option \<Rightarrow> hal_storage option \<Rightarrow> hal_storage option" where
  "hal_storage_set_callback cb st = map_option (\<lambda>s. s\<lparr>hs_callback := cb\<rparr>) st"

definition hal_storage_suspend :: "hal_storage option \<Rightarrow> hal_storage option" where
  "hal_storage_suspend st = map_option (\<lambda>s. s\<lparr>hs_initialized := False\<rparr>) st"

definition hal_storage_resume :: "hal_storage option \<Rightarrow> hal_storage option" where
  "hal_storage_resume st = map_option (\<lambda>s. s\<lparr>hs_initialized := True\<rparr>) st"

section \<open>The contract of a storage device\<close>

text \<open>A device that is ready keeps \<open>n\<close> bytes, and a read returns the bytes last written.\<close>

definition storage_ok :: "hal_storage \<Rightarrow> bool" where
  "storage_ok s \<longleftrightarrow> hs_initialized s \<and> length (hs_data s) = hs_size s"

lemma storage_notify_sel [simp]:
  "hs_data (storage_notify op s) = hs_data s" "hs_size (storage_notify op s) = hs_size s"
  "hs_initialized (storage_notify op s) = hs_initialized s" "hs_callback (storage_notify op s) = hs_callback s"
  by (simp_all add: storage_notify_def split: option.split)

lemma storage_ok_open: "hal_storage_init (Some (hal_storage_open path ty)) = Some s \<Longrightarrow>
    storage_ok s \<and> hs_size s = SIM_STORAGE_SIZE \<and> hs_data s = replicate SIM_STORAGE_SIZE 0"
  by (auto simp: hal_storage_init_def hal_storage_open_def storage_ok_def)

lemma storage_read: "storage_ok s \<Longrightarrow> offset + n \<le> hs_size s \<Longrightarrow>
    hal_storage_read (Some s) offset n = Some (slice offset n (hs_data s))"
  by (simp add: hal_storage_read_def storage_ok_def)

lemma storage_write:
  assumes "storage_ok s" "offset + length buf \<le> hs_size s"
  shows "\<exists>s'. hal_storage_write (Some s) offset buf = Some s' \<and> storage_ok s' \<and> hs_size s' = hs_size s \<and>
    hs_data s' = blit (hs_data s) offset buf"
  using assms by (simp add: hal_storage_write_def storage_ok_def)

lemma storage_sync:
  assumes "storage_ok s"
  shows "\<exists>s'. hal_storage_sync (Some s) = Some s' \<and> storage_ok s' \<and> hs_size s' = hs_size s \<and> hs_data s' = hs_data s"
  using assms by (simp add: hal_storage_sync_def storage_ok_def)

end
