(* ===== verification/Fatfs.thy ===== *)
theory Fatfs
  imports Vfs Sim_Storage
begin

text \<open>
  The raw-storage file system of \<^verbatim>\<open>fs/fatfs/fatfs_vfs.c\<close> over the simulator's storage device. The open file and
  directory handles are kept in maps from handle numbers; a freed handle leaves its map. Whether \<open>calloc\<close>
  succeeds is the field \<open>fw_mem\<close>.
\<close>

definition VFS_PATH_MAX :: nat where "VFS_PATH_MAX = 128"

record fatfs_ctx =
  fc_storage :: "hal_storage option"
  fc_pdrv :: nat
  fc_mounted :: bool

record fatfs_file_handle =
  ff_offset :: u32
  ff_size :: u32
  ff_path :: string

record fatfs_dir_handle =
  fd_index :: int
  fd_path :: string

record fat_world =
  fw_ctx :: "fatfs_ctx option"
  fw_files :: "nat \<Rightarrow> fatfs_file_handle option"
  fw_dirs :: "nat \<Rightarrow> fatfs_dir_handle option"
  fw_next :: nat
  fw_mem :: bool

definition fatfs_open :: "string \<Rightarrow> nat \<Rightarrow> fat_world \<Rightarrow> int \<times> nat \<times> fat_world" where
  "fatfs_open path mode w =
    (case fw_ctx w of
       None \<Rightarrow> (-1, 0, w)
     | Some ctx \<Rightarrow>
         if \<not> fc_mounted ctx then (-1, 0, w)
         else if \<not> fw_mem w then (-1, 0, w)
         else
           let fh = \<lparr>ff_offset = 0, ff_size = 0, ff_path = strncpy0 (VFS_PATH_MAX - 1) path\<rparr>
           in (0, fw_next w, w\<lparr>fw_files := (fw_files w)(fw_next w := Some fh), fw_next := fw_next w + 1\<rparr>))"

definition fatfs_close :: "nat \<Rightarrow> fat_world \<Rightarrow> int \<times> fat_world" where
  "fatfs_close file w =
    (case fw_files w file of None \<Rightarrow> (-1, w) | Some _ \<Rightarrow> (0, w\<lparr>fw_files := (fw_files w)(file := None)\<rparr>))"

text \<open>The storage device of the mounted context.\<close>

definition ctx_storage :: "fat_world \<Rightarrow> hal_storage option" where
  "ctx_storage w = (case fw_ctx w of None \<Rightarrow> None | Some ctx \<Rightarrow> fc_storage ctx)"

definition set_storage :: "hal_storage \<Rightarrow> fat_world \<Rightarrow> fat_world" where
  "set_storage s w = w\<lparr>fw_ctx := map_option (\<lambda>ctx. ctx\<lparr>fc_storage := Some s\<rparr>) (fw_ctx w)\<rparr>"

definition fatfs_read :: "nat \<Rightarrow> nat \<Rightarrow> fat_world \<Rightarrow> int \<times> u8 list \<times> fat_world" where
  "fatfs_read file n w =
    (case fw_files w file of
       None \<Rightarrow> (-1, [], w)
     | Some fh \<Rightarrow>
         (case ctx_storage w of
            None \<Rightarrow> (-1, [], w)
          | Some st \<Rightarrow>
              (case hal_storage_read (Some st) (unat (ff_offset fh)) n of
                 Some buf \<Rightarrow> (int n, buf, w\<lparr>fw_files := (fw_files w)(file := Some (fh\<lparr>ff_offset := ff_offset fh + of_nat n\<rparr>))\<rparr>)
               | None \<Rightarrow> (-1, [], w))))"

definition fatfs_write :: "nat \<Rightarrow> u8 list \<Rightarrow> fat_world \<Rightarrow> int \<times> fat_world" where
  "fatfs_write file buf w =
    (case fw_files w file of
       None \<Rightarrow> (-1, w)
     | Some fh \<Rightarrow>
         (case ctx_storage w of
            None \<Rightarrow> (-1, w)
          | Some st \<Rightarrow>
              (case hal_storage_write (Some st) (unat (ff_offset fh)) buf of
                 Some st \<Rightarrow>
                   let off = ff_offset fh + of_nat (length buf);
                       fh = fh\<lparr>ff_offset := off, ff_size := (if off > ff_size fh then off else ff_size fh)\<rparr>
                   in (int (length buf), (set_storage st w)\<lparr>fw_files := (fw_files w)(file := Some fh)\<rparr>)
               | None \<Rightarrow> (-1, w))))"

definition fatfs_seek :: "nat \<Rightarrow> int \<Rightarrow> vfs_whence \<Rightarrow> fat_world \<Rightarrow> int \<times> fat_world" where
  "fatfs_seek file offset whence w =
    (case fw_files w file of
       None \<Rightarrow> (-1, w)
     | Some fh \<Rightarrow>
         let off = (case whence of
                      VFS_SEEK_SET \<Rightarrow> of_int offset
                    | VFS_SEEK_CUR \<Rightarrow> ff_offset fh + of_int offset
                    | VFS_SEEK_END \<Rightarrow> ff_size fh + of_int offset)
         in (uint off, w\<lparr>fw_files := (fw_files w)(file := Some (fh\<lparr>ff_offset := off\<rparr>))\<rparr>))"

definition fatfs_tell :: "nat \<Rightarrow> fat_world \<Rightarrow> int" where
  "fatfs_tell file w = (case fw_files w file of None \<Rightarrow> -1 | Some fh \<Rightarrow> uint (ff_offset fh))"

definition fatfs_stat :: "string \<Rightarrow> fat_world \<Rightarrow> int \<times> vfs_stat_t option" where
  "fatfs_stat path w =
    (case ctx_storage w of
       None \<Rightarrow> (-1, None)
     | Some st \<Rightarrow>
         (case hal_storage_get_info (Some st) of
            None \<Rightarrow> (-1, None)
          | Some info \<Rightarrow>
              (0, Some \<lparr>vs_size = hi_free_bytes info, vs_blocks = hi_free_bytes info div hi_block_size info, vs_mode = 0x81A4,
                 vs_mtime = 0, vs_ctime = 0, vs_is_dir = False\<rparr>)))"

definition fatfs_unlink :: "string \<Rightarrow> fat_world \<Rightarrow> int \<times> fat_world" where
  "fatfs_unlink path w = (-1, w)"

definition fatfs_rename :: "string \<Rightarrow> string \<Rightarrow> fat_world \<Rightarrow> int \<times> fat_world" where
  "fatfs_rename oldpath newpath w = (-1, w)"

definition fatfs_mkdir :: "string \<Rightarrow> nat \<Rightarrow> fat_world \<Rightarrow> int \<times> fat_world" where
  "fatfs_mkdir path mode w = (-1, w)"

definition fatfs_rmdir :: "string \<Rightarrow> fat_world \<Rightarrow> int \<times> fat_world" where
  "fatfs_rmdir path w = (-1, w)"

definition fatfs_opendir :: "string \<Rightarrow> fat_world \<Rightarrow> nat option \<times> fat_world" where
  "fatfs_opendir path w =
    (if \<not> fw_mem w then (None, w)
     else (Some (fw_next w), w\<lparr>fw_dirs := (fw_dirs w)(fw_next w := Some \<lparr>fd_index = 0, fd_path = strncpy0 (VFS_PATH_MAX - 1) path\<rparr>),
             fw_next := fw_next w + 1\<rparr>))"

definition fatfs_readdir :: "nat \<Rightarrow> fat_world \<Rightarrow> int \<times> vfs_dirent option \<times> fat_world" where
  "fatfs_readdir dir w = (-1, None, w)"

definition fatfs_closedir :: "nat \<Rightarrow> fat_world \<Rightarrow> int \<times> fat_world" where
  "fatfs_closedir dir w =
    (case fw_dirs w dir of None \<Rightarrow> (-1, w) | Some _ \<Rightarrow> (0, w\<lparr>fw_dirs := (fw_dirs w)(dir := None)\<rparr>))"

definition fatfs_sync :: "nat \<Rightarrow> fat_world \<Rightarrow> int \<times> fat_world" where
  "fatfs_sync file w =
    (case fw_files w file of
       None \<Rightarrow> (-1, w)
     | Some fh \<Rightarrow>
         (case ctx_storage w of
            None \<Rightarrow> (-1, w)
          | Some st \<Rightarrow> (case hal_storage_sync (Some st) of None \<Rightarrow> (-1, w) | Some st \<Rightarrow> (0, set_storage st w))))"

definition fatfs_ops :: "fat_world vfs_ops" where
  "fatfs_ops = \<lparr>op_open = Some fatfs_open, op_close = Some fatfs_close, op_read = Some fatfs_read, op_write = Some fatfs_write,
     op_seek = Some fatfs_seek, op_tell = Some fatfs_tell, op_stat = Some fatfs_stat, op_unlink = Some fatfs_unlink,
     op_rename = Some fatfs_rename, op_mkdir = Some fatfs_mkdir, op_rmdir = Some fatfs_rmdir, op_opendir = Some fatfs_opendir,
     op_readdir = Some fatfs_readdir, op_closedir = Some fatfs_closedir, op_sync = Some fatfs_sync\<rparr>"

definition fatfs_mount :: "hal_storage option \<Rightarrow> nat \<Rightarrow> string option \<Rightarrow> fat_world vfs \<Rightarrow> fat_world \<Rightarrow> int \<times> fat_world vfs \<times> fat_world" where
  "fatfs_mount storage pdrv mount_point s w =
    (case (storage, mount_point) of
       (Some st, Some mp) \<Rightarrow>
         if \<not> fw_mem w then (-1, s, w)
         else
           let ctx = \<lparr>fc_storage = Some st, fc_pdrv = pdrv, fc_mounted = True\<rparr>
           in case vfs_mount (fw_mem w) (Some mp) (Some fatfs_ops) 0 s of
                (ret, s) \<Rightarrow> if ret \<noteq> 0 then (-1, s, w\<lparr>fw_ctx := None\<rparr>) else (0, s, w\<lparr>fw_ctx := Some ctx\<rparr>)
     | _ \<Rightarrow> (-1, s, w))"

definition fatfs_unmount :: "string \<Rightarrow> fat_world vfs \<Rightarrow> fat_world \<Rightarrow> int \<times> fat_world vfs \<times> fat_world" where
  "fatfs_unmount mount_point s w =
    (case fw_ctx w of
       None \<Rightarrow> (-1, s, w)
     | Some _ \<Rightarrow> (case vfs_unmount mount_point s of (ret, s) \<Rightarrow> (ret, s, if ret = 0 then w\<lparr>fw_ctx := None\<rparr> else w)))"

definition fatfs_get_info :: "fat_world \<Rightarrow> (nat \<times> nat) option" where
  "fatfs_get_info w =
    (case ctx_storage w of
       None \<Rightarrow> None
     | Some st \<Rightarrow> map_option (\<lambda>info. (hi_total_bytes info, hi_free_bytes info)) (hal_storage_get_info (Some st)))"

section \<open>The contract of an open file\<close>

text \<open>
  What a client of the switch relies on: a file that is open (\<open>ready\<close>) has a content of fixed length and a
  position; seeking sets the position, a write inside the content replaces bytes, and a read inside the
  content returns them.
\<close>

locale byte_file =
  fixes fl :: "'w vfs_file"
    and ready :: "'w \<Rightarrow> bool"
    and content :: "'w \<Rightarrow> u8 list"
    and pos :: "'w \<Rightarrow> nat"
  assumes seek_set: "ready w \<Longrightarrow> n < 2 ^ 32 \<Longrightarrow> \<exists>r w'. vfs_seek (Some fl) (int n) VFS_SEEK_SET w = (r, w') \<and> ready w' \<and>
      content w' = content w \<and> pos w' = n"
    and write_at: "ready w \<Longrightarrow> pos w + length buf \<le> length (content w) \<Longrightarrow> \<exists>w'. vfs_write (Some fl) buf w = (int (length buf), w') \<and>
      ready w' \<and> content w' = blit (content w) (pos w) buf"
    and read_at: "ready w \<Longrightarrow> pos w + n \<le> length (content w) \<Longrightarrow> \<exists>w'. vfs_read (Some fl) n w = (int n, slice (pos w) n (content w), w') \<and>
      ready w' \<and> content w' = content w"
    and sync_ok: "ready w \<Longrightarrow> \<exists>w'. vfs_sync (Some fl) w = (0, w') \<and> ready w' \<and> content w' = content w"
begin

text \<open>A write at an offset, followed by a read at an offset.\<close>

lemma write_seek:
  assumes "ready w" "n + length buf \<le> length (content w)" "n < 2 ^ 32"
  obtains w' where "vfs_write (Some fl) buf (snd (vfs_seek (Some fl) (int n) VFS_SEEK_SET w)) = (int (length buf), w')"
    "ready w'" "content w' = blit (content w) n buf"
proof -
  obtain r w1 where s: "vfs_seek (Some fl) (int n) VFS_SEEK_SET w = (r, w1)" "ready w1" "content w1 = content w" "pos w1 = n"
    using seek_set [OF assms(1,3)] by blast
  obtain w' where "vfs_write (Some fl) buf w1 = (int (length buf), w')" "ready w'" "content w' = blit (content w) n buf"
    using write_at [OF s(2), of buf] s(3,4) assms(2) by auto
  then show thesis using that s(1) by simp
qed

lemma read_seek:
  assumes "ready w" "n + k \<le> length (content w)" "n < 2 ^ 32"
  obtains w' where "vfs_read (Some fl) k (snd (vfs_seek (Some fl) (int n) VFS_SEEK_SET w)) = (int k, slice n k (content w), w')"
    "ready w'" "content w' = content w"
proof -
  obtain r w1 where s: "vfs_seek (Some fl) (int n) VFS_SEEK_SET w = (r, w1)" "ready w1" "content w1 = content w" "pos w1 = n"
    using seek_set [OF assms(1,3)] by blast
  obtain w' where "vfs_read (Some fl) k w1 = (int k, slice n k (content w), w')" "ready w'" "content w' = content w"
    using read_at [OF s(2), of k] s(3,4) assms(2) by auto
  then show thesis using that s(1) by simp
qed

end

text \<open>A file of the raw-storage file system meets the contract; its content is the whole device.\<close>

definition fat_ready :: "nat \<Rightarrow> fat_world \<Rightarrow> bool" where
  "fat_ready fh w \<longleftrightarrow> fw_files w fh \<noteq> None \<and> (\<exists>s. ctx_storage w = Some s \<and> storage_ok s \<and> hs_size s < 2 ^ 32)"

definition fat_content :: "fat_world \<Rightarrow> u8 list" where
  "fat_content w = (case ctx_storage w of None \<Rightarrow> [] | Some s \<Rightarrow> hs_data s)"

definition fat_pos :: "nat \<Rightarrow> fat_world \<Rightarrow> nat" where
  "fat_pos fh w = (case fw_files w fh of None \<Rightarrow> 0 | Some f \<Rightarrow> unat (ff_offset f))"

definition fat_file :: "nat \<Rightarrow> fat_world vfs_file" where
  "fat_file fh = \<lparr>vf_ops = fatfs_ops, vf_fh = fh\<rparr>"

lemma ctx_storage_upd [simp]: "ctx_storage (w\<lparr>fw_files := f\<rparr>) = ctx_storage w"
  "ctx_storage w \<noteq> None \<Longrightarrow> ctx_storage (set_storage s w) = Some s" "fw_files (set_storage s w) = fw_files w"
  by (auto simp: ctx_storage_def set_storage_def split: option.splits)

lemma fat_readyE:
  assumes "fat_ready fh w"
  obtains f s where "fw_files w fh = Some f" "ctx_storage w = Some s" "storage_ok s" "hs_size s < 2 ^ 32"
    "length (hs_data s) = hs_size s"
  using assms by (auto simp: fat_ready_def storage_ok_def)

interpretation fat: byte_file "fat_file fh" "fat_ready fh" fat_content "fat_pos fh" for fh
proof (unfold_locales, goal_cases)
  case (1 w n)
  from 1(1) obtain f s where f: "fw_files w fh = Some f" "ctx_storage w = Some s" "storage_ok s" "hs_size s < 2 ^ 32"
    by (rule fat_readyE)
  have "unat (of_nat n :: u32) = n" using 1(2) by (simp add: unat_of_nat_small)
  then show ?case using f by (simp add: vfs_seek_def fat_file_def fatfs_ops_def fatfs_seek_def fat_ready_def fat_content_def fat_pos_def Let_def)
next
  case (2 w buf)
  from 2(1) obtain f s where f: "fw_files w fh = Some f" "ctx_storage w = Some s" "storage_ok s" "hs_size s < 2 ^ 32" "length (hs_data s) = hs_size s"
    by (rule fat_readyE)
  have le: "unat (ff_offset f) + length buf \<le> hs_size s" using 2(2) f by (simp add: fat_pos_def fat_content_def)
  obtain s' where s': "hal_storage_write (Some s) (unat (ff_offset f)) buf = Some s'" "storage_ok s'" "hs_size s' = hs_size s"
    "hs_data s' = blit (hs_data s) (unat (ff_offset f)) buf" using storage_write [OF f(3) le] by blast
  then show ?case using f
    by (simp add: vfs_write_def fat_file_def fatfs_ops_def fatfs_write_def fat_ready_def fat_content_def fat_pos_def Let_def)
next
  case (3 w n)
  from 3(1) obtain f s where f: "fw_files w fh = Some f" "ctx_storage w = Some s" "storage_ok s" "hs_size s < 2 ^ 32" "length (hs_data s) = hs_size s"
    by (rule fat_readyE)
  have le: "unat (ff_offset f) + n \<le> hs_size s" using 3(2) f by (simp add: fat_pos_def fat_content_def)
  show ?case using f storage_read [OF f(3) le]
    by (simp add: vfs_read_def fat_file_def fatfs_ops_def fatfs_read_def fat_ready_def fat_content_def fat_pos_def)
next
  case (4 w)
  from 4 obtain f s where f: "fw_files w fh = Some f" "ctx_storage w = Some s" "storage_ok s" "hs_size s < 2 ^ 32"
    by (rule fat_readyE)
  obtain s' where "hal_storage_sync (Some s) = Some s'" "storage_ok s'" "hs_size s' = hs_size s" "hs_data s' = hs_data s"
    using storage_sync [OF f(3)] by blast
  then show ?case using f by (simp add: vfs_sync_def fat_file_def fatfs_ops_def fatfs_sync_def fat_ready_def fat_content_def)
qed

text \<open>Opening a path of a mounted device gives a file in this sense.\<close>

lemma fat_open:
  assumes "vfs_find_mount path s = Some (i, rel)" "mt_ops (g_mounts s ! i) = fatfs_ops" "fw_mem w"
    and "fw_ctx w = Some ctx" "fc_mounted ctx" "fc_storage ctx = Some st" "storage_ok st" "hs_size st < 2 ^ 32"
  shows "\<exists>fh w'. vfs_open True (Some path) mode s w = (0, Some (fat_file fh), w') \<and> fat_ready fh w' \<and> fat_content w' = hs_data st"
  using assms by (simp add: vfs_open_def vfs_do_open_def fatfs_ops_def fatfs_open_def Let_def fat_file_def fat_ready_def
      fat_content_def ctx_storage_def)

end
