(* ===== verification/Config_Store.thy ===== *)
theory Config_Store
  imports Fatfs
begin

text \<open>
  The settings store, \<^verbatim>\<open>fs/config_store.c\<close>, over files of the virtual file system. The entry array is a list as
  long as its allocation (\<open>[]\<close> for NULL); an operation that writes past it has the result \<open>None\<close>. Structures
  are written to the file as their little-endian bytes. Keys and values are lists of bytes without a
  terminating zero; \<open>char\<close> is signed. Whether an allocation succeeds is the argument \<open>mem\<close>; sizes are below
  \<open>2 ^ 32\<close> and their sums do not wrap.
\<close>

definition CONFIG_MAGIC :: u32 where "CONFIG_MAGIC = 0x43464753"
definition CONFIG_VERSION :: u16 where "CONFIG_VERSION = 1"
definition CONFIG_TYPE_STRING :: u16 where "CONFIG_TYPE_STRING = 1"
definition CONFIG_TYPE_INT :: u16 where "CONFIG_TYPE_INT = 2"
definition CONFIG_TYPE_BOOL :: u16 where "CONFIG_TYPE_BOOL = 3"
definition CONFIG_TYPE_BLOB :: u16 where "CONFIG_TYPE_BLOB = 4"

record config_header =
  ch_magic :: u32
  ch_version :: u16
  ch_reserved :: u16
  ch_count :: u32
  ch_data_offset :: u32
  ch_data_size :: u32

record config_entry =
  ce_key_hash :: u32
  ce_key_len :: u16
  ce_type :: u16
  ce_offset :: u32
  ce_size :: u32

record 'w config_store =
  cs_file :: "'w vfs_file option"
  cs_header :: config_header
  cs_entries :: "config_entry list"
  cs_data :: "u8 list"
  cs_dirty :: bool

abbreviation cs_count :: "'w config_store \<Rightarrow> nat" where "cs_count st \<equiv> unat (ch_count (cs_header st))"
abbreviation cs_data_size :: "'w config_store \<Rightarrow> nat" where "cs_data_size st \<equiv> unat (ch_data_size (cs_header st))"

definition hash_key :: "u8 list \<Rightarrow> u32" where
  "hash_key key = foldl (\<lambda>hash c. (push_bit 5 hash + hash) + scast c) 5381 key"

section \<open>The bytes of the structures\<close>

definition header_bytes :: "config_header \<Rightarrow> u8 list" where
  "header_bytes h = u32_bytes (ch_magic h) @ u16_bytes (ch_version h) @ u16_bytes (ch_reserved h) @ u32_bytes (ch_count h) @
     u32_bytes (ch_data_offset h) @ u32_bytes (ch_data_size h)"

definition header_of :: "u8 list \<Rightarrow> config_header" where
  "header_of bs = \<lparr>ch_magic = u32_at bs 0, ch_version = u16_at bs 4, ch_reserved = u16_at bs 6, ch_count = u32_at bs 8,
     ch_data_offset = u32_at bs 12, ch_data_size = u32_at bs 16\<rparr>"

definition entry_bytes :: "config_entry \<Rightarrow> u8 list" where
  "entry_bytes e = u32_bytes (ce_key_hash e) @ u16_bytes (ce_key_len e) @ u16_bytes (ce_type e) @ u32_bytes (ce_offset e) @
     u32_bytes (ce_size e)"

definition entry_of :: "u8 list \<Rightarrow> config_entry" where
  "entry_of bs = \<lparr>ce_key_hash = u32_at bs 0, ce_key_len = u16_at bs 4, ce_type = u16_at bs 6, ce_offset = u32_at bs 8,
     ce_size = u32_at bs 12\<rparr>"

definition entries_of :: "nat \<Rightarrow> u8 list \<Rightarrow> config_entry list" where
  "entries_of n bs = map (\<lambda>i. entry_of (drop (16 * i) bs)) [0..<n]"

definition config_header_zero :: config_header where
  "config_header_zero = \<lparr>ch_magic = 0, ch_version = 0, ch_reserved = 0, ch_count = 0, ch_data_offset = 0, ch_data_size = 0\<rparr>"

definition config_entry_zero :: config_entry where
  "config_entry_zero = \<lparr>ce_key_hash = 0, ce_key_len = 0, ce_type = 0, ce_offset = 0, ce_size = 0\<rparr>"

section \<open>Opening, loading and saving\<close>

definition config_store_open :: "bool \<Rightarrow> string option \<Rightarrow> 'w vfs \<Rightarrow> 'w \<Rightarrow> 'w config_store option \<times> 'w" where
  "config_store_open mem path s w =
    (case path of
       None \<Rightarrow> (None, w)
     | Some p \<Rightarrow>
         if \<not> mem then (None, w)
         else case vfs_open True (Some p) (0x01 OR 0x02 OR 0x08) s w of
           (ret, file, w) \<Rightarrow>
             if ret \<noteq> 0 then (None, w)
             else (Some \<lparr>cs_file = file, cs_header = config_header_zero, cs_entries = [], cs_data = [], cs_dirty = False\<rparr>, w))"

text \<open>\<open>config_store_init\<close> reads the header, then the entries, then the data.\<close>

definition init_new :: "bool \<Rightarrow> config_header \<Rightarrow> 'w config_store \<Rightarrow> int \<times> 'w config_store" where
  "init_new mem h st =
    (let st = st\<lparr>cs_header := h\<lparr>ch_magic := CONFIG_MAGIC, ch_version := CONFIG_VERSION, ch_count := 0,
                 ch_data_offset := 20 + 1024 * 16, ch_data_size := 0\<rparr>\<rparr>
     in if mem then (0, st\<lparr>cs_entries := replicate 1024 config_entry_zero\<rparr>) else (-1, st\<lparr>cs_entries := []\<rparr>))"

definition init_entries :: "bool \<Rightarrow> 'w config_store \<Rightarrow> 'w \<Rightarrow> int \<times> 'w config_store \<times> 'w" where
  "init_entries mem st w =
    (if cs_count st > 0 then
       if \<not> mem then (-1, st\<lparr>cs_entries := []\<rparr>, w)
       else case vfs_read (cs_file st) (cs_count st * 16) (snd (vfs_seek (cs_file st) 20 VFS_SEEK_SET w)) of
         (r, bs, w) \<Rightarrow>
           if r \<noteq> int (cs_count st * 16) then (-1, st\<lparr>cs_entries := []\<rparr>, w)
           else (0, st\<lparr>cs_entries := entries_of (cs_count st) bs\<rparr>, w)
     else (0, st, w))"

definition init_data :: "bool \<Rightarrow> 'w config_store \<Rightarrow> 'w \<Rightarrow> int \<times> 'w config_store \<times> 'w" where
  "init_data mem st w =
    (if cs_data_size st > 0 then
       if \<not> mem then (-1, st\<lparr>cs_data := []\<rparr>, w)
       else case vfs_read (cs_file st) (cs_data_size st)
           (snd (vfs_seek (cs_file st) (int (unat (ch_data_offset (cs_header st)))) VFS_SEEK_SET w)) of
         (r, bs, w) \<Rightarrow>
           if r \<noteq> int (cs_data_size st) then (-1, st\<lparr>cs_data := []\<rparr>, w) else (0, st\<lparr>cs_data := bs\<rparr>, w)
     else (0, st, w))"

definition config_store_init :: "bool \<Rightarrow> 'w config_store \<Rightarrow> 'w \<Rightarrow> int \<times> 'w config_store \<times> 'w" where
  "config_store_init mem st w =
    (case cs_file st of
       None \<Rightarrow> (-1, st, w)
     | Some file \<Rightarrow>
         (case vfs_read (Some file) 20 (snd (vfs_seek (Some file) 0 VFS_SEEK_SET w)) of
            (r, bs, w) \<Rightarrow>
              let h = header_of (blit (header_bytes (cs_header st)) 0 bs) in
              if r \<noteq> 20 then (case init_new mem h st of (ret, st) \<Rightarrow> (ret, st, w))
              else if ch_magic h \<noteq> CONFIG_MAGIC then (-1, st\<lparr>cs_header := h\<rparr>, w)
              else case init_entries mem (st\<lparr>cs_header := h\<rparr>) w of
                (ret, st, w) \<Rightarrow> if ret \<noteq> 0 then (ret, st, w) else init_data mem st w))"

definition file_write_at :: "'w vfs_file option \<Rightarrow> nat \<Rightarrow> u8 list \<Rightarrow> 'w \<Rightarrow> bool \<times> 'w" where
  "file_write_at file off bs w =
    (case vfs_write file bs (snd (vfs_seek file (int off) VFS_SEEK_SET w)) of (r, w) \<Rightarrow> (r = int (length bs), w))"

definition config_write_header :: "'w config_store \<Rightarrow> 'w \<Rightarrow> int \<times> 'w" where
  "config_write_header st w =
    (case file_write_at (cs_file st) 0 (header_bytes (cs_header st)) w of
       (ok, w) \<Rightarrow>
         if \<not> ok then (-1, w)
         else case (if cs_count st > 0
                    then file_write_at (cs_file st) 20 (concat (map entry_bytes (take (cs_count st) (cs_entries st)))) w else (True, w)) of
           (ok, w) \<Rightarrow>
             if \<not> ok then (-1, w)
             else case (if cs_data_size st > 0
                        then file_write_at (cs_file st) (unat (ch_data_offset (cs_header st))) (take (cs_data_size st) (cs_data st)) w
                        else (True, w)) of
               (ok, w) \<Rightarrow> if \<not> ok then (-1, w) else vfs_sync (cs_file st) w)"

definition config_store_flush :: "'w config_store \<Rightarrow> 'w \<Rightarrow> int \<times> 'w config_store \<times> 'w" where
  "config_store_flush st w =
    (if \<not> cs_dirty st then (0, st, w)
     else case config_write_header st w of (ret, w) \<Rightarrow> (ret, if ret = 0 then st\<lparr>cs_dirty := False\<rparr> else st, w))"

definition config_store_close :: "'w config_store \<Rightarrow> 'w \<Rightarrow> 'w" where
  "config_store_close st w =
    (case config_store_flush st w of
       (_, st, w) \<Rightarrow> (case cs_file st of None \<Rightarrow> w | Some file \<Rightarrow> snd (vfs_close (Some file) w)))"

definition config_store_deinit :: "'w config_store \<Rightarrow> 'w \<Rightarrow> int \<times> 'w config_store \<times> 'w" where
  "config_store_deinit st w =
    (case config_store_flush st w of
       (_, st, w) \<Rightarrow>
         (0, st\<lparr>cs_entries := [], cs_data := [], cs_header := (cs_header st)\<lparr>ch_count := 0, ch_data_size := 0\<rparr>\<rparr>, w))"

section \<open>Entries\<close>

definition config_reserve_data :: "'w config_store \<Rightarrow> nat \<Rightarrow> int" where
  "config_reserve_data st n = (if cs_data_size st + n > 65536 then -1 else 0)"

definition entry_matches :: "u8 list \<Rightarrow> config_entry \<Rightarrow> bool" where
  "entry_matches key e \<longleftrightarrow> ce_key_hash e = hash_key key \<and> unat (ce_key_len e) = length key"

definition config_find_entry :: "'w config_store \<Rightarrow> u8 list \<Rightarrow> nat option" where
  "config_find_entry st key = List.find (\<lambda>i. entry_matches key (cs_entries st ! i)) [0..<cs_count st]"

definition config_delete :: "'w config_store \<Rightarrow> u8 list \<Rightarrow> int \<times> 'w config_store" where
  "config_delete st key =
    (case config_find_entry st key of
       None \<Rightarrow> (-1, st)
     | Some i \<Rightarrow>
         (0, st\<lparr>cs_entries := fold (\<lambda>j es. es[j := es ! (j + 1)]) [i..<cs_count st - 1] (cs_entries st),
                cs_header := (cs_header st)\<lparr>ch_count := ch_count (cs_header st) - 1\<rparr>, cs_dirty := True\<rparr>))"

lemma count_pred: "unat c > 0 \<Longrightarrow> unat (c - 1 :: u32) = unat c - 1"
  by (simp add: unat_gt_0 unat_minus_one)

lemma config_find_less: "config_find_entry st key = Some i \<Longrightarrow> i < cs_count st"
  by (simp add: config_find_entry_def find_upt_Some)

lemma config_delete_count:
  "config_find_entry st key = Some i \<Longrightarrow> cs_count (snd (config_delete st key)) = cs_count st - 1"
  using config_find_less [of st key i] by (simp add: config_delete_def count_pred)

text \<open>The four setters share their body: the value bytes and the type tag differ.\<close>

definition entry_new :: "u8 list \<Rightarrow> u16 \<Rightarrow> nat \<Rightarrow> 'w config_store \<Rightarrow> config_entry" where
  "entry_new key ty n st = \<lparr>ce_key_hash = hash_key key, ce_key_len = of_nat (length key), ce_type = ty,
     ce_offset = ch_data_size (cs_header st), ce_size = of_nat n\<rparr>"

definition entry_append :: "bool \<Rightarrow> u8 list \<Rightarrow> u16 \<Rightarrow> u8 list \<Rightarrow> 'w config_store \<Rightarrow> (int \<times> 'w config_store) option" where
  "entry_append mem key ty bs st =
    (if cs_count st \<ge> 1024 then Some (-1, st)
     else if config_reserve_data st (length bs) \<noteq> 0 then Some (-1, st)
     else if length (cs_entries st) \<le> cs_count st then None
     else
       let h = cs_header st;
           st' = st\<lparr>cs_entries := (cs_entries st)[cs_count st := entry_new key ty (length bs) st],
                    cs_header := h\<lparr>ch_count := ch_count h + 1\<rparr>\<rparr>
       in if \<not> mem then Some (-1, st'\<lparr>cs_data := []\<rparr>)
          else Some (0, st'\<lparr>cs_data := take (cs_data_size st) (cs_data st) @ bs,
                       cs_header := (cs_header st')\<lparr>ch_data_size := ch_data_size h + of_nat (length bs)\<rparr>, cs_dirty := True\<rparr>))"

definition entry_overwrite :: "nat \<Rightarrow> u16 \<Rightarrow> u8 list \<Rightarrow> 'w config_store \<Rightarrow> 'w config_store" where
  "entry_overwrite i ty bs st =
    (let e = cs_entries st ! i
     in st\<lparr>cs_data := blit (cs_data st) (unat (ce_offset e)) bs,
           cs_entries := (cs_entries st)[i := e\<lparr>ce_size := of_nat (length bs), ce_type := ty\<rparr>], cs_dirty := True\<rparr>)"

function config_put :: "bool \<Rightarrow> u8 list \<Rightarrow> u16 \<Rightarrow> u8 list \<Rightarrow> 'w config_store \<Rightarrow> (int \<times> 'w config_store) option" where
  "config_put mem key ty bs st =
    (case config_find_entry st key of
       Some i \<Rightarrow>
         if unat (ce_size (cs_entries st ! i)) \<ge> length bs then Some (0, entry_overwrite i ty bs st)
         else config_put mem key ty bs (snd (config_delete st key))
     | None \<Rightarrow> entry_append mem key ty bs st)"
  by pat_completeness auto
termination
proof (relation "measure (\<lambda>(mem, key, ty, bs, st). cs_count st)", goal_cases)
  case (2 mem key ty bs st i)
  then show ?case using config_find_less [of st key i] config_delete_count [of st key i] by simp
qed simp

declare config_put.simps [simp del]

definition config_set_string :: "bool \<Rightarrow> 'w config_store option \<Rightarrow> u8 list option \<Rightarrow> u8 list option \<Rightarrow> (int \<times> 'w config_store option) option" where
  "config_set_string mem store key val =
    (case (store, key, val) of
       (Some st, Some key, Some val) \<Rightarrow> map_option (map_prod id Some) (config_put mem key CONFIG_TYPE_STRING (val @ [0]) st)
     | _ \<Rightarrow> Some (-1, store))"

definition config_set_int :: "bool \<Rightarrow> 'w config_store option \<Rightarrow> u8 list option \<Rightarrow> u32 \<Rightarrow> (int \<times> 'w config_store option) option" where
  "config_set_int mem store key val =
    (case (store, key) of
       (Some st, Some key) \<Rightarrow> map_option (map_prod id Some) (config_put mem key CONFIG_TYPE_INT (u32_bytes val) st)
     | _ \<Rightarrow> Some (-1, store))"

definition config_set_bool :: "bool \<Rightarrow> 'w config_store option \<Rightarrow> u8 list option \<Rightarrow> bool \<Rightarrow> (int \<times> 'w config_store option) option" where
  "config_set_bool mem store key val =
    (case (store, key) of
       (Some st, Some key) \<Rightarrow>
         map_option (map_prod id Some) (config_put mem key CONFIG_TYPE_BOOL [if val then 1 else 0] st)
     | _ \<Rightarrow> Some (-1, store))"

definition config_set_blob :: "bool \<Rightarrow> 'w config_store option \<Rightarrow> u8 list option \<Rightarrow> u8 list option \<Rightarrow> (int \<times> 'w config_store option) option" where
  "config_set_blob mem store key data =
    (case (store, key, data) of
       (Some st, Some key, Some bs) \<Rightarrow>
         if bs = [] then Some (-1, store) else map_option (map_prod id Some) (config_put mem key CONFIG_TYPE_BLOB bs st)
     | _ \<Rightarrow> Some (-1, store))"

text \<open>The entry of a key, when it has the type that is asked for.\<close>

definition entry_typed :: "'w config_store option \<Rightarrow> u8 list option \<Rightarrow> u16 \<Rightarrow> config_entry option" where
  "entry_typed store key ty =
    (case (store, key) of
       (Some st, Some key) \<Rightarrow>
         (case config_find_entry st key of
            None \<Rightarrow> None
          | Some i \<Rightarrow> if ce_type (cs_entries st ! i) \<noteq> ty then None else Some (cs_entries st ! i))
     | _ \<Rightarrow> None)"

definition store_data :: "'w config_store option \<Rightarrow> u8 list" where
  "store_data store = (case store of None \<Rightarrow> [] | Some st \<Rightarrow> cs_data st)"

definition config_get_string :: "'w config_store option \<Rightarrow> u8 list option \<Rightarrow> u8 list \<Rightarrow> u8 list" where
  "config_get_string store key def =
    (case entry_typed store key CONFIG_TYPE_STRING of
       None \<Rightarrow> def | Some e \<Rightarrow> takeWhile (\<lambda>c. c \<noteq> 0) (drop (unat (ce_offset e)) (store_data store)))"

definition config_get_int :: "'w config_store option \<Rightarrow> u8 list option \<Rightarrow> u32 \<Rightarrow> u32" where
  "config_get_int store key def =
    (case entry_typed store key CONFIG_TYPE_INT of
       None \<Rightarrow> def | Some e \<Rightarrow> u32_at (store_data store) (unat (ce_offset e)))"

definition config_get_bool :: "'w config_store option \<Rightarrow> u8 list option \<Rightarrow> bool \<Rightarrow> bool" where
  "config_get_bool store key def =
    (case entry_typed store key CONFIG_TYPE_BOOL of
       None \<Rightarrow> def | Some e \<Rightarrow> store_data store ! unat (ce_offset e) \<noteq> 0)"

definition config_get_blob :: "'w config_store option \<Rightarrow> u8 list option \<Rightarrow> nat \<Rightarrow> u8 list option" where
  "config_get_blob store key max_size =
    (if max_size = 0 then None
     else case entry_typed store key CONFIG_TYPE_BLOB of
       None \<Rightarrow> None
     | Some e \<Rightarrow> Some (slice (unat (ce_offset e)) (min (unat (ce_size e)) max_size) (store_data store)))"

definition config_exists :: "'w config_store option \<Rightarrow> u8 list option \<Rightarrow> bool" where
  "config_exists store key =
    (case (store, key) of (Some st, Some key) \<Rightarrow> config_find_entry st key \<noteq> None | _ \<Rightarrow> False)"

definition config_list_keys :: "'w config_store \<Rightarrow> nat \<Rightarrow> u8 list option list" where
  "config_list_keys st max_keys = replicate (min (cs_count st) max_keys) None"

end
