(* ===== verification/Config_Map.thy ===== *)
theory Config_Map
  imports Config_Store
begin

text \<open>
  The settings store as a map. A well-formed store is abstracted to the map from key identities (hash and
  length) to type tags and value bytes; setting and deleting are shown to be map update and map removal.
\<close>

section \<open>Association lists with distinct keys\<close>

lemma map_of_snoc: "fst x \<notin> fst ` set ps \<Longrightarrow> map_of (ps @ [x]) = (map_of ps)(fst x \<mapsto> snd x)"
  by (induction ps) (auto simp: fun_upd_twist)

lemma map_of_update_at:
  "distinct (map fst ps) \<Longrightarrow> i < length ps \<Longrightarrow> fst x = fst (ps ! i) \<Longrightarrow> map_of (ps[i := x]) = (map_of ps)(fst x \<mapsto> snd x)"
proof (induction ps arbitrary: i)
  case (Cons p ps)
  show ?case
  proof (cases i)
    case (Suc j)
    then have "fst p \<noteq> fst x" using Cons.prems nth_mem [of j ps] by auto
    then show ?thesis using Cons Suc by (auto simp: fun_upd_twist)
  qed (use Cons.prems in auto)
qed simp

lemma map_of_remove_at:
  "distinct (map fst ps) \<Longrightarrow> i < length ps \<Longrightarrow> map_of (take i ps @ drop (Suc i) ps) = (map_of ps)(fst (ps ! i) := None)"
proof (induction ps arbitrary: i)
  case (Cons p ps)
  show ?case
  proof (cases i)
    case 0
    then have "map_of ps (fst p) = None" using Cons.prems by (simp add: map_of_eq_None_iff)
    then show ?thesis using 0 by (auto simp: fun_eq_iff)
  next
    case (Suc j)
    then have "fst p \<noteq> fst (ps ! j)" using Cons.prems nth_mem [of j ps] by auto
    then show ?thesis using Cons Suc by (auto simp: fun_upd_twist)
  qed
qed simp

section \<open>Well-formed stores\<close>

abbreviation eoff :: "config_entry \<Rightarrow> nat" where "eoff e \<equiv> unat (ce_offset e)"
abbreviation esize :: "config_entry \<Rightarrow> nat" where "esize e \<equiv> unat (ce_size e)"

definition live :: "'w config_store \<Rightarrow> config_entry list" where
  "live st = take (cs_count st) (cs_entries st)"

definition ckey :: "config_entry \<Rightarrow> u32 \<times> u16" where
  "ckey e = (ce_key_hash e, ce_key_len e)"

definition key_id :: "u8 list \<Rightarrow> u32 \<times> u16" where
  "key_id key = (hash_key key, of_nat (length key))"

text \<open>The value regions of the live entries are disjoint and in order, and the keys are distinct.\<close>

definition regions_ok :: "nat \<Rightarrow> config_entry list \<Rightarrow> bool" where
  "regions_ok n es \<longleftrightarrow> sorted_wrt (\<lambda>a b. eoff a + esize a \<le> eoff b) es \<and> (\<forall>e\<in>set es. eoff e + esize e \<le> n)"

definition cs_wf :: "'w config_store \<Rightarrow> bool" where
  "cs_wf st \<longleftrightarrow> cs_count st \<le> length (cs_entries st) \<and> cs_count st \<le> 1024 \<and> length (cs_data st) = cs_data_size st \<and>
    cs_data_size st \<le> 65536 \<and> regions_ok (cs_data_size st) (live st) \<and> distinct (map ckey (live st))"

definition ckv :: "u8 list \<Rightarrow> config_entry \<Rightarrow> (u32 \<times> u16) \<times> (u16 \<times> u8 list)" where
  "ckv d e = (ckey e, (ce_type e, slice (eoff e) (esize e) d))"

definition cs_map :: "'w config_store \<Rightarrow> u32 \<times> u16 \<Rightarrow> (u16 \<times> u8 list) option" where
  "cs_map st = map_of (map (ckv (cs_data st)) (live st))"

lemma fst_ckv [simp]: "fst (ckv d e) = ckey e" "map (fst \<circ> ckv d) es = map ckey es" "fst ` ckv d ` A = ckey ` A"
  by (auto simp: ckv_def image_image)

lemma length_live: "cs_wf st \<Longrightarrow> length (live st) = cs_count st"
  by (simp add: cs_wf_def live_def)

lemma matches_id: "length key < 65536 \<Longrightarrow> entry_matches key e \<longleftrightarrow> ckey e = key_id key"
proof -
  assume k: "length key < 65536"
  have "unat (of_nat (length key) :: u16) = length key" using k by (simp add: unat_of_nat_small)
  then have "unat (ce_key_len e) = length key \<longleftrightarrow> ce_key_len e = of_nat (length key)" by (metis word_unat_eq_iff)
  then show ?thesis by (simp add: entry_matches_def ckey_def key_id_def)
qed

lemma find_live:
  assumes "cs_wf st" "length key < 65536"
  shows "config_find_entry st key = Some i \<Longrightarrow> i < length (live st) \<and> live st ! i = cs_entries st ! i \<and> ckey (live st ! i) = key_id key"
    and "config_find_entry st key = None \<Longrightarrow> key_id key \<notin> ckey ` set (live st)"
proof -
  have l: "length (live st) = cs_count st" using length_live [OF assms(1)] .
  have n: "i < cs_count st \<Longrightarrow> live st ! i = cs_entries st ! i" for i by (simp add: live_def)
  show "i < length (live st) \<and> live st ! i = cs_entries st ! i \<and> ckey (live st ! i) = key_id key"
    if "config_find_entry st key = Some i"
    using that l n [of i] matches_id [OF assms(2)] by (simp add: config_find_entry_def find_upt_Some)
  show "key_id key \<notin> ckey ` set (live st)" if "config_find_entry st key = None"
  proof -
    have "\<forall>i<cs_count st. ckey (live st ! i) \<noteq> key_id key"
      using that n matches_id [OF assms(2)] by (simp add: config_find_entry_def find_upt_None)
    then show ?thesis using l by (metis imageE in_set_conv_nth)
  qed
qed

section \<open>The operations on the map\<close>

lemma nth_slice: "j < n \<Longrightarrow> a + n \<le> length d \<Longrightarrow> slice a n d ! j = d ! (a + j)"
  by (simp add: slice_def)

lemma nth_blit: "i + length bs \<le> length d \<Longrightarrow> x < length d \<Longrightarrow> blit d i bs ! x = (if i \<le> x \<and> x < i + length bs then bs ! (x - i) else d ! x)"
  by (auto simp: blit_def nth_append min_def)

lemma slice_blit_other:
  assumes "a + k \<le> i \<or> i + length bs \<le> a" "i + length bs \<le> length d" "a + k \<le> length d"
  shows "slice a k (blit d i bs) = slice a k d"
proof (rule nth_equalityI)
  fix j
  assume "j < length (slice a k (blit d i bs))"
  then have "j < k" using assms by simp
  then show "slice a k (blit d i bs) ! j = slice a k d ! j" using assms by (auto simp: nth_slice nth_blit)
qed (use assms in simp)

lemma regions_distinct:
  assumes "regions_ok n es" "i < length es" "j < length es" "i \<noteq> j"
  shows "eoff (es ! i) + esize (es ! i) \<le> eoff (es ! j) \<or> eoff (es ! j) + esize (es ! j) \<le> eoff (es ! i)"
  using assms by (cases "i < j") (auto simp: regions_ok_def sorted_wrt_iff_nth_less)

lemma live_delete:
  assumes "cs_wf st" "config_find_entry st key = Some i"
  shows "live (snd (config_delete st key)) = take i (live st) @ drop (Suc i) (live st)"
proof -
  have i: "i < cs_count st" using config_find_less [OF assms(2)] .
  have c: "cs_count st \<le> length (cs_entries st)" using assms(1) by (simp add: cs_wf_def)
  have "cs_count (snd (config_delete st key)) = cs_count st - 1" using config_delete_count [OF assms(2)] .
  then show ?thesis using take_shift_left [OF i c] assms(2) by (simp add: live_def config_delete_def)
qed

lemma delete_wf:
  assumes "cs_wf st" "config_find_entry st key = Some i"
  shows "cs_wf (snd (config_delete st key))"
proof -
  let ?st = "snd (config_delete st key)"
  have c: "cs_count ?st = cs_count st - 1" using config_delete_count [OF assms(2)] .
  have d: "cs_data ?st = cs_data st" "cs_data_size ?st = cs_data_size st" "length (cs_entries ?st) = length (cs_entries st)"
    using assms(2) by (simp_all add: config_delete_def)
  have "set (take i (live st) @ drop (Suc i) (live st)) \<subseteq> set (live st)"
    using set_take_subset [of i "live st"] set_drop_subset [of "Suc i" "live st"] by auto
  moreover have "distinct (take i (map ckey (live st)) @ drop (Suc i) (map ckey (live st)))"
    using assms(1) set_take_disj_set_drop_if_distinct [of "map ckey (live st)" i "Suc i"] by (auto simp: cs_wf_def)
  ultimately show ?thesis using assms(1) c d sorted_wrt_remove live_delete [OF assms]
    unfolding cs_wf_def regions_ok_def by (auto simp: take_map drop_map)
qed

lemma delete_map:
  assumes "cs_wf st" "config_find_entry st key = Some i" "length key < 65536"
  shows "cs_map (snd (config_delete st key)) = (cs_map st)(key_id key := None)"
proof -
  have f: "i < length (live st)" "ckey (live st ! i) = key_id key" using find_live(1) [OF assms(1,3,2)] by auto
  have d: "cs_data (snd (config_delete st key)) = cs_data st" using assms(2) by (simp add: config_delete_def)
  have "distinct (map fst (map (ckv (cs_data st)) (live st)))" using assms(1) by (simp add: cs_wf_def)
  from map_of_remove_at [OF this, of i] show ?thesis
    using f by (simp add: cs_map_def live_delete [OF assms(1,2)] d take_map drop_map)
qed

lemma overwrite_sel:
  "cs_header (entry_overwrite i ty bs st) = cs_header st" "length (cs_entries (entry_overwrite i ty bs st)) = length (cs_entries st)"
  "i < cs_count st \<Longrightarrow> live (entry_overwrite i ty bs st) = (live st)[i := (cs_entries st ! i)\<lparr>ce_size := of_nat (length bs), ce_type := ty\<rparr>]"
  "cs_data (entry_overwrite i ty bs st) = blit (cs_data st) (eoff (cs_entries st ! i)) bs"
  by (simp_all add: entry_overwrite_def Let_def live_def take_update_swap)

lemma regions_update:
  assumes r: "regions_ok n es" and i: "i < length es" and e: "eoff e = eoff (es ! i)" "esize e \<le> esize (es ! i)"
  shows "regions_ok n (es[i := e])"
proof -
  have pt: "eoff (es[i := e] ! j) = eoff (es ! j) \<and> esize (es[i := e] ! j) \<le> esize (es ! j)" if "j < length es" for j
    using that e by (cases "j = i") auto
  have "sorted_wrt (\<lambda>a b. eoff a + esize a \<le> eoff b) (es[i := e])"
    unfolding sorted_wrt_iff_nth_less
  proof (intro allI impI)
    fix j k
    assume jk: "j < k" "k < length (es[i := e])"
    then have "eoff (es ! j) + esize (es ! j) \<le> eoff (es ! k)" using r by (simp add: regions_ok_def sorted_wrt_iff_nth_less)
    then show "eoff (es[i := e] ! j) + esize (es[i := e] ! j) \<le> eoff (es[i := e] ! k)" using pt [of j] pt [of k] jk by simp
  qed
  moreover have "eoff x + esize x \<le> n" if "x \<in> set (es[i := e])" for x
  proof -
    have "eoff (es ! i) + esize (es ! i) \<le> n" using r i by (simp add: regions_ok_def)
    moreover have "x = e \<or> x \<in> set es" using that set_update_subset_insert [of es i e] by auto
    ultimately show ?thesis using r e by (auto simp: regions_ok_def)
  qed
  ultimately show ?thesis by (simp add: regions_ok_def)
qed

text \<open>Writing a value inside its own region changes no other value.\<close>

lemma ckv_update:
  assumes r: "regions_ok (length d) es" and i: "i < length es"
    and e: "eoff e = eoff (es ! i)" "esize e = length bs" "length bs \<le> esize (es ! i)"
  shows "map (ckv (blit d (eoff e) bs)) (es[i := e]) = (map (ckv d) es)[i := (ckey e, (ce_type e, bs))]"
proof (rule nth_equalityI)
  fix j
  assume "j < length (map (ckv (blit d (eoff e) bs)) (es[i := e]))"
  then have j: "j < length es" by simp
  have b: "eoff (es ! k) + esize (es ! k) \<le> length d" if "k < length es" for k using r that by (simp add: regions_ok_def)
  show "map (ckv (blit d (eoff e) bs)) (es[i := e]) ! j = (map (ckv d) es)[i := (ckey e, (ce_type e, bs))] ! j"
  proof (cases "j = i")
    case True
    then show ?thesis using i e b [OF i] by (simp add: ckv_def slice_blit)
  next
    case False
    have "slice (eoff (es ! j)) (esize (es ! j)) (blit d (eoff e) bs) = slice (eoff (es ! j)) (esize (es ! j)) d"
      by (rule slice_blit_other) (use regions_distinct [OF r j i False] b [OF j] b [OF i] e in auto)
    then show ?thesis using False j by (simp add: ckv_def)
  qed
qed simp

lemma overwrite_ok:
  assumes wf: "cs_wf st" and i: "i < length (live st)" and n: "length bs \<le> esize (cs_entries st ! i)"
  shows "cs_wf (entry_overwrite i ty bs st)"
    and "cs_map (entry_overwrite i ty bs st) = (cs_map st)(ckey (live st ! i) \<mapsto> (ty, bs))"
proof -
  let ?st = "entry_overwrite i ty bs st" and ?e = "cs_entries st ! i"
  let ?e' = "?e\<lparr>ce_size := of_nat (length bs), ce_type := ty\<rparr>"
  have ic: "i < cs_count st" and le: "live st ! i = ?e" using i length_live [OF wf] by (auto simp: live_def)
  note sel = overwrite_sel(1,2,4) [of i ty bs st] overwrite_sel(3) [OF ic, of ty bs]
  have r: "regions_ok (cs_data_size st) (live st)" and dl: "length (cs_data st) = cs_data_size st" "cs_data_size st \<le> 65536"
    using wf by (auto simp: cs_wf_def)
  have e: "eoff ?e + esize ?e \<le> cs_data_size st" using r i le by (metis nth_mem regions_ok_def)
  have sz: "esize ?e' = length bs" "eoff ?e' = eoff ?e" "ckey ?e' = ckey ?e" "ce_type ?e' = ty"
    using n e dl(2) by (simp_all add: unat_of_nat_small ckey_def)
  have r': "regions_ok (cs_data_size st) ((live st)[i := ?e'])" by (rule regions_update [OF r i]) (use sz n le in simp_all)
  have keys: "map ckey ((live st)[i := ?e']) = map ckey (live st)" using i le sz(3) by (simp add: map_update list_update_same_conv)
  show "cs_wf ?st" using wf r' keys sel e n dl unfolding cs_wf_def by simp
  have kv: "map (ckv (blit (cs_data st) (eoff ?e') bs)) ((live st)[i := ?e']) =
      (map (ckv (cs_data st)) (live st))[i := (ckey ?e', (ce_type ?e', bs))]"
    by (rule ckv_update) (use r dl i sz n le in simp_all)
  have "distinct (map fst (map (ckv (cs_data st)) (live st)))" using wf by (simp add: cs_wf_def)
  from map_of_update_at [OF this, of i "(ckey ?e, (ty, bs))"] show "cs_map ?st = (cs_map st)(ckey (live st ! i) \<mapsto> (ty, bs))"
    using i le kv unfolding sz by (simp add: cs_map_def sel)
qed

lemma append_ok:
  assumes wf: "cs_wf st" and k: "length key < 65536" and f: "config_find_entry st key = None"
    and a: "entry_append True key ty bs st = Some (0, st')"
  shows "cs_wf st'" and "cs_map st' = (cs_map st)(key_id key \<mapsto> (ty, bs))"
proof -
  have g: "cs_count st < 1024" "cs_data_size st + length bs \<le> 65536" "cs_count st < length (cs_entries st)"
    using a by (auto simp: entry_append_def config_reserve_data_def split: if_splits)
  let ?e = "entry_new key ty (length bs) st"
  have dl: "length (cs_data st) = cs_data_size st" using wf by (simp add: cs_wf_def)
  have st': "st' = st\<lparr>cs_entries := (cs_entries st)[cs_count st := ?e], cs_data := cs_data st @ bs,
      cs_header := (cs_header st)\<lparr>ch_count := ch_count (cs_header st) + 1, ch_data_size := ch_data_size (cs_header st) + of_nat (length bs)\<rparr>,
      cs_dirty := True\<rparr>"
    using a g dl by (simp add: entry_append_def config_reserve_data_def Let_def)
  have ub: "unat (of_nat (length bs) :: u32) = length bs" using g(2) by (simp add: unat_of_nat_small)
  have c: "unat (ch_count (cs_header st) + 1) = cs_count st + 1" using g(1) by (intro u32_inc) auto
  have ds: "unat (ch_data_size (cs_header st) + of_nat (length bs)) = cs_data_size st + length bs"
    using u32_add [of "ch_data_size (cs_header st)" "of_nat (length bs)"] ub g(2) by simp
  have lv: "live st' = live st @ [?e]" using g(3) by (simp add: st' live_def c take_Suc_conv_app_nth)
  have e: "eoff ?e = cs_data_size st" "esize ?e = length bs" "ckey ?e = key_id key" "ce_type ?e = ty"
    using ub by (simp_all add: entry_new_def ckey_def key_id_def)
  have r: "regions_ok (cs_data_size st) (live st)" using wf by (simp add: cs_wf_def)
  then have r': "regions_ok (cs_data_size st + length bs) (live st @ [?e])"
    using e by (fastforce simp: regions_ok_def sorted_wrt_append)
  have new: "key_id key \<notin> ckey ` set (live st)" by (rule find_live(2) [OF wf k f])
  show "cs_wf st'" using wf r' lv new e g c ds dl unfolding cs_wf_def by (simp add: st')
  have "map (ckv (cs_data st @ bs)) (live st) = map (ckv (cs_data st)) (live st)"
    using r dl by (auto simp: ckv_def slice_def regions_ok_def)
  moreover have "ckv (cs_data st @ bs) ?e = (key_id key, (ty, bs))" using e dl by (simp add: ckv_def slice_def)
  moreover have "cs_data st' = cs_data st @ bs" by (simp add: st')
  ultimately have "cs_map st' = map_of (map (ckv (cs_data st)) (live st) @ [(key_id key, (ty, bs))])"
    unfolding cs_map_def lv by (simp only: map_append list.map)
  then show "cs_map st' = (cs_map st)(key_id key \<mapsto> (ty, bs))"
    using map_of_snoc [of "(key_id key, (ty, bs))" "map (ckv (cs_data st)) (live st)"] new
    by (simp add: cs_map_def del: map_of_append)
qed

text \<open>Setting a key: success is a map update; failure leaves the map, except that a value too long for its old region is gone.\<close>

lemma put_ok:
  assumes "cs_wf st" "length key < 65536" "config_put True key ty bs st = Some (r, st')"
  shows "cs_wf st' \<and> (if r = 0 then cs_map st' = (cs_map st)(key_id key \<mapsto> (ty, bs))
    else r = -1 \<and> (cs_map st' = cs_map st \<or> cs_map st' = (cs_map st)(key_id key := None)))"
  using assms
proof (induction True key ty bs st arbitrary: r st' rule: config_put.induct)
  case (1 key ty bs st)
  show ?case
  proof (cases "config_find_entry st key")
    case None
    then have a: "entry_append True key ty bs st = Some (r, st')" using 1(4) by (simp add: config_put.simps [of True])
    show ?thesis
    proof (cases "r = 0")
      case True
      then show ?thesis using append_ok [OF 1(2,3) None] a by simp
    next
      case False
      then have "r = -1 \<and> st' = st" using a by (auto simp: entry_append_def Let_def split: if_splits)
      then show ?thesis using 1(2) by simp
    qed
  next
    case (Some i)
    then have f: "i < length (live st)" "live st ! i = cs_entries st ! i" "ckey (live st ! i) = key_id key"
      using find_live(1) [OF 1(2,3)] by auto
    show ?thesis
    proof (cases "length bs \<le> esize (cs_entries st ! i)")
      case True
      then have "r = 0" "st' = entry_overwrite i ty bs st" using 1(4) Some by (auto simp: config_put.simps [of True])
      then show ?thesis using overwrite_ok [OF 1(2) f(1) True] f(3) by simp
    next
      case False
      let ?st = "snd (config_delete st key)"
      have "config_put True key ty bs ?st = Some (r, st')" using 1(4) Some False by (simp add: config_put.simps [of True key ty bs st])
      from 1(1) [OF Some False delete_wf [OF 1(2) Some] 1(3) this] show ?thesis
        by (auto simp: delete_map [OF 1(2) Some 1(3)] split: if_splits)
    qed
  qed
qed

end
