(* ===== verification/Config_Props.thy ===== *)
theory Config_Props
  imports Config_Map
begin

text \<open>
  The settings store as a map from keys to typed values, and its persistence: what \<open>config_store_flush\<close> writes
  to a file, \<open>config_store_init\<close> reads back.
\<close>

section \<open>Typed values\<close>

datatype config_value = CString "u8 list" | CInt u32 | CBool bool | CBlob "u8 list"

fun value_type :: "config_value \<Rightarrow> u16" where
  "value_type (CString _) = CONFIG_TYPE_STRING"
| "value_type (CInt _) = CONFIG_TYPE_INT"
| "value_type (CBool _) = CONFIG_TYPE_BOOL"
| "value_type (CBlob _) = CONFIG_TYPE_BLOB"

fun value_bytes :: "config_value \<Rightarrow> u8 list" where
  "value_bytes (CString s) = s @ [0]"
| "value_bytes (CInt n) = u32_bytes n"
| "value_bytes (CBool b) = [if b then 1 else 0]"
| "value_bytes (CBlob d) = d"

fun value_ok :: "config_value \<Rightarrow> bool" where
  "value_ok (CString s) \<longleftrightarrow> 0 \<notin> set s"
| "value_ok (CBlob d) \<longleftrightarrow> d \<noteq> []"
| "value_ok _ \<longleftrightarrow> True"

text \<open>The four setters; \<open>mem\<close> tells whether growing the data area succeeds.\<close>

fun config_set :: "bool \<Rightarrow> 'w config_store \<Rightarrow> u8 list \<Rightarrow> config_value \<Rightarrow> (int \<times> 'w config_store option) option" where
  "config_set mem st key (CString s) = config_set_string mem (Some st) (Some key) (Some s)"
| "config_set mem st key (CInt n) = config_set_int mem (Some st) (Some key) n"
| "config_set mem st key (CBool b) = config_set_bool mem (Some st) (Some key) b"
| "config_set mem st key (CBlob d) = config_set_blob mem (Some st) (Some key) (Some d)"

text \<open>
  The store holds the typed values \<open>M\<close>: it is well-formed, and the bytes
  of every entry are those of a valid value of the entry's type.
\<close>

definition config_holds :: "'w config_store \<Rightarrow> (u32 \<times> u16 \<Rightarrow> config_value option) \<Rightarrow> bool" where
  "config_holds st M \<longleftrightarrow> cs_wf st \<and> (\<forall>v\<in>ran M. value_ok v) \<and>
    cs_map st = (\<lambda>k. map_option (\<lambda>v. (value_type v, value_bytes v)) (M k))"

lemma config_set_put: "value_ok v \<Longrightarrow>
    config_set mem st key v = map_option (map_prod id Some) (config_put mem key (value_type v) (value_bytes v) st)"
  by (cases v) (auto simp: config_set_string_def config_set_int_def config_set_bool_def config_set_blob_def)

lemma entries_length:
  "length (cs_entries (snd (config_delete st key))) = length (cs_entries st)"
  "length (cs_entries (entry_overwrite i ty bs st)) = length (cs_entries st)"
  "entry_append mem key ty bs st = Some (r, st') \<Longrightarrow> length (cs_entries st') = length (cs_entries st)"
  by (auto simp: config_delete_def entry_overwrite_def entry_append_def Let_def split: option.splits if_splits)

lemma put_returns:
  assumes "length (cs_entries st) = 1024"
  shows "\<exists>r st'. config_put mem key ty bs st = Some (r, st') \<and> length (cs_entries st') = 1024"
  using assms
proof (induction mem key ty bs st rule: config_put.induct)
  case (1 mem key ty bs st)
  show ?case
  proof (cases "config_find_entry st key")
    case None
    have "entry_append mem key ty bs st \<noteq> None" using 1(2) by (simp add: entry_append_def Let_def)
    then obtain r st' where e: "entry_append mem key ty bs st = Some (r, st')" by auto
    show ?thesis using e None 1(2) entries_length(3) [OF e] by (simp add: config_put.simps [of mem key ty bs st])
  next
    case (Some i)
    then show ?thesis using 1 by (auto simp: config_put.simps [of mem key ty bs st] entries_length(1,2))
  qed
qed

lemma holds_set:
  assumes h: "config_holds st M" and k: "length key < 65536" and v: "value_ok v"
    and s: "config_set True st key v = Some (r, Some st')"
  shows "config_holds st' (if r = 0 then M(key_id key \<mapsto> v) else M) \<or> r = -1 \<and> config_holds st' (M(key_id key := None))"
proof -
  have p: "config_put True key (value_type v) (value_bytes v) st = Some (r, st')"
    using s config_set_put [OF v, of True st key] by auto
  have wf: "cs_wf st" using h by (simp add: config_holds_def)
  have m: "cs_map st = (\<lambda>k. map_option (\<lambda>v. (value_type v, value_bytes v)) (M k))" using h by (simp add: config_holds_def)
  have ran: "\<forall>v\<in>ran M. value_ok v" using h by (simp add: config_holds_def)
  have "\<forall>u\<in>ran (M(key_id key \<mapsto> v)). value_ok u" "\<forall>u\<in>ran (M(key_id key := None)). value_ok u"
    using ran v by (auto simp: ran_def split: if_splits)
  moreover have "(\<lambda>k. map_option f ((M(key_id key := u)) k)) = (\<lambda>k. map_option f (M k))(key_id key := map_option f u)"
    for f :: "config_value \<Rightarrow> u16 \<times> u8 list" and u by auto
  ultimately show ?thesis using put_ok [OF wf k p] ran unfolding config_holds_def m by (auto split: if_splits)
qed

text \<open>
  Without memory. Overwriting in place and the refusals are as before; when the data area has to grow, the call
  fails with the entry of the key already counted and the data area gone.
\<close>

lemma append_no_memory:
  assumes "length key < 65536" "entry_append False key ty bs st = Some (r, st')"
  shows "entry_append True key ty bs st = Some (r, st') \<or> r = -1 \<and> config_find_entry st' key \<noteq> None \<and> cs_data st' = []"
proof (cases "1024 \<le> cs_count st \<or> config_reserve_data st (length bs) \<noteq> 0")
  case True
  then show ?thesis using assms(2) unfolding entry_append_def by (elim disjE) (simp_all split: if_splits)
next
  case False
  let ?h = "(cs_header st)\<lparr>ch_count := ch_count (cs_header st) + 1\<rparr>"
  let ?st = "st\<lparr>cs_entries := (cs_entries st)[cs_count st := entry_new key ty (length bs) st], cs_header := ?h, cs_data := []\<rparr>"
  have l: "cs_count st < length (cs_entries st)" and st': "r = -1" "st' = ?st"
    using assms(2) False by (simp_all add: entry_append_def Let_def split: if_splits)
  have c: "unat (ch_count (cs_header st) + 1) = cs_count st + 1" using False by (simp add: unat_word_ariths)
  then have "entry_matches key (cs_entries ?st ! cs_count st)" "cs_count st < cs_count ?st"
    using l assms(1) by (simp_all add: entry_matches_def entry_new_def unat_of_nat)
  then have "config_find_entry ?st key \<noteq> None" by (auto simp: config_find_entry_def find_None_iff)
  then show ?thesis using st' by simp
qed

lemma put_no_memory:
  assumes "length key < 65536" "config_put False key ty bs st = Some (r, st')"
  shows "config_put True key ty bs st = Some (r, st') \<or> r = -1 \<and> config_find_entry st' key \<noteq> None \<and> cs_data st' = []"
  using assms
proof (induction False key ty bs st rule: config_put.induct)
  case (1 key ty bs st)
  show ?case
  proof (cases "config_find_entry st key")
    case None
    then show ?thesis
      using append_no_memory [of key ty bs st r st'] 1(2,3) by (simp add: config_put.simps [of _ key ty bs st])
  next
    case (Some i)
    then show ?thesis using 1 by (auto simp: config_put.simps [of _ key ty bs st])
  qed
qed

section \<open>Reading\<close>

lemma typed_map:
  assumes wf: "cs_wf st" and k: "length key < 65536"
  shows "case cs_map st (key_id key) of
      None \<Rightarrow> entry_typed (Some st) (Some key) ty = None \<and> config_find_entry st key = None
    | Some (t, bs) \<Rightarrow> config_find_entry st key \<noteq> None \<and>
        (if t = ty then \<exists>e. entry_typed (Some st) (Some key) ty = Some e \<and> slice (eoff e) (esize e) (cs_data st) = bs \<and>
           eoff e + esize e \<le> length (cs_data st)
         else entry_typed (Some st) (Some key) ty = None)"
proof (cases "config_find_entry st key")
  case None
  then have "key_id key \<notin> ckey ` set (live st)" by (rule find_live(2) [OF wf k])
  then have "cs_map st (key_id key) = None" by (simp add: cs_map_def map_of_eq_None_iff image_image)
  then show ?thesis using None by (simp add: entry_typed_def)
next
  case (Some i)
  then have f: "i < length (live st)" "live st ! i = cs_entries st ! i" "ckey (live st ! i) = key_id key"
    using find_live(1) [OF wf k] by auto
  let ?e = "cs_entries st ! i"
  have "distinct (map fst (map (ckv (cs_data st)) (live st)))" using wf by (simp add: cs_wf_def)
  moreover have "ckv (cs_data st) ?e \<in> set (map (ckv (cs_data st)) (live st))" using f by (metis image_eqI image_set nth_mem)
  ultimately have "cs_map st (key_id key) = Some (ce_type ?e, slice (eoff ?e) (esize ?e) (cs_data st))"
    unfolding cs_map_def using f by (intro map_of_is_SomeI) (auto simp: ckv_def)
  moreover have "eoff ?e + esize ?e \<le> length (cs_data st)" using wf f by (metis cs_wf_def nth_mem regions_ok_def)
  ultimately show ?thesis using Some by (simp add: entry_typed_def)
qed

lemma type_tags [simp]: "CONFIG_TYPE_STRING \<noteq> CONFIG_TYPE_INT" "CONFIG_TYPE_INT \<noteq> CONFIG_TYPE_STRING"
  "CONFIG_TYPE_STRING \<noteq> CONFIG_TYPE_BOOL" "CONFIG_TYPE_BOOL \<noteq> CONFIG_TYPE_STRING" "CONFIG_TYPE_STRING \<noteq> CONFIG_TYPE_BLOB"
  "CONFIG_TYPE_BLOB \<noteq> CONFIG_TYPE_STRING" "CONFIG_TYPE_INT \<noteq> CONFIG_TYPE_BOOL" "CONFIG_TYPE_BOOL \<noteq> CONFIG_TYPE_INT"
  "CONFIG_TYPE_INT \<noteq> CONFIG_TYPE_BLOB" "CONFIG_TYPE_BLOB \<noteq> CONFIG_TYPE_INT" "CONFIG_TYPE_BOOL \<noteq> CONFIG_TYPE_BLOB"
  "CONFIG_TYPE_BLOB \<noteq> CONFIG_TYPE_BOOL"
  by (simp_all add: CONFIG_TYPE_STRING_def CONFIG_TYPE_INT_def CONFIG_TYPE_BOOL_def CONFIG_TYPE_BLOB_def)

lemma takeWhile_stop: "0 \<notin> set s \<Longrightarrow> takeWhile (\<lambda>c. c \<noteq> (0 :: u8)) (s @ 0 # xs) = s"
  by (induction s) auto

lemma slice_eqD:
  assumes "slice a n d = bs" "a + n \<le> length d"
  shows "drop a d = bs @ drop (a + n) d" "n = length bs" "i < n \<Longrightarrow> d ! (a + i) = bs ! i"
proof -
  have "drop a d = take n (drop a d) @ drop n (drop a d)" by (rule append_take_drop_id [symmetric])
  then show "drop a d = bs @ drop (a + n) d" using assms(1) by (simp add: slice_def add.commute)
  show "n = length bs" using assms by (auto simp: slice_def)
  show "i < n \<Longrightarrow> d ! (a + i) = bs ! i" using assms by (auto simp: slice_def)
qed

text \<open>What the four getters return for the value of a key.\<close>

definition read_value :: "'w config_store \<Rightarrow> u8 list \<Rightarrow> config_value option \<Rightarrow> bool" where
  "read_value st key v \<longleftrightarrow>
    (\<forall>d. config_get_string (Some st) (Some key) d = (case v of Some (CString s) \<Rightarrow> s | _ \<Rightarrow> d)) \<and>
    (\<forall>d. config_get_int (Some st) (Some key) d = (case v of Some (CInt n) \<Rightarrow> n | _ \<Rightarrow> d)) \<and>
    (\<forall>d. config_get_bool (Some st) (Some key) d = (case v of Some (CBool b) \<Rightarrow> b | _ \<Rightarrow> d)) \<and>
    (\<forall>n. config_get_blob (Some st) (Some key) n = (case v of Some (CBlob bs) \<Rightarrow> if n = 0 then None else Some (take n bs) | _ \<Rightarrow> None)) \<and>
    config_exists (Some st) (Some key) = (v \<noteq> None)"

lemma read_holds:
  assumes h: "config_holds st M" and k: "length key < 65536"
  shows "read_value st key (M (key_id key))"
proof -
  have wf: "cs_wf st" and m: "cs_map st (key_id key) = map_option (\<lambda>v. (value_type v, value_bytes v)) (M (key_id key))"
    using h by (simp_all add: config_holds_def)
  note t = typed_map [OF wf k, unfolded m]
  show ?thesis
  proof (cases "M (key_id key)")
    case None
    then show ?thesis using t
      by (simp add: read_value_def config_get_string_def config_get_int_def config_get_bool_def config_get_blob_def config_exists_def)
  next
    case (Some v)
    have ok: "value_ok v" using h ranI [of M "key_id key" v] Some by (simp add: config_holds_def)
    have ex: "config_exists (Some st) (Some key)" using t Some by (simp add: config_exists_def)
    have other: "ty \<noteq> value_type v \<Longrightarrow> entry_typed (Some st) (Some key) ty = None" for ty using t [of ty] Some by auto
    obtain e where e: "entry_typed (Some st) (Some key) (value_type v) = Some e"
      "slice (eoff e) (esize e) (cs_data st) = value_bytes v" "eoff e + esize e \<le> length (cs_data st)"
      using t [of "value_type v"] Some by auto
    note sl = slice_eqD [OF e(2,3)]
    show ?thesis
    proof (cases v)
      case (CString s)
      then show ?thesis using Some e(1) sl(1) ok ex other
        by (simp add: read_value_def config_get_string_def config_get_int_def config_get_bool_def config_get_blob_def store_data_def takeWhile_stop)
    next
      case (CInt n)
      have "esize e = 4" using sl(2) CInt by (simp add: u32_bytes_def)
      then have "u32_at (cs_data st) (eoff e) = n"
        using sl(3) [of 0] sl(3) [of 1] sl(3) [of 2] sl(3) [of 3] CInt by (intro u32_at_bytes) (simp_all add: u32_bytes_def numeral_2_eq_2 numeral_3_eq_3)
      then show ?thesis using CInt Some e(1) ok ex other
        by (simp add: read_value_def config_get_string_def config_get_int_def config_get_bool_def config_get_blob_def store_data_def)
    next
      case (CBool b)
      have "cs_data st ! eoff e = (if b then 1 else 0)" using sl(2) sl(3) [of 0] CBool by simp
      then show ?thesis using CBool Some e(1) ok ex other
        by (simp add: read_value_def config_get_string_def config_get_int_def config_get_bool_def config_get_blob_def store_data_def)
    next
      case (CBlob d)
      have "slice (eoff e) (min (esize e) n) (cs_data st) = take n d" for n
        using e(2) sl(2) CBlob by (simp add: slice_def) (metis take_take min.commute)
      then show ?thesis using CBlob Some e(1) ok ex other
        by (simp add: read_value_def config_get_string_def config_get_int_def config_get_bool_def config_get_blob_def store_data_def)
    qed
  qed
qed

section \<open>Setting and deleting\<close>

lemma put_fails:
  assumes "config_put True key ty bs st = Some (r, st')" "r \<noteq> 0" "cs_wf st"
  shows "r = -1 \<and> (cs_count st \<ge> 1024 \<or> cs_data_size st + length bs > 65536)"
  using assms
proof (induction True key ty bs st arbitrary: r st' rule: config_put.induct)
  case (1 key ty bs st)
  show ?case
  proof (cases "config_find_entry st key")
    case None
    then show ?thesis using 1(2,3) unfolding config_put.simps [of True key ty bs st]
      by (auto simp: entry_append_def config_reserve_data_def Let_def split: if_splits)
  next
    case (Some i)
    then have n: "\<not> length bs \<le> esize (cs_entries st ! i)" and p: "config_put True key ty bs (snd (config_delete st key)) = Some (r, st')"
      using 1(2,3) unfolding config_put.simps [of True key ty bs st] by (auto split: if_splits)
    have "cs_data_size (snd (config_delete st key)) = cs_data_size st" using Some by (simp add: config_delete_def)
    moreover have "cs_count (snd (config_delete st key)) < 1024"
      using config_delete_count [OF Some] config_find_less [OF Some] 1(4) by (auto simp: cs_wf_def)
    ultimately show ?thesis using 1(1) [OF Some n p 1(3) delete_wf [OF 1(4) Some]] by simp
  qed
qed

lemma holds_delete:
  assumes h: "config_holds st M" and k: "length key < 65536"
  shows "config_holds (snd (config_delete st key)) (M(key_id key := None)) \<and>
    fst (config_delete st key) = (if M (key_id key) = None then -1 else 0)"
proof (cases "config_find_entry st key")
  case None
  have wf: "cs_wf st" and m: "cs_map st (key_id key) = map_option (\<lambda>v. (value_type v, value_bytes v)) (M (key_id key))"
    using h by (simp_all add: config_holds_def)
  have "M (key_id key) = None" using typed_map [OF wf k, unfolded m, of 0] None by (cases "M (key_id key)") auto
  then show ?thesis using None h by (auto simp: config_delete_def fun_upd_idem)
next
  case (Some i)
  have wf: "cs_wf st" and m: "cs_map st = (\<lambda>k. map_option (\<lambda>v. (value_type v, value_bytes v)) (M k))"
    and ran: "\<forall>v\<in>ran M. value_ok v" using h by (simp_all add: config_holds_def)
  have "M (key_id key) \<noteq> None" using typed_map [OF wf k, of 0] Some m by (cases "M (key_id key)") auto
  moreover have "(\<lambda>k. map_option f ((M(key_id key := None)) k)) = (\<lambda>k. map_option f (M k))(key_id key := None)"
    for f :: "config_value \<Rightarrow> u16 \<times> u8 list" by auto
  moreover have "\<forall>u\<in>ran (M(key_id key := None)). value_ok u" using ran by (auto simp: ran_def split: if_splits)
  ultimately show ?thesis
    using delete_wf [OF wf Some] delete_map [OF wf Some k] Some m by (simp add: config_holds_def) (simp add: config_delete_def)
qed

section \<open>Persistence\<close>

lemma length_config_bytes [simp]: "length (header_bytes h) = 20" "length (entry_bytes e) = 16"
  by (simp_all add: header_bytes_def entry_bytes_def)

lemma header_of_bytes [simp]: "header_of (header_bytes h) = h"
  by (simp add: header_of_def header_bytes_def u32_at_def u16_at_def u32_bytes_def u16_bytes_def le16_split
      le32_split [unfolded One_nat_def])

lemma entry_of_bytes: "entry_of (entry_bytes e @ xs) = e"
  by (simp add: entry_of_def entry_bytes_def u32_at_def u16_at_def u32_bytes_def u16_bytes_def le16_split
      le32_split [unfolded One_nat_def])

lemma length_concat_entries [simp]: "length (concat (map entry_bytes es)) = 16 * length es"
  by (induction es) auto

lemma drop_concat_entries: "i \<le> length es \<Longrightarrow> drop (16 * i) (concat (map entry_bytes es)) = concat (map entry_bytes (drop i es))"
proof (induction i)
  case (Suc i)
  have "drop (16 * Suc i) (concat (map entry_bytes es)) = drop 16 (drop (16 * i) (concat (map entry_bytes es)))" by (simp add: add.commute)
  also have "\<dots> = drop 16 (concat (map entry_bytes (es ! i # drop (Suc i) es)))" using Suc by (simp add: Cons_nth_drop_Suc)
  finally show ?case by simp
qed simp

lemma entries_of_bytes: "n = length es \<Longrightarrow> entries_of n (concat (map entry_bytes es)) = es"
proof (rule nth_equalityI)
  fix i
  assume n: "n = length es" and "i < length (entries_of n (concat (map entry_bytes es)))"
  then have i: "i < length es" by (simp add: entries_of_def)
  have "drop (16 * i) (concat (map entry_bytes es)) = entry_bytes (es ! i) @ concat (map entry_bytes (drop (Suc i) es))"
    using i drop_concat_entries [of i es] by (simp add: Cons_nth_drop_Suc [symmetric])
  then show "entries_of n (concat (map entry_bytes es)) ! i = es ! i" using i n by (simp add: entries_of_def entry_of_bytes)
qed (simp add: entries_of_def)

text \<open>A file in which a store is saved.\<close>

definition saved :: "u8 list \<Rightarrow> config_header \<Rightarrow> config_entry list \<Rightarrow> u8 list \<Rightarrow> bool" where
  "saved f h es d \<longleftrightarrow> slice 0 20 f = header_bytes h \<and> slice 20 (16 * length es) f = concat (map entry_bytes es) \<and>
    slice (unat (ch_data_offset h)) (length d) f = d \<and> unat (ch_data_offset h) + length d \<le> length f \<and> 20 + 16 * length es \<le> length f"

context byte_file
begin

lemma write_at_ok:
  assumes "ready w" "n + length bs \<le> length (content w)" "n < 2 ^ 32"
  obtains w' where "file_write_at (Some fl) n bs w = (True, w')" "ready w'" "content w' = blit (content w) n bs"
  by (rule write_seek [OF assms]) (use that in \<open>simp add: file_write_at_def\<close>)

text \<open>An optional write, as of the entries and the data.\<close>

lemma write_at_if:
  assumes "ready w" "n + length bs \<le> length (content w)" "n < 2 ^ 32" "\<not> c \<Longrightarrow> bs = []"
  obtains w' where "(if c then file_write_at (Some fl) n bs w else (True, w)) = (True, w')" "ready w'" "content w' = blit (content w) n bs"
proof (cases c)
  case True
  show thesis by (rule write_at_ok [OF assms(1-3)]) (use that True in simp)
next
  case False
  then show thesis using that [of w] assms(1,4) by (simp add: blit_def)
qed

lemma flush_saves:
  assumes wf: "cs_wf st" and f: "cs_file st = Some fl" "cs_dirty st" and w: "ready w"
    and off: "unat (ch_data_offset (cs_header st)) = 16404" and big: "81940 \<le> length (content w)"
  obtains w' where "config_store_flush st w = (0, st\<lparr>cs_dirty := False\<rparr>, w')" "ready w'"
    "saved (content w') (cs_header st) (live st) (cs_data st)" "length (content w') = length (content w)"
proof -
  have dl: "length (cs_data st) = cs_data_size st" "cs_data_size st \<le> 65536" "length (live st) = cs_count st" "cs_count st \<le> 1024"
    using wf length_live [OF wf] by (auto simp: cs_wf_def)
  let ?h = "header_bytes (cs_header st)" and ?e = "concat (map entry_bytes (live st))"
  obtain w1 where 1: "file_write_at (Some fl) 0 ?h w = (True, w1)" "ready w1" "content w1 = blit (content w) 0 ?h"
    by (rule write_at_ok [OF w, of 0 ?h]) (use big in auto)
  have l1: "length (content w1) = length (content w)" using 1(3) big by simp
  obtain w2 where 2: "(if cs_count st > 0 then file_write_at (Some fl) 20 ?e w1 else (True, w1)) = (True, w2)" "ready w2"
    "content w2 = blit (content w1) 20 ?e"
    by (rule write_at_if [OF 1(2), of 20 ?e "cs_count st > 0"]) (use big l1 dl in auto)
  have l2: "length (content w2) = length (content w)" using 2(3) l1 big dl by simp
  obtain w3 where 3: "(if cs_data_size st > 0 then file_write_at (Some fl) 16404 (cs_data st) w2 else (True, w2)) = (True, w3)" "ready w3"
    "content w3 = blit (content w2) 16404 (cs_data st)"
    by (rule write_at_if [OF 2(2), of 16404 "cs_data st" "cs_data_size st > 0"]) (use big l2 dl in auto)
  have l3: "length (content w3) = length (content w)" using 3(3) l2 big dl by simp
  obtain w4 where 4: "vfs_sync (Some fl) w3 = (0, w4)" "ready w4" "content w4 = content w3" using sync_ok [OF 3(2)] by blast
  have live: "take (cs_count st) (cs_entries st) = live st" "take (cs_data_size st) (cs_data st) = cs_data st"
    using dl by (simp_all add: live_def)
  have eq: "config_store_flush st w = (0, st\<lparr>cs_dirty := False\<rparr>, w4)"
    unfolding config_store_flush_def config_write_header_def f(1) live off 1(1) prod.case 2(1) 3(1) 4(1) using f(2) by simp
  have "slice 0 20 (content w3) = slice 0 20 (content w2)"
    unfolding 3(3) by (rule slice_blit_other) (use l2 big dl in auto)
  also have "\<dots> = slice 0 20 (content w1)" unfolding 2(3) by (rule slice_blit_other) (use l1 big dl in auto)
  also have "\<dots> = ?h" unfolding 1(3) by (rule slice_blit) auto
  finally have "slice 0 20 (content w3) = ?h" .
  moreover have "slice 20 (16 * length (live st)) (content w3) = slice 20 (16 * length (live st)) (content w2)"
    unfolding 3(3) by (rule slice_blit_other) (use l2 big dl in auto)
  moreover have "slice 20 (16 * length (live st)) (content w2) = ?e"
    unfolding 2(3) by (rule slice_blit) (use l1 big in auto)
  moreover have "slice 16404 (length (cs_data st)) (content w3) = cs_data st" unfolding 3(3) using l2 big by (simp add: slice_blit)
  ultimately have "saved (content w4) (cs_header st) (live st) (cs_data st)"
    using l3 big dl 4(3) off by (simp add: saved_def)
  then show thesis using that [OF eq 4(2)] l3 4(3) by simp
qed

lemma init_loads:
  assumes w: "ready w" and sv: "saved (content w) h es d" and h: "ch_magic h = CONFIG_MAGIC" "unat (ch_count h) = length es"
    "unat (ch_data_size h) = length d" and st: "cs_file st = Some fl" "cs_data st = []" "cs_entries st = []"
  obtains w' where "config_store_init True st w = (0, st\<lparr>cs_header := h, cs_entries := es, cs_data := d\<rparr>, w')" "ready w'"
proof -
  have sl: "slice 0 20 (content w) = header_bytes h" "slice 20 (16 * length es) (content w) = concat (map entry_bytes es)"
    "slice (unat (ch_data_offset h)) (length d) (content w) = d" "unat (ch_data_offset h) + length d \<le> length (content w)"
    "20 + 16 * length es \<le> length (content w)" using sv by (auto simp: saved_def)
  obtain w1 where 1: "vfs_read (Some fl) 20 (snd (vfs_seek (Some fl) 0 VFS_SEEK_SET w)) = (20, header_bytes h, w1)" "ready w1" "content w1 = content w"
    by (rule read_seek [OF w, of 0 20]) (use sl(1,5) that in auto)
  define s1 where "s1 = st\<lparr>cs_header := h\<rparr>"
  have hd: "header_of (blit (header_bytes (cs_header st)) 0 (header_bytes h)) = h" by (simp add: blit_def)
  obtain w2 where 2: "init_entries True s1 w1 = (0, s1\<lparr>cs_entries := es\<rparr>, w2)" "ready w2" "content w2 = content w"
  proof (cases "es = []")
    case True
    then have "init_entries True s1 w1 = (0, s1\<lparr>cs_entries := es\<rparr>, w1)" using h st by (simp add: init_entries_def s1_def)
    then show thesis using that 1 by blast
  next
    case False
    obtain w2 where "vfs_read (Some fl) (length es * 16) (snd (vfs_seek (Some fl) 20 VFS_SEEK_SET w1)) = (int (length es * 16), concat (map entry_bytes es), w2)"
      "ready w2" "content w2 = content w"
      by (rule read_seek [OF 1(2), of 20 "length es * 16"]) (use sl(2,5) 1(3) that in \<open>auto simp: mult.commute\<close>)
    then have "init_entries True s1 w1 = (0, s1\<lparr>cs_entries := es\<rparr>, w2)" "ready w2" "content w2 = content w"
      using h st False by (simp_all add: init_entries_def s1_def entries_of_bytes)
    then show thesis using that by blast
  qed
  obtain w3 where 3: "init_data True (s1\<lparr>cs_entries := es\<rparr>) w2 = (0, s1\<lparr>cs_entries := es, cs_data := d\<rparr>, w3)" "ready w3"
  proof (cases "d = []")
    case True
    then have "init_data True (s1\<lparr>cs_entries := es\<rparr>) w2 = (0, s1\<lparr>cs_entries := es, cs_data := d\<rparr>, w2)" using h st by (simp add: init_data_def s1_def)
    then show thesis using that 2 by blast
  next
    case False
    obtain w3 where "vfs_read (Some fl) (length d) (snd (vfs_seek (Some fl) (int (unat (ch_data_offset h))) VFS_SEEK_SET w2)) = (int (length d), d, w3)"
      "ready w3"
      by (rule read_seek [OF 2(2), of "unat (ch_data_offset h)" "length d"]) (use sl(3,4) 2(3) u32_bound that in auto)
    then have "init_data True (s1\<lparr>cs_entries := es\<rparr>) w2 = (0, s1\<lparr>cs_entries := es, cs_data := d\<rparr>, w3)"
      using h st False by (simp add: init_data_def s1_def)
    then show thesis using that \<open>ready w3\<close> by blast
  qed
  have "config_store_init True st w = (0, s1\<lparr>cs_entries := es, cs_data := d\<rparr>, w3)"
    using st(1) 1(1) h(1) 2(1) 3(1) by (simp add: config_store_init_def Let_def hd s1_def [symmetric])
  then show thesis using that 3(2) by (simp add: s1_def)
qed

end

section \<open>Properties\<close>

definition store_opened :: "'w vfs_file \<Rightarrow> 'w config_store" where
  "store_opened f = \<lparr>cs_file = Some f, cs_header = config_header_zero, cs_entries = [], cs_data = [], cs_dirty = False\<rparr>"

lemma put_frame:
  assumes "config_put True key ty bs st = Some (r, st')"
  shows "cs_file st' = cs_file st \<and> ch_magic (cs_header st') = ch_magic (cs_header st) \<and>
    ch_data_offset (cs_header st') = ch_data_offset (cs_header st) \<and> (r = 0 \<longrightarrow> cs_dirty st')"
  using assms
proof (induction True key ty bs st arbitrary: r st' rule: config_put.induct)
  case (1 key ty bs st)
  show ?case
  proof (cases "config_find_entry st key")
    case None
    then show ?thesis using 1(2) unfolding config_put.simps [of True key ty bs st]
      by (auto simp: entry_append_def Let_def split: if_splits)
  next
    case (Some i)
    show ?thesis
    proof (cases "length bs \<le> esize (cs_entries st ! i)")
      case True
      then show ?thesis using 1(2) Some unfolding config_put.simps [of True key ty bs st]
        by (auto simp: entry_overwrite_def Let_def)
    next
      case False
      then have "config_put True key ty bs (snd (config_delete st key)) = Some (r, st')"
        using 1(2) Some unfolding config_put.simps [of True key ty bs st] by simp
      from 1(1) [OF Some False this] show ?thesis using Some by (simp add: config_delete_def)
    qed
  qed
qed

lemma new_store_holds:
  assumes "init_new True h st = (r, st')" "cs_data st = []"
  shows "r = 0 \<and> config_holds st' Map.empty \<and> length (cs_entries st') = 1024 \<and> cs_file st' = cs_file st \<and>
    ch_magic (cs_header st') = CONFIG_MAGIC \<and> unat (ch_data_offset (cs_header st')) = 16404 \<and> cs_count st' = 0 \<and> cs_data_size st' = 0"
  using assms by (auto simp: init_new_def Let_def config_holds_def cs_wf_def live_def regions_ok_def cs_map_def)

text \<open>
  C6: The store implements a map from keys to values, in which keys are told apart by their hash and length. On a store that holds
  the values \<open>M\<close> and whose entry table has its full 1024 places (a store made new, not one loaded from a file), setting
  a key to a value returns. On success the store holds \<open>M\<close> updated at that key, and every getter reads the new value
  for it and the old value for every key with another hash or length. If memory is available it fails only when
  the entry table or the data area is full; then all other keys keep their values and the key keeps its value or
  loses it. If memory is not available it can also fail with the entry of the key present and all data gone.
\<close>

theorem config_set_refines:
  assumes "config_holds st M" "length (cs_entries st) = 1024" "length key < 65536" "value_ok v"
  shows "\<exists>r st'. config_set mem st key v = Some (r, Some st') \<and> length (cs_entries st') = 1024 \<and>
    ((\<exists>M'. config_holds st' M' \<and>
      (r = 0 \<and> M' = M(key_id key \<mapsto> v) \<or>
       r = -1 \<and> (M' = M \<or> M' = M(key_id key := None)) \<and> (cs_count st \<ge> 1024 \<or> cs_data_size st + length (value_bytes v) > 65536)) \<and>
      (\<forall>key2. length key2 < 65536 \<longrightarrow> read_value st' key2 (M' (key_id key2)))) \<or>
     mem = False \<and> r = -1 \<and> config_exists (Some st') (Some key) \<and> cs_data st' = [])"
proof -
  obtain r st' where p: "config_put mem key (value_type v) (value_bytes v) st = Some (r, st')" "length (cs_entries st') = 1024"
    using put_returns [OF assms(2)] by blast
  have s: "config_set mem st key v = Some (r, Some st')" using p(1) by (simp add: config_set_put [OF assms(4)])
  have wf: "cs_wf st" using assms(1) by (simp add: config_holds_def)
  show ?thesis
  proof (cases "config_put True key (value_type v) (value_bytes v) st = Some (r, st')")
    case True
    then have "config_set True st key v = Some (r, Some st')" by (simp add: config_set_put [OF assms(4)])
    from holds_set [OF assms(1,3,4) this] obtain M' where M': "config_holds st' M'"
      "if r = 0 then M' = M(key_id key \<mapsto> v) else r = -1 \<and> (M' = M \<or> M' = M(key_id key := None))"
      using put_fails [OF True _ wf] by (cases "r = 0") auto
    have "\<forall>key2. length key2 < 65536 \<longrightarrow> read_value st' key2 (M' (key_id key2))" using read_holds [OF M'(1)] by blast
    then have "\<exists>M'. config_holds st' M' \<and>
      (r = 0 \<and> M' = M(key_id key \<mapsto> v) \<or>
       r = -1 \<and> (M' = M \<or> M' = M(key_id key := None)) \<and> (cs_count st \<ge> 1024 \<or> cs_data_size st + length (value_bytes v) > 65536)) \<and>
      (\<forall>key2. length key2 < 65536 \<longrightarrow> read_value st' key2 (M' (key_id key2)))"
      using M' put_fails [OF True _ wf] by (intro exI [of _ M']) (cases "r = 0"; simp)
    then show ?thesis using s p(2) by blast
  next
    case False
    then show ?thesis using s p put_no_memory [OF assms(3), of "value_type v" "value_bytes v" st r st']
      by (cases mem) (auto simp: config_exists_def)
  qed
qed

theorem config_set_refines_witness:
  "case init_new True config_header_zero (store_opened (fat_file 0)) of
     (_, st) \<Rightarrow> \<exists>st'. config_set True st [0x61] (CInt 7) = Some (0, Some st') \<and> config_get_int (Some st') (Some [0x61]) 0 = 7"
proof -
  obtain r st where n: "init_new True config_header_zero (store_opened (fat_file 0)) = (r, st)" by fastforce
  note ns = new_store_holds [OF n]
  obtain r' st' M' where "config_set True st [0x61] (CInt 7) = Some (r', Some st')" "r' = 0 \<and> M' = Map.empty(key_id [0x61] \<mapsto> CInt 7)"
    "\<forall>key2. length key2 < 65536 \<longrightarrow> read_value st' key2 (M' (key_id key2))"
    using config_set_refines [of st Map.empty "[0x61]" "CInt 7" True] ns by (auto simp: store_opened_def)
  then show ?thesis using n by (auto simp: read_value_def)
qed

text \<open>
  C11: Saving a changed store to a file of the raw-storage file system, on a device of at least 81940 bytes, and loading the
  file into a newly opened store, with memory available, gives a store that holds the same values.
\<close>

theorem config_reload:
  assumes h: "config_holds st M" and st: "cs_file st = Some (fat_file fh)" "cs_dirty st"
    "ch_magic (cs_header st) = CONFIG_MAGIC" "unat (ch_data_offset (cs_header st)) = 16404"
    and w: "fat_ready fh w" "81940 \<le> length (fat_content w)"
  shows "\<exists>w1 st' w2. config_store_flush st w = (0, st\<lparr>cs_dirty := False\<rparr>, w1) \<and>
    config_store_init True (store_opened (fat_file fh)) w1 = (0, st', w2) \<and> config_holds st' M \<and>
    (\<forall>key. length key < 65536 \<longrightarrow> read_value st' key (M (key_id key)))"
proof -
  have wf: "cs_wf st" using h by (simp add: config_holds_def)
  obtain w1 where f: "config_store_flush st w = (0, st\<lparr>cs_dirty := False\<rparr>, w1)" "fat_ready fh w1"
    "saved (fat_content w1) (cs_header st) (live st) (cs_data st)" by (rule fat.flush_saves [OF wf st(1,2) w(1) st(4) w(2)])
  obtain w2 where i: "config_store_init True (store_opened (fat_file fh)) w1 =
      (0, (store_opened (fat_file fh))\<lparr>cs_header := cs_header st, cs_entries := live st, cs_data := cs_data st\<rparr>, w2)"
  proof (rule fat.init_loads [OF f(2,3) st(3), of "store_opened (fat_file fh)"])
    show "cs_count st = length (live st)" "cs_data_size st = length (cs_data st)" using wf length_live [OF wf] by (simp_all add: cs_wf_def)
  qed (simp_all add: store_opened_def that)
  let ?st = "(store_opened (fat_file fh))\<lparr>cs_header := cs_header st, cs_entries := live st, cs_data := cs_data st\<rparr>"
  have "live ?st = live st" using length_live [OF wf] by (simp add: live_def)
  then have h': "config_holds ?st M" using h length_live [OF wf] by (simp add: config_holds_def cs_wf_def cs_map_def)
  then show ?thesis using f(1) i read_holds [OF h'] by blast
qed

text \<open>
  C39: A store loaded from a file has an entry array of exactly the stored length: setting a new key while the
  table is not full writes past the array.
\<close>

theorem config_reload_overruns:
  assumes w: "fat_ready fh w" and sv: "saved (fat_content w) h es d"
    and h: "ch_magic h = CONFIG_MAGIC" "unat (ch_count h) = length es" "unat (ch_data_size h) = length d"
    and n: "length es < 1024" "length d + length (value_bytes v) \<le> 65536" "value_ok v"
    and new: "\<not> list_ex (entry_matches key) es"
  shows "\<exists>st w'. config_store_init True (store_opened (fat_file fh)) w = (0, st, w') \<and> config_set True st key v = None"
proof -
  obtain w' where i: "config_store_init True (store_opened (fat_file fh)) w =
      (0, (store_opened (fat_file fh))\<lparr>cs_header := h, cs_entries := es, cs_data := d\<rparr>, w')"
    by (rule fat.init_loads [OF w sv h, of "store_opened (fat_file fh)"]) (simp_all add: store_opened_def that)
  let ?st = "(store_opened (fat_file fh))\<lparr>cs_header := h, cs_entries := es, cs_data := d\<rparr>"
  have "config_find_entry ?st key = None"
    using new h(2) by (auto simp: config_find_entry_def find_upt_None list_ex_iff)
  then have "config_put True key (value_type v) (value_bytes v) ?st = None"
    using n h by (subst config_put.simps) (simp add: entry_append_def config_reserve_data_def)
  then show ?thesis using i n(3) by (auto simp: config_set_put)
qed

text \<open>A device that is mounted, for the witnesses.\<close>

definition demo_world :: fat_world where
  "demo_world = \<lparr>fw_ctx = Some \<lparr>fc_storage = hal_storage_init (Some (hal_storage_open ''flash'' HAL_STORAGE_TYPE_FLASH)), fc_pdrv = 0,
     fc_mounted = True\<rparr>, fw_files = [0 \<mapsto> \<lparr>ff_offset = 0, ff_size = 0, ff_path = ''settings''\<rparr>], fw_dirs = Map.empty, fw_next = 1,
     fw_mem = True\<rparr>"

lemma demo_world_ready: "fat_ready 0 demo_world" "length (fat_content demo_world) = SIM_STORAGE_SIZE" "81940 \<le> SIM_STORAGE_SIZE"
proof -
  obtain s where s: "hal_storage_init (Some (hal_storage_open ''flash'' HAL_STORAGE_TYPE_FLASH)) = Some s"
    by (simp add: hal_storage_init_def)
  note o = storage_ok_open [OF s]
  have "SIM_STORAGE_SIZE < 2 ^ 32" by (simp add: SIM_STORAGE_SIZE_def)
  then show "fat_ready 0 demo_world" "length (fat_content demo_world) = SIM_STORAGE_SIZE"
    using s o by (simp_all add: demo_world_def fat_ready_def fat_content_def ctx_storage_def)
  show "81940 \<le> SIM_STORAGE_SIZE" by (simp add: SIM_STORAGE_SIZE_def)
qed

lemma demo_store:
  obtains st where "config_holds st [key_id [0x61] \<mapsto> CInt 7]" "cs_file st = Some (fat_file 0)" "cs_dirty st"
    "ch_magic (cs_header st) = CONFIG_MAGIC" "unat (ch_data_offset (cs_header st)) = 16404"
    "config_set True (snd (init_new True config_header_zero (store_opened (fat_file 0)))) [0x61] (CInt 7) = Some (0, Some st)"
proof -
  obtain r st0 where n: "init_new True config_header_zero (store_opened (fat_file 0)) = (r, st0)" by fastforce
  have ns: "config_holds st0 Map.empty" "length (cs_entries st0) = 1024" "cs_file st0 = Some (fat_file 0)"
    "ch_magic (cs_header st0) = CONFIG_MAGIC" "unat (ch_data_offset (cs_header st0)) = 16404" "cs_count st0 = 0" "cs_data_size st0 = 0"
    using new_store_holds [OF n] by (simp_all add: store_opened_def)
  obtain r' st where p: "config_put True [0x61] (value_type (CInt 7)) (value_bytes (CInt 7)) st0 = Some (r', st)"
    using put_returns [OF ns(2)] by blast
  have wf: "cs_wf st0" using ns(1) by (simp add: config_holds_def)
  have "r' = 0" using put_fails [OF p _ wf] ns(6,7) by auto
  then have s: "config_set True st0 [0x61] (CInt 7) = Some (0, Some st)" using config_set_put [of "CInt 7" True st0 "[0x61]"] p by simp
  have "config_holds st [key_id [0x61] \<mapsto> CInt 7]" using holds_set [OF ns(1) _ _ s] by simp
  then show thesis using that put_frame [OF p] ns s n \<open>r' = 0\<close> by simp
qed

theorem config_reload_witness:
  "\<exists>st w1 st' w2. config_store_flush st demo_world = (0, st\<lparr>cs_dirty := False\<rparr>, w1) \<and>
    config_store_init True (store_opened (fat_file 0)) w1 = (0, st', w2) \<and> config_get_int (Some st') (Some [0x61]) 0 = 7"
proof -
  obtain st where st: "config_holds st [key_id [0x61] \<mapsto> CInt 7]" "cs_file st = Some (fat_file 0)" "cs_dirty st"
    "ch_magic (cs_header st) = CONFIG_MAGIC" "unat (ch_data_offset (cs_header st)) = 16404" by (rule demo_store)
  obtain w1 st' w2 where f: "config_store_flush st demo_world = (0, st\<lparr>cs_dirty := False\<rparr>, w1)"
    "config_store_init True (store_opened (fat_file 0)) w1 = (0, st', w2)"
    and r: "\<forall>key. length key < 65536 \<longrightarrow> read_value st' key ([key_id [0x61] \<mapsto> CInt 7] (key_id key))"
    using config_reload [OF st demo_world_ready(1)] demo_world_ready(2,3) by auto
  have "read_value st' [0x61] (Some (CInt 7))" using r [rule_format, of "[0x61]"] by simp
  then have "config_get_int (Some st') (Some [0x61]) 0 = 7" by (simp add: read_value_def)
  then show ?thesis using f by blast
qed

theorem config_reload_overruns_witness:
  "\<exists>st w1 st' w2. config_store_flush st demo_world = (0, st\<lparr>cs_dirty := False\<rparr>, w1) \<and>
    config_store_init True (store_opened (fat_file 0)) w1 = (0, st', w2) \<and> config_set True st' [0x62, 0x63] (CBool True) = None"
proof -
  obtain st where st: "config_holds st [key_id [0x61] \<mapsto> CInt 7]" "cs_file st = Some (fat_file 0)" "cs_dirty st"
    "ch_magic (cs_header st) = CONFIG_MAGIC" "unat (ch_data_offset (cs_header st)) = 16404"
    "config_set True (snd (init_new True config_header_zero (store_opened (fat_file 0)))) [0x61] (CInt 7) = Some (0, Some st)"
    by (rule demo_store)
  have wf: "cs_wf st" using st(1) by (simp add: config_holds_def)
  have big: "81940 \<le> length (fat_content demo_world)" using demo_world_ready(2,3) by simp
  obtain w1 where f: "config_store_flush st demo_world = (0, st\<lparr>cs_dirty := False\<rparr>, w1)" "fat_ready 0 w1"
    "saved (fat_content w1) (cs_header st) (live st) (cs_data st)"
    by (rule fat.flush_saves [OF wf st(2,3) demo_world_ready(1) st(5) big])
  have e: "live st = [entry_new [0x61] CONFIG_TYPE_INT 4 (snd (init_new True config_header_zero (store_opened (fat_file 0))))]"
    "length (cs_data st) = 4"
    using st(6) by (auto simp: config_set_int_def config_put.simps config_find_entry_def init_new_def Let_def entry_append_def
        config_reserve_data_def store_opened_def live_def take_Suc_conv_app_nth)
  have "\<not> list_ex (entry_matches [0x62, 0x63]) (live st)" by (simp add: e entry_matches_def entry_new_def)
  from config_reload_overruns [OF f(2,3) st(4) _ _ _ _ _ this, of "CBool True"] show ?thesis
    using f(1) e length_live [OF wf] wf by (auto simp: cs_wf_def)
qed

text \<open>Keys are told apart by hash and length only: different keys may share an entry.\<close>

lemma key_collision: "key_id [0x45, 0x7A] = key_id [0x46, 0x59]" "[0x45, 0x7A] \<noteq> [0x46, 0x59 :: u8]"
  by (simp_all add: key_id_def hash_key_def)

text \<open>
  Running out of memory. When the key has no entry and there is room in the table and the data area, but the data area cannot
  grow, the call reports failure and yet leaves an entry for the key, in a store whose data are gone.
\<close>

theorem config_set_no_memory:
  assumes "config_holds st M" "length (cs_entries st) = 1024" "length key < 65536" "value_ok v"
    and "M (key_id key) = None" "cs_count st < 1024" "cs_data_size st + length (value_bytes v) \<le> 65536"
  shows "\<exists>st'. config_set False st key v = Some (-1, Some st') \<and> cs_count st' = cs_count st + 1 \<and>
    config_exists (Some st') (Some key) \<and> cs_data st' = []"
proof -
  have "\<not> config_exists (Some st) (Some key)" using read_holds [OF assms(1,3)] assms(5) by (simp add: read_value_def)
  then have f: "config_find_entry st key = None" by (simp add: config_exists_def)
  have c: "unat (ch_count (cs_header st) + 1) = cs_count st + 1" using assms(6) by (simp add: unat_word_ariths)
  obtain st' where e: "entry_append False key (value_type v) (value_bytes v) st = Some (-1, st')" "cs_count st' = cs_count st + 1"
    "entry_append True key (value_type v) (value_bytes v) st \<noteq> Some (-1, st')"
    using assms(2,6,7) c by (auto simp: entry_append_def config_reserve_data_def Let_def)
  then show ?thesis
    using append_no_memory [OF assms(3) e(1)] f
    by (simp add: config_set_put [OF assms(4)] config_put.simps [of False key] config_exists_def)
qed

theorem config_set_no_memory_witness:
  "case init_new True config_header_zero (store_opened (fat_file 0)) of
     (_, st) \<Rightarrow> \<exists>st'. config_set False st [0x61] (CInt 7) = Some (-1, Some st') \<and> cs_count st' = 1 \<and>
       config_exists (Some st') (Some [0x61]) \<and> cs_data st' = []"
proof -
  obtain r st where n: "init_new True config_header_zero (store_opened (fat_file 0)) = (r, st)" by fastforce
  note ns = new_store_holds [OF n]
  show ?thesis
    using config_set_no_memory [of st Map.empty "[0x61]" "CInt 7"] ns n by (auto simp: store_opened_def u32_bytes_def)
qed

section \<open>Sequences of changes\<close>

datatype config_op = CSet "u8 list" config_value | CDelete "u8 list"

fun config_step :: "config_op \<Rightarrow> 'w config_store \<Rightarrow> 'w config_store option" where
  "config_step (CSet key v) st = (case config_set True st key v of Some (_, Some st') \<Rightarrow> Some st' | _ \<Rightarrow> None)"
| "config_step (CDelete key) st = Some (snd (config_delete st key))"

fun config_run :: "config_op list \<Rightarrow> 'w config_store \<Rightarrow> 'w config_store option" where
  "config_run [] st = Some st"
| "config_run (p # ps) st = (case config_step p st of None \<Rightarrow> None | Some st' \<Rightarrow> config_run ps st')"

fun config_op_ok :: "config_op \<Rightarrow> bool" where
  "config_op_ok (CSet key v) \<longleftrightarrow> length key < 65536 \<and> value_ok v"
| "config_op_ok (CDelete key) \<longleftrightarrow> length key < 65536"

lemma step_holds:
  assumes "config_holds st M" "length (cs_entries st) = 1024" "config_op_ok p"
  shows "\<exists>st' M'. config_step p st = Some st' \<and> config_holds st' M' \<and> length (cs_entries st') = 1024"
proof (cases p)
  case (CSet key v)
  obtain r st' where q: "config_put True key (value_type v) (value_bytes v) st = Some (r, st')" "length (cs_entries st') = 1024"
    using put_returns [OF assms(2)] by blast
  then have s: "config_set True st key v = Some (r, Some st')" using config_set_put [of v True st key] assms(3) CSet by simp
  then show ?thesis using holds_set [OF assms(1) _ _ s] assms(3) CSet q(2) by auto
next
  case (CDelete key)
  then show ?thesis using holds_delete [OF assms(1), of key] entries_length(1) [of st key] assms by auto
qed

lemma run_holds:
  "config_holds st M \<Longrightarrow> length (cs_entries st) = 1024 \<Longrightarrow> list_all config_op_ok ps \<Longrightarrow>
    \<exists>st' M'. config_run ps st = Some st' \<and> config_holds st' M'"
proof (induction ps arbitrary: st M)
  case (Cons p ps)
  obtain st1 M1 where 1: "config_step p st = Some st1" "config_holds st1 M1" "length (cs_entries st1) = 1024"
    using step_holds [OF Cons.prems(1,2), of p] Cons.prems(3) by auto
  then show ?case using Cons.IH [OF 1(2,3)] Cons.prems(3) by simp
qed auto

lemma holds_entry:
  assumes "config_holds st M" "e \<in> set (live st)"
  shows "\<exists>v. value_ok v \<and> ce_type e = value_type v \<and> slice (eoff e) (esize e) (cs_data st) = value_bytes v"
proof -
  have "cs_map st (ckey e) = Some (ce_type e, slice (eoff e) (esize e) (cs_data st))"
    unfolding cs_map_def
  proof (rule map_of_is_SomeI)
    show "distinct (map fst (map (ckv (cs_data st)) (live st)))" using assms(1) by (simp add: config_holds_def cs_wf_def)
    show "(ckey e, ce_type e, slice (eoff e) (esize e) (cs_data st)) \<in> set (map (ckv (cs_data st)) (live st))"
      using assms(2) by (force simp: ckv_def)
  qed
  then obtain v where "M (ckey e) = Some v" "(ce_type e, slice (eoff e) (esize e) (cs_data st)) = (value_type v, value_bytes v)"
    using assms(1) by (auto simp: config_holds_def)
  moreover from this(1) have "value_ok v" using assms(1) ranI [of M "ckey e" v] by (simp add: config_holds_def)
  ultimately show ?thesis by auto
qed

text \<open>
  C27: Whatever settings are written and deleted in a new store, as long as memory for its data is available, every call
  returns without writing outside its arrays, and every entry stays well-typed: its tag is one of the four types and its
  bytes, which lie inside the data area, are a value of that type (four bytes for an integer, one byte 0 or 1 for a
  boolean, a string with its only NUL at the end, a non-empty blob). Keys are shorter than 65536 bytes.
\<close>

theorem config_well_typed:
  assumes "init_new True h (store_opened fl) = (r, st)" "list_all config_op_ok ps"
  shows "\<exists>st'. config_run ps st = Some st' \<and>
    (\<forall>e\<in>set (live st'). eoff e + esize e \<le> length (cs_data st') \<and>
      (\<exists>v. value_ok v \<and> ce_type e = value_type v \<and> slice (eoff e) (esize e) (cs_data st') = value_bytes v))"
proof -
  have n: "config_holds st Map.empty" "length (cs_entries st) = 1024"
    using new_store_holds [OF assms(1)] by (simp_all add: store_opened_def)
  obtain st' M' where r: "config_run ps st = Some st'" "config_holds st' M'" using run_holds [OF n assms(2)] by blast
  have "eoff e + esize e \<le> length (cs_data st')" if "e \<in> set (live st')" for e
    using r(2) that by (simp add: config_holds_def cs_wf_def regions_ok_def)
  then show ?thesis using r holds_entry [OF r(2)] by blast
qed

theorem config_well_typed_witness:
  "case init_new True config_header_zero (store_opened (fat_file 0)) of
     (_, st) \<Rightarrow> \<exists>st'. config_run [CSet [0x61] (CBool True), CSet [0x61] (CInt 7), CDelete [0x62]] st = Some st' \<and>
       (\<forall>e\<in>set (live st'). eoff e + esize e \<le> length (cs_data st'))"
proof -
  obtain r st where n: "init_new True config_header_zero (store_opened (fat_file 0)) = (r, st)" by fastforce
  show ?thesis using config_well_typed [OF n, of "[CSet [0x61] (CBool True), CSet [0x61] (CInt 7), CDelete [0x62]]"] n by auto
qed

end
