(* ===== verification/Crc32.thy ===== *)
theory Crc32
  imports Ardu_Prelude
begin

text \<open>
  The CRC-32 of \<^verbatim>\<open>fs/ota.c\<close> and \<^verbatim>\<open>drivers/module.c\<close> (the two files have the same code): a table generated from the
  polynomial, and a byte-wise update. It is shown to equal the bit-wise reference, to be continued over
  consecutive pieces, and to detect every error confined to four consecutive bytes.
\<close>

definition CRC32_POLY :: u32 where "CRC32_POLY = 0xEDB88320"

definition crc32_step :: "u32 \<Rightarrow> u32" where
  "crc32_step c = (if c AND 1 \<noteq> 0 then CRC32_POLY XOR drop_bit 1 c else drop_bit 1 c)"

definition crc32_table :: "u32 list" where
  "crc32_table = map (\<lambda>i. (crc32_step ^^ 8) (of_nat i)) [0..<256]"

definition crc32_update :: "u32 \<Rightarrow> u8 list \<Rightarrow> u32" where
  "crc32_update crc data =
    NOT (foldl (\<lambda>crc b. crc32_table ! unat ((crc XOR ucast b) AND 0xFF) XOR drop_bit 8 crc) (NOT crc) data)"

section \<open>The bit-wise reference\<close>

text \<open>Each byte is added to the low end of the register, which is then stepped once per bit.\<close>

definition crc32_bits :: "u32 \<Rightarrow> u8 list \<Rightarrow> u32" where
  "crc32_bits reg data = foldl (\<lambda>r b. (crc32_step ^^ 8) (r XOR ucast b)) reg data"

lemma and_1_bit: "(c :: u32) AND 1 \<noteq> 0 \<longleftrightarrow> bit c 0"
  by (simp add: and_one_eq odd_iff_mod_2_eq_one [symmetric] bit_0)

lemma crc32_step_xor: "crc32_step (a XOR b) = crc32_step a XOR crc32_step b"
proof -
  have d: "drop_bit 1 (a XOR b) = drop_bit 1 a XOR drop_bit 1 b" by (rule drop_bit_xor)
  have o: "bit (a XOR b) 0 \<longleftrightarrow> bit a 0 \<noteq> bit b 0" by (simp add: bit_xor_iff)
  have c: "P XOR (u XOR v) = (P XOR u) XOR v" "P XOR (u XOR v) = u XOR (P XOR v)" "(P XOR u) XOR (P XOR v) = u XOR v" for P u v :: u32
    by (simp_all add: xor.assoc xor.left_commute)
  show ?thesis unfolding crc32_step_def and_1_bit d o using c [of CRC32_POLY "drop_bit 1 a" "drop_bit 1 b"] by auto
qed

lemma crc32_steps_xor: "(crc32_step ^^ n) (a XOR b) = (crc32_step ^^ n) a XOR (crc32_step ^^ n) b"
  by (induction n) (simp_all add: crc32_step_xor)

lemma crc32_step_even: "\<not> bit c 0 \<Longrightarrow> crc32_step c = drop_bit 1 c"
  by (simp add: crc32_step_def and_1_bit)

text \<open>A register with \<open>k\<close> low zero bits is only shifted by \<open>k\<close> steps.\<close>

lemma crc32_steps_shift: "take_bit k c = 0 \<Longrightarrow> (crc32_step ^^ k) c = drop_bit k c"
proof (induction k arbitrary: c)
  case (Suc k)
  have "take_bit k c = take_bit k (take_bit (Suc k) c)" by simp
  then have "take_bit k c = 0" using Suc.prems by simp
  then have "(crc32_step ^^ k) c = drop_bit k c" by (rule Suc.IH)
  moreover have "\<not> bit (drop_bit k c) 0"
  proof -
    have "bit (take_bit (Suc k) c) k = False" using Suc.prems by simp
    then show ?thesis by (simp add: bit_take_bit_iff bit_drop_bit_eq)
  qed
  ultimately show ?case by (simp add: crc32_step_even)
qed simp

lemma split_low: "(r :: u32) = (r AND 0xFF) XOR push_bit 8 (drop_bit 8 r)"
proof (rule bit_word_eqI)
  fix n
  assume "n < LENGTH(32)"
  then show "bit r n = bit ((r AND 0xFF) XOR push_bit 8 (drop_bit 8 r)) n"
    unfolding word_0xff_mask by (auto simp: bit_simps)
qed

lemma crc32_table_nth: "w = r AND 0xFF \<Longrightarrow> crc32_table ! unat (w :: u32) = (crc32_step ^^ 8) w"
proof -
  assume w: "w = r AND 0xFF"
  have "w = take_bit 8 r" unfolding w word_0xff_mask by (simp add: take_bit_eq_mask)
  then have "unat w = take_bit 8 (unat r)" by (simp add: unsigned_take_bit_eq)
  then have "unat w < 256" using take_bit_nat_less_exp [of 8 "unat r"] by simp
  then show ?thesis by (simp add: crc32_table_def)
qed

lemma crc32_byte: "crc32_table ! unat ((r XOR ucast b) AND 0xFF) XOR drop_bit 8 r = (crc32_step ^^ 8) (r XOR ucast (b :: u8))"
proof -
  let ?x = "r XOR ucast b"
  have hi: "drop_bit 8 ?x = drop_bit 8 r" by (rule bit_word_eqI) (auto simp: bit_simps dest: bit_imp_le_length)
  have "(crc32_step ^^ 8) ?x = (crc32_step ^^ 8) (?x AND 0xFF) XOR (crc32_step ^^ 8) (push_bit 8 (drop_bit 8 r))"
    by (subst split_low [of ?x]) (simp only: crc32_steps_xor hi)
  also have "(crc32_step ^^ 8) (push_bit 8 (drop_bit 8 r)) = drop_bit 8 (push_bit 8 (drop_bit 8 r))"
    by (rule crc32_steps_shift) (simp add: take_bit_push_bit)
  also have "\<dots> = drop_bit 8 r" by (rule bit_word_eqI) (auto simp: bit_simps dest: bit_imp_le_length)
  finally show ?thesis using crc32_table_nth [OF refl] by simp
qed

text \<open>
  C29: The table-driven CRC-32 of firmware images and modules is the bit-wise CRC-32, with the register
  complemented before and after.
\<close>

theorem crc32_update_bitwise: "crc32_update crc data = NOT (crc32_bits (NOT crc) data)"
  unfolding crc32_update_def crc32_bits_def crc32_byte ..

text \<open>The published check value of CRC-32, the checksum of the nine digits, fixes the polynomial independently.\<close>

lemma crc32_check_value: "crc32_update 0 [0x31, 0x32, 0x33, 0x34, 0x35, 0x36, 0x37, 0x38, 0x39] = 0xCBF43926"
proof -
  have "crc32_bits 0xFFFFFFFF [0x31, 0x32, 0x33, 0x34, 0x35, 0x36, 0x37, 0x38, 0x39] = 0x340BC6D9"
    unfolding crc32_bits_def foldl.simps numeral_nat funpow.simps comp_apply id_apply by (simp add: crc32_step_def CRC32_POLY_def)
  moreover have "(0xFFFFFFFF :: u32) = NOT 0" by simp
  ultimately show ?thesis unfolding crc32_update_def crc32_byte crc32_bits_def [symmetric] by simp
qed

lemma crc32_update_append: "crc32_update (crc32_update crc a) b = crc32_update crc (a @ b)"
  by (simp add: crc32_update_def)

section \<open>Error detection\<close>

text \<open>The step is injective: the polynomial has its top bit set, so the shifted-out bit is recovered.\<close>

lemma crc32_step_0:
  assumes z: "crc32_step c = 0"
  shows "c = 0"
proof (cases "bit c 0")
  case True
  then have "CRC32_POLY XOR drop_bit 1 c = 0" using z by (simp add: crc32_step_def and_1_bit)
  then have "bit CRC32_POLY 31 = bit (drop_bit 1 c) 31" by simp
  moreover have "bit CRC32_POLY 31" by (simp add: CRC32_POLY_def)
  moreover have "\<not> bit (drop_bit 1 c) 31" using bit_imp_le_length [of c 32] by (simp only: bit_drop_bit_eq comp_def) auto
  ultimately show ?thesis by simp
next
  case False
  then have d: "drop_bit 1 c = 0" using z crc32_step_even [OF False] by simp
  show ?thesis
  proof (rule bit_word_eqI)
    fix n
    show "bit c n = bit (0 :: u32) n"
    proof (cases n)
      case (Suc m)
      have "bit (drop_bit 1 c) m = bit (0 :: u32) m" using d by simp
      then show ?thesis using Suc by (simp add: bit_drop_bit_eq)
    qed (use False in simp)
  qed
qed

lemma crc32_step_inj: "crc32_step a = crc32_step b \<Longrightarrow> a = b"
  using crc32_step_0 [of "a XOR b"] by (simp add: crc32_step_xor)

lemma crc32_steps_inj: "(crc32_step ^^ n) a = (crc32_step ^^ n) b \<Longrightarrow> a = b"
  by (induction n) (auto dest: crc32_step_inj)

lemma crc32_bits_inj: "crc32_bits a data = crc32_bits b data \<Longrightarrow> a = b"
proof (induction data arbitrary: a b)
  case (Cons x data)
  then have "(crc32_step ^^ 8) (a XOR ucast x) = (crc32_step ^^ 8) (b XOR ucast x)" by (simp add: crc32_bits_def)
  then show ?case by (auto dest: crc32_steps_inj)
qed (simp add: crc32_bits_def)

text \<open>Four bytes are one 32-bit word, stepped 32 times.\<close>

lemma crc32_absorb: "k \<le> 24 \<Longrightarrow> (crc32_step ^^ k) r XOR ucast (b :: u8) = (crc32_step ^^ k) (r XOR push_bit k (ucast b))"
proof -
  assume k: "k \<le> 24"
  have "(crc32_step ^^ k) (push_bit k (ucast b)) = drop_bit k (push_bit k (ucast b :: u32))"
    by (rule crc32_steps_shift) (simp add: take_bit_push_bit)
  also have "\<dots> = ucast b" using k by (intro bit_word_eqI) (auto simp: bit_simps dest: bit_imp_le_length)
  finally show ?thesis by (simp add: crc32_steps_xor)
qed

lemma crc32_word: "crc32_bits r [b0, b1, b2, b3] = (crc32_step ^^ 32) (r XOR le32 b0 b1 b2 b3)"
proof -
  have a: "(crc32_step ^^ 8) ((crc32_step ^^ n) x) = (crc32_step ^^ (8 + n)) x" for n x by (simp add: funpow_add)
  have "le32 b0 b1 b2 b3 = ucast b0 XOR push_bit 8 (ucast b1) XOR push_bit 16 (ucast b2) XOR push_bit 24 (ucast b3)"
    by (rule bit_word_eqI) (auto simp: bit_le32 bit_simps dest: bit_imp_le_length)
  then show ?thesis
    by (simp add: crc32_bits_def crc32_absorb a xor.assoc del: funpow.simps)
qed

text \<open>
  Two images that differ only within four consecutive bytes have different CRC-32 values.
\<close>

theorem crc32_detects_word:
  assumes "length u = 4" "length v = 4" "u \<noteq> v"
  shows "crc32_update crc (a @ u @ b) \<noteq> crc32_update crc (a @ v @ b)"
proof
  assume "crc32_update crc (a @ u @ b) = crc32_update crc (a @ v @ b)"
  then have "crc32_bits (crc32_bits (crc32_bits (NOT crc) a) u) b = crc32_bits (crc32_bits (crc32_bits (NOT crc) a) v) b"
    by (simp add: crc32_update_def crc32_byte crc32_bits_def)
  then have eq: "crc32_bits (crc32_bits (NOT crc) a) u = crc32_bits (crc32_bits (NOT crc) a) v" by (rule crc32_bits_inj)
  obtain u0 u1 u2 u3 where u: "u = [u0, u1, u2, u3]" using assms(1) by (auto simp: length_Suc_conv numeral_eq_Suc)
  obtain v0 v1 v2 v3 where v: "v = [v0, v1, v2, v3]" using assms(2) by (auto simp: length_Suc_conv numeral_eq_Suc)
  have "le32 u0 u1 u2 u3 = le32 v0 v1 v2 v3" using eq unfolding u v crc32_word by (auto dest: crc32_steps_inj)
  then have "byte_at i (le32 u0 u1 u2 u3) = byte_at i (le32 v0 v1 v2 v3)" for i by simp
  from this [of 0] this [of 1] this [of 2] this [of 3] show False using assms(3) u v by (simp add: byte_simps)
qed

theorem crc32_detects_word_witness:
  "crc32_update 0 ([7] @ [1, 2, 3, 4] @ [9, 9]) \<noteq> crc32_update 0 ([7] @ [1, 5, 6, 4] @ [9, 9])"
  by (rule crc32_detects_word) simp_all

end
