(* ===== verification/Ota.thy ===== *)
theory Ota
  imports Crc32 Sim_Storage
begin

text \<open>
  Firmware updates, \<^verbatim>\<open>fs/ota.c\<close>, over the simulator's storage device, with the signature placeholder of
  \<^verbatim>\<open>fs/ed25519.c\<close>. The handle holds the storage device by value; every operation returns it. Progress callbacks
  are entries in \<open>oh_calls\<close>. The enumerations are 32-bit words, as in the metadata record on the device.
\<close>

definition OTA_METADATA_OFFSET :: nat where "OTA_METADATA_OFFSET = 0"
definition OTA_MAGIC :: u32 where "OTA_MAGIC = 0x4F54414D"
definition OTA_VERSION :: u16 where "OTA_VERSION = 1"

definition OTA_PARTITION_OTA_0 :: u32 where "OTA_PARTITION_OTA_0 = 0"
definition OTA_PARTITION_MAX :: u32 where "OTA_PARTITION_MAX = 3"

definition OTA_STATE_NEW :: u32 where "OTA_STATE_NEW = 0"
definition OTA_STATE_PENDING_VERIFY :: u32 where "OTA_STATE_PENDING_VERIFY = 1"
definition OTA_STATE_VALID :: u32 where "OTA_STATE_VALID = 2"
definition OTA_STATE_INVALID :: u32 where "OTA_STATE_INVALID = 3"

record ota_metadata =
  om_magic :: u32
  om_version :: u16
  om_reserved :: u16
  om_sequence :: u32
  om_active_partition :: u32
  om_next_partition :: u32
  om_active_crc32 :: u32
  om_next_crc32 :: u32
  om_active_size :: u32
  om_next_size :: u32
  om_active_state :: u32
  om_next_state :: u32
  om_timestamp :: u32

record ota_handle =
  oh_storage :: hal_storage
  oh_partition :: u32
  oh_offset :: u32
  oh_expected_size :: u32
  oh_written :: u32
  oh_crc32 :: u32
  oh_progress_cb :: bool
  oh_calls :: "(u32 \<times> u32) list"

text \<open>The 48 bytes of the metadata record.\<close>

definition meta_bytes :: "ota_metadata \<Rightarrow> u8 list" where
  "meta_bytes m = u32_bytes (om_magic m) @ u16_bytes (om_version m) @ u16_bytes (om_reserved m) @ u32_bytes (om_sequence m) @
     u32_bytes (om_active_partition m) @ u32_bytes (om_next_partition m) @ u32_bytes (om_active_crc32 m) @
     u32_bytes (om_next_crc32 m) @ u32_bytes (om_active_size m) @ u32_bytes (om_next_size m) @ u32_bytes (om_active_state m) @
     u32_bytes (om_next_state m) @ u32_bytes (om_timestamp m)"

definition meta_of :: "u8 list \<Rightarrow> ota_metadata" where
  "meta_of b = \<lparr>om_magic = u32_at b 0, om_version = u16_at b 4, om_reserved = u16_at b 6, om_sequence = u32_at b 8,
     om_active_partition = u32_at b 12, om_next_partition = u32_at b 16, om_active_crc32 = u32_at b 20, om_next_crc32 = u32_at b 24,
     om_active_size = u32_at b 28, om_next_size = u32_at b 32, om_active_state = u32_at b 36, om_next_state = u32_at b 40,
     om_timestamp = u32_at b 44\<rparr>"

definition ota_read_metadata :: "hal_storage option \<Rightarrow> ota_metadata option" where
  "ota_read_metadata storage =
    (case storage of
       None \<Rightarrow> None
     | Some s \<Rightarrow>
         (case hal_storage_read (Some s) OTA_METADATA_OFFSET 48 of
            None \<Rightarrow> None
          | Some b \<Rightarrow> if om_magic (meta_of b) \<noteq> OTA_MAGIC then None else Some (meta_of b)))"

definition ota_write_metadata :: "hal_storage option \<Rightarrow> ota_metadata \<Rightarrow> int \<times> hal_storage option" where
  "ota_write_metadata storage meta =
    (case storage of
       None \<Rightarrow> (-1, None)
     | Some s \<Rightarrow>
         (case hal_storage_write (Some s) OTA_METADATA_OFFSET (meta_bytes meta) of
            None \<Rightarrow> (-1, storage)
          | Some s \<Rightarrow> (case hal_storage_sync (Some s) of None \<Rightarrow> (-1, Some s) | Some s \<Rightarrow> (0, Some s))))"

definition ota_begin :: "bool \<Rightarrow> hal_storage option \<Rightarrow> u32 \<Rightarrow> u32 \<Rightarrow> bool \<Rightarrow> ota_handle option" where
  "ota_begin mem storage part expected_size cb =
    (case storage of
       None \<Rightarrow> None
     | Some s \<Rightarrow>
         if part \<ge> OTA_PARTITION_MAX then None
         else if \<not> mem then None
         else Some \<lparr>oh_storage = s, oh_partition = part, oh_offset = 0x10000 + part * 0x100000,
                oh_expected_size = expected_size, oh_written = 0, oh_crc32 = 0, oh_progress_cb = cb, oh_calls = []\<rparr>)"

definition ota_write :: "u8 list \<Rightarrow> ota_handle \<Rightarrow> int \<times> ota_handle" where
  "ota_write data h =
    (if data = [] then (-1, h)
     else
       let n = (if unat (oh_written h) + length data > unat (oh_expected_size h)
                then unat (oh_expected_size h - oh_written h) else length data);
           d = take n data
       in case hal_storage_write (Some (oh_storage h)) (unat (oh_offset h + oh_written h)) d of
            None \<Rightarrow> (-1, h)
          | Some s \<Rightarrow>
              let h = h\<lparr>oh_storage := s, oh_crc32 := crc32_update (oh_crc32 h) d, oh_written := oh_written h + of_nat n\<rparr>
              in (int n, if oh_progress_cb h then h\<lparr>oh_calls := oh_calls h @ [(oh_written h, oh_expected_size h)]\<rparr> else h))"

definition meta_zero :: ota_metadata where
  "meta_zero = \<lparr>om_magic = 0, om_version = 0, om_reserved = 0, om_sequence = 0, om_active_partition = 0, om_next_partition = 0,
     om_active_crc32 = 0, om_next_crc32 = 0, om_active_size = 0, om_next_size = 0, om_active_state = 0, om_next_state = 0, om_timestamp = 0\<rparr>"

text \<open>The metadata \<open>ota_end\<close> writes, given what it read.\<close>

definition ota_end_meta :: "bool \<Rightarrow> ota_handle \<Rightarrow> ota_metadata option \<Rightarrow> ota_metadata" where
  "ota_end_meta verify h meta =
    (case meta of
       None \<Rightarrow> meta_zero\<lparr>om_magic := OTA_MAGIC, om_version := OTA_VERSION, om_active_partition := OTA_PARTITION_OTA_0,
                 om_next_partition := oh_partition h, om_sequence := 1\<rparr>
     | Some m \<Rightarrow> m\<lparr>om_sequence := om_sequence m + 1, om_next_partition := oh_partition h, om_next_size := oh_written h,
                   om_next_crc32 := oh_crc32 h, om_next_state := (if verify then OTA_STATE_PENDING_VERIFY else OTA_STATE_NEW),
                   om_timestamp := 0\<rparr>)"

definition ota_end :: "ota_handle option \<Rightarrow> bool \<Rightarrow> int \<times> hal_storage option" where
  "ota_end handle verify =
    (case handle of
       None \<Rightarrow> (-1, None)
     | Some h \<Rightarrow>
         let s = (case hal_storage_sync (Some (oh_storage h)) of None \<Rightarrow> oh_storage h | Some s \<Rightarrow> s);
             meta = ota_end_meta verify h (ota_read_metadata (Some s))
         in case ota_write_metadata (Some s) meta of (ret, s) \<Rightarrow> (if ret \<noteq> 0 then -1 else 0, s))"

definition ota_set_boot_partition :: "u32 \<Rightarrow> int" where
  "ota_set_boot_partition part = (if part \<ge> OTA_PARTITION_MAX then -1 else 0)"

text \<open>The calls below have no storage device: the source passes NULL.\<close>

definition ota_get_boot_partition :: u32 where
  "ota_get_boot_partition = (case ota_read_metadata None of Some m \<Rightarrow> om_active_partition m | None \<Rightarrow> OTA_PARTITION_OTA_0)"

definition ota_get_running_partition :: u32 where
  "ota_get_running_partition = OTA_PARTITION_OTA_0"

definition ota_get_metadata :: "ota_metadata option" where
  "ota_get_metadata = ota_read_metadata None"

definition ota_mark_valid :: "u32 \<Rightarrow> int" where
  "ota_mark_valid part =
    (case ota_read_metadata None of
       None \<Rightarrow> -1
     | Some m \<Rightarrow>
         if part = om_next_partition m then
           fst (ota_write_metadata None
             (m\<lparr>om_active_partition := part, om_active_size := om_next_size m, om_active_crc32 := om_next_crc32 m,
                om_active_state := OTA_STATE_VALID, om_next_partition := OTA_PARTITION_MAX, om_next_size := 0, om_next_crc32 := 0,
                om_next_state := OTA_STATE_NEW, om_sequence := om_sequence m + 1\<rparr>))
         else -1)"

definition ota_mark_invalid :: "u32 \<Rightarrow> int" where
  "ota_mark_invalid part =
    (case ota_read_metadata None of
       None \<Rightarrow> -1
     | Some m \<Rightarrow>
         if part = om_next_partition m then fst (ota_write_metadata None (m\<lparr>om_next_state := OTA_STATE_INVALID\<rparr>))
         else if part = om_active_partition m then fst (ota_write_metadata None (m\<lparr>om_active_state := OTA_STATE_INVALID\<rparr>))
         else -1)"

definition ota_rollback :: int where
  "ota_rollback =
    (case ota_read_metadata None of
       None \<Rightarrow> -1
     | Some m \<Rightarrow>
         if om_next_state m = OTA_STATE_VALID then
           fst (ota_write_metadata None
             (m\<lparr>om_active_partition := om_next_partition m, om_next_partition := om_active_partition m,
                om_active_size := om_next_size m, om_next_size := om_active_size m, om_active_crc32 := om_next_crc32 m,
                om_next_crc32 := om_active_crc32 m, om_active_state := om_next_state m, om_next_state := om_active_state m,
                om_sequence := om_sequence m + 1\<rparr>))
         else -1)"

definition ed25519_verify :: "u8 list \<Rightarrow> u8 list \<Rightarrow> u8 list \<Rightarrow> int" where
  "ed25519_verify signature message public_key = -1"

definition ota_verify_signature :: "u8 list option \<Rightarrow> u8 list option \<Rightarrow> u8 list option \<Rightarrow> int" where
  "ota_verify_signature firmware signature pubkey =
    (case (firmware, signature, pubkey) of
       (Some fw, Some sg, Some pk) \<Rightarrow>
         if fw = [] \<or> length sg \<noteq> 64 \<or> length pk \<noteq> 32 then -1 else if ed25519_verify sg fw pk = 0 then 0 else -1
     | _ \<Rightarrow> -1)"

section \<open>The image\<close>

text \<open>What a handle has after writing the bytes \<open>img\<close> to a device that held \<open>d\<close>.\<close>

definition ota_state :: "u8 list \<Rightarrow> nat \<Rightarrow> nat \<Rightarrow> u8 list \<Rightarrow> ota_handle \<Rightarrow> bool" where
  "ota_state d off n img h \<longleftrightarrow> storage_ok (oh_storage h) \<and> hs_size (oh_storage h) = length d \<and> length img \<le> n \<and> off + n \<le> length d \<and>
    length d < 2 ^ 32 \<and> unat (oh_offset h) = off \<and> unat (oh_expected_size h) = n \<and> unat (oh_written h) = length img \<and>
    hs_data (oh_storage h) = blit d off img \<and> oh_crc32 h = crc32_update 0 img"

lemma ota_write_state:
  assumes st: "ota_state d off n img h" and ne: "data \<noteq> []"
  shows "\<exists>h'. ota_write data h = (int (min (length data) (n - length img)), h') \<and> ota_state d off n (take n (img @ data)) h' \<and>
    oh_partition h' = oh_partition h"
proof -
  have o: "storage_ok (oh_storage h)" "hs_size (oh_storage h) = length d" "length img \<le> n" "off + n \<le> length d" "length d < 2 ^ 32"
    "unat (oh_offset h) = off" "unat (oh_expected_size h) = n" "unat (oh_written h) = length img"
    "hs_data (oh_storage h) = blit d off img" "oh_crc32 h = crc32_update 0 img" using st by (auto simp: ota_state_def)
  define k where "k = min (length data) (n - length img)"
  have sub: "unat (oh_expected_size h - oh_written h) = n - length img"
    using o(3,7,8) by (subst unat_sub) (simp_all add: word_le_nat_alt)
  have k: "(if unat (oh_written h) + length data > unat (oh_expected_size h) then unat (oh_expected_size h - oh_written h) else length data) = k"
    unfolding o(7,8) sub k_def min_def using o(3) by auto
  have at: "unat (oh_offset h + oh_written h) = off + length img"
    using u32_add [of "oh_offset h" "oh_written h"] o by simp
  have len: "length (take k data) = k" and kn: "length img + k \<le> n" using o(3) by (auto simp: k_def)
  obtain s where s: "hal_storage_write (Some (oh_storage h)) (off + length img) (take k data) = Some s" "storage_ok s"
    "hs_size s = hs_size (oh_storage h)" "hs_data s = blit (hs_data (oh_storage h)) (off + length img) (take k data)"
    using storage_write [OF o(1), of "off + length img" "take k data"] o(2,4) kn len by auto
  have img: "take n (img @ data) = img @ take k data" using o(3) by (simp add: k_def min_def)
  have wr: "unat (oh_written h + of_nat k) = length img + k"
    using u32_add [of "oh_written h" "of_nat k"] o kn by (simp add: unat_of_nat_small)
  have dat: "hs_data s = blit d off (img @ take k data)" using s(4) o(4,9) kn len by (simp add: blit_blit)
  define h1 where "h1 = h\<lparr>oh_storage := s, oh_crc32 := crc32_update (oh_crc32 h) (take k data), oh_written := oh_written h + of_nat k\<rparr>"
  define h2 where "h2 = (if oh_progress_cb h1 then h1\<lparr>oh_calls := oh_calls h1 @ [(oh_written h1, oh_expected_size h1)]\<rparr> else h1)"
  have eq: "ota_write data h = (int k, h2)"
    unfolding ota_write_def Let_def k at s(1) option.case h1_def [symmetric] h2_def [symmetric] using ne by simp
  have "ota_state d off n (img @ take k data) h2"
    using s(2,3) o dat wr kn len by (simp add: ota_state_def h2_def h1_def crc32_update_append)
  then show ?thesis using eq img by (simp add: k_def [symmetric] h2_def h1_def)
qed

text \<open>
  C28: An update that is written in any non-empty pieces leaves on the device exactly the bytes of the
  pieces in order, cut to the announced size, at the offset of the partition and nothing else; the handle's
  length and CRC-32 are those of that image.
\<close>

theorem ota_image:
  assumes s: "storage_ok s" "hs_size s < 2 ^ 32" and b: "ota_begin True (Some s) part sz cb = Some h"
    and fit: "0x10000 + unat part * 0x100000 + unat sz \<le> hs_size s" and ne: "[] \<notin> set chunks"
  shows "let h' = fold (\<lambda>c h. snd (ota_write c h)) chunks h; img = take (unat sz) (concat chunks) in
    hs_data (oh_storage h') = blit (hs_data s) (0x10000 + unat part * 0x100000) img \<and>
    unat (oh_written h') = length img \<and> oh_crc32 h' = crc32_update 0 img"
proof -
  have p: "unat part < 3" using b by (auto simp: ota_begin_def OTA_PARTITION_MAX_def word_le_nat_alt split: if_splits)
  let ?off = "0x10000 + unat part * 0x100000"
  have m: "unat (part * 0x100000) = unat part * 0x100000" using p by (simp add: unat_word_ariths)
  have "unat (0x10000 + part * 0x100000) = ?off" using u32_add [of "0x10000" "part * 0x100000"] m p by simp
  then have h0: "ota_state (hs_data s) ?off (unat sz) [] h"
    using b s fit by (auto simp: ota_begin_def ota_state_def storage_ok_def blit_def crc32_update_def split: if_splits)
  have "ota_state (hs_data s) ?off (unat sz) (take (unat sz) (img @ concat cs)) (fold (\<lambda>c h. snd (ota_write c h)) cs h)"
    if "ota_state (hs_data s) ?off (unat sz) img h" "[] \<notin> set cs" for cs img h
    using that
  proof (induction cs arbitrary: img h)
    case Nil
    then show ?case by (simp add: ota_state_def)
  next
    case (Cons c cs)
    obtain h' where w: "snd (ota_write c h) = h'" "ota_state (hs_data s) ?off (unat sz) (take (unat sz) (img @ c)) h'"
      using ota_write_state [OF Cons.prems(1), of c] Cons.prems(2) by auto
    have "take (unat sz) (take (unat sz) (img @ c) @ concat cs) = take (unat sz) (img @ concat (c # cs))"
      using Cons.prems(1) by (cases "length (img @ c) \<le> unat sz") (auto simp: ota_state_def)
    then show ?case using Cons.IH [OF w(2)] Cons.prems(2) w(1) by simp
  qed
  from this [OF h0 ne] show ?thesis by (simp add: Let_def ota_state_def)
qed

lemma ota_begin_1: "\<exists>h. ota_begin True (Some s) 1 n False = Some h \<and> oh_storage h = s"
proof -
  have "\<not> OTA_PARTITION_MAX \<le> 1" by (simp add: OTA_PARTITION_MAX_def word_le_nat_alt)
  then show ?thesis by (simp add: ota_begin_def)
qed

theorem ota_image_witness:
  "\<exists>s h. hal_storage_init (Some (hal_storage_open ''flash'' HAL_STORAGE_TYPE_FLASH)) = Some s \<and>
    ota_begin True (Some s) 1 8 False = Some h \<and>
    hs_data (oh_storage (fold (\<lambda>c h. snd (ota_write c h)) [[1, 2, 3, 4, 5], [6, 7, 8, 9]] h)) =
      blit (hs_data s) 0x110000 [1, 2, 3, 4, 5, 6, 7, 8]"
proof -
  obtain s where s: "hal_storage_init (Some (hal_storage_open ''flash'' HAL_STORAGE_TYPE_FLASH)) = Some s"
    by (simp add: hal_storage_init_def)
  have ok: "storage_ok s" "hs_size s = SIM_STORAGE_SIZE" using storage_ok_open [OF s] by simp_all
  obtain h where h: "ota_begin True (Some s) 1 8 False = Some h" using ota_begin_1 [of s 8] by blast
  have "hs_data (oh_storage (fold (\<lambda>c h. snd (ota_write c h)) [[1, 2, 3, 4, 5], [6, 7, 8, 9]] h)) =
      blit (hs_data s) 0x110000 [1, 2, 3, 4, 5, 6, 7, 8]"
    using ota_image [OF ok(1) _ h, of "[[1, 2, 3, 4, 5], [6, 7, 8, 9]]"] ok(2) by (simp add: SIM_STORAGE_SIZE_def Let_def)
  then show ?thesis using s h by blast
qed

text \<open>Facts on the metadata record.\<close>

lemma length_meta_bytes [simp]: "length (meta_bytes m) = 48"
  by (simp add: meta_bytes_def)

lemma meta_of_bytes [simp]: "meta_of (meta_bytes m) = m"
  by (simp add: meta_of_def meta_bytes_def u32_at_def u16_at_def u32_bytes_def u16_bytes_def le16_split le32_split [unfolded One_nat_def])

text \<open>
  Ending an update on a device that has metadata records the partition, the size, the CRC-32 and the
  requested state as the next image and advances the sequence number. On a device without metadata the first
  update records neither size nor CRC-32, and its state is NEW even when verification was requested. The rest
  of the device is left alone.
\<close>

theorem ota_end_metadata:
  assumes s: "storage_ok (oh_storage h)" "48 \<le> hs_size (oh_storage h)"
  shows "\<exists>s'. ota_end (Some h) verify = (0, Some s') \<and> drop 48 (hs_data s') = drop 48 (hs_data (oh_storage h)) \<and>
    (\<exists>m. ota_read_metadata (Some s') = Some m \<and> om_next_partition m = oh_partition h \<and>
      (case ota_read_metadata (Some (oh_storage h)) of
         Some m0 \<Rightarrow> om_next_size m = oh_written h \<and> om_next_crc32 m = oh_crc32 h \<and> om_sequence m = om_sequence m0 + 1 \<and>
           om_next_state m = (if verify then OTA_STATE_PENDING_VERIFY else OTA_STATE_NEW) \<and>
           om_active_partition m = om_active_partition m0 \<and> om_active_state m = om_active_state m0
       | None \<Rightarrow> om_next_size m = 0 \<and> om_next_crc32 m = 0 \<and> om_next_state m = OTA_STATE_NEW))"
proof -
  obtain s1 where s1: "hal_storage_sync (Some (oh_storage h)) = Some s1" "storage_ok s1" "hs_size s1 = hs_size (oh_storage h)"
    "hs_data s1 = hs_data (oh_storage h)" using storage_sync [OF s(1)] by blast
  have rd: "ota_read_metadata (Some s1) = ota_read_metadata (Some (oh_storage h))"
    using s s1 by (simp add: ota_read_metadata_def storage_read OTA_METADATA_OFFSET_def)
  define m where "m = ota_end_meta verify h (ota_read_metadata (Some s1))"
  obtain s2 where s2: "hal_storage_write (Some s1) 0 (meta_bytes m) = Some s2" "storage_ok s2" "hs_size s2 = hs_size s1"
    "hs_data s2 = blit (hs_data s1) 0 (meta_bytes m)" using storage_write [OF s1(2), of 0 "meta_bytes m"] s s1 by auto
  obtain s3 where s3: "hal_storage_sync (Some s2) = Some s3" "storage_ok s3" "hs_size s3 = hs_size s2" "hs_data s3 = hs_data s2"
    using storage_sync [OF s2(2)] by blast
  have eq: "ota_end (Some h) verify = (0, Some s3)"
    using s1(1) s2(1) s3(1) by (simp add: ota_end_def m_def [symmetric] ota_write_metadata_def OTA_METADATA_OFFSET_def Let_def)
  have magic: "om_magic m = OTA_MAGIC"
    by (auto simp: m_def ota_end_meta_def ota_read_metadata_def split: option.splits if_splits)
  have "hal_storage_read (Some s3) 0 48 = Some (meta_bytes m)"
    using storage_read [OF s3(2), of 0 48] s s1 s2 s3 by (simp add: slice_blit)
  then have "ota_read_metadata (Some s3) = Some m" using magic by (simp add: ota_read_metadata_def OTA_METADATA_OFFSET_def)
  moreover have "drop 48 (hs_data s3) = drop 48 (hs_data (oh_storage h))"
    using drop_blit [of 0 "hs_data s1" "meta_bytes m"] s1 s2 s3 by simp
  ultimately show ?thesis using eq
    by (auto simp: m_def rd ota_end_meta_def meta_zero_def OTA_STATE_NEW_def split: option.splits)
qed

theorem ota_end_metadata_witness:
  "\<exists>s h s'. hal_storage_init (Some (hal_storage_open ''flash'' HAL_STORAGE_TYPE_FLASH)) = Some s \<and>
    ota_begin True (Some s) 1 8 False = Some h \<and> ota_end (Some h) True = (0, Some s')"
proof -
  obtain s where s: "hal_storage_init (Some (hal_storage_open ''flash'' HAL_STORAGE_TYPE_FLASH)) = Some s"
    by (simp add: hal_storage_init_def)
  have ok: "storage_ok s" "48 \<le> hs_size s" using storage_ok_open [OF s] by (simp_all add: SIM_STORAGE_SIZE_def)
  obtain h where h: "ota_begin True (Some s) 1 8 False = Some h" "oh_storage h = s" using ota_begin_1 [of s 8] by blast
  show ?thesis using s h ota_end_metadata [of h True] ok by auto
qed

end
