(* ===== verification/Module_Image.thy ===== *)
theory Module_Image
  imports Crc32
begin

text \<open>
  Loadable modules, \<^verbatim>\<open>drivers/module.c\<close>: building an image, checking it and loading it. Structures are their
  little-endian bytes (a header of 100 bytes, symbols of 40 bytes, dependencies of 49 bytes). The success of
  the \<open>n\<close>-th allocation of a call is \<open>mem n\<close>. A call that reads outside a buffer, or through a NULL pointer, has
  the result \<open>None\<close>. \<open>size_t\<close> has 64 bits and its sums do not wrap; strings are given without their final NUL;
  the pointers for results are not NULL. Symbol names are compared up to the end of their symbol, where the code would run on
  into the next one if a loaded symbol had no NUL in all of its bytes. \<^verbatim>\<open>ardmod_unload\<close> only releases memory and is not modelled.
\<close>

definition ARDMOD_MAGIC :: u32 where "ARDMOD_MAGIC = 0x4D4F4441"
definition ARDMOD_VERSION :: u16 where "ARDMOD_VERSION = 1"
definition ARDMOD_MAX_SYMBOLS :: nat where "ARDMOD_MAX_SYMBOLS = 64"
definition ARDMOD_MAX_DEPS :: nat where "ARDMOD_MAX_DEPS = 16"
definition ARDMOD_NAME_MAX :: nat where "ARDMOD_NAME_MAX = 32"

record ardmod_header =
  ah_magic :: u32
  ah_version :: u16
  ah_flags :: u16
  ah_size :: u32
  ah_crc32 :: u32
  ah_name :: "u8 list"
  ah_version_str :: "u8 list"
  ah_type :: u32
  ah_load_addr :: u32
  ah_entry_point :: u32
  ah_bss_size :: u32
  ah_data_size :: u32
  ah_symbol_count :: u32
  ah_dep_count :: u32
  ah_manifest_offset :: u32
  ah_code_offset :: u32

record ardmod_symbol =
  as_name :: "u8 list"
  as_address :: u32
  as_type :: u32

record ardmod_dep =
  ad_name :: "u8 list"
  ad_version :: "u8 list"
  ad_optional :: bool

record ardmod_handle =
  mh_header :: ardmod_header
  mh_data :: "u8 list"
  mh_size :: nat
  mh_symbols :: "ardmod_symbol list option"
  mh_deps :: "ardmod_dep list option"
  mh_loaded :: bool

section \<open>Bytes of the structures\<close>

definition array0 :: "nat \<Rightarrow> u8 list \<Rightarrow> u8 list" where
  \<comment> \<open>\<open>strncpy (dst, s, n)\<close> into a zeroed array of \<open>n + 1\<close> characters\<close>
  "array0 n s = take n s @ replicate (n + 1 - length (take n s)) 0"

definition mod_header_bytes :: "ardmod_header \<Rightarrow> u8 list" where
  "mod_header_bytes h = u32_bytes (ah_magic h) @ u16_bytes (ah_version h) @ u16_bytes (ah_flags h) @ u32_bytes (ah_size h) @
     u32_bytes (ah_crc32 h) @ ah_name h @ ah_version_str h @ u32_bytes (ah_type h) @ u32_bytes (ah_load_addr h) @
     u32_bytes (ah_entry_point h) @ u32_bytes (ah_bss_size h) @ u32_bytes (ah_data_size h) @ u32_bytes (ah_symbol_count h) @
     u32_bytes (ah_dep_count h) @ u32_bytes (ah_manifest_offset h) @ u32_bytes (ah_code_offset h)"

definition mod_header_of :: "u8 list \<Rightarrow> ardmod_header" where
  "mod_header_of b = \<lparr>ah_magic = u32_at b 0, ah_version = u16_at b 4, ah_flags = u16_at b 6, ah_size = u32_at b 8, ah_crc32 = u32_at b 12,
     ah_name = slice 16 32 b, ah_version_str = slice 48 16 b, ah_type = u32_at b 64, ah_load_addr = u32_at b 68,
     ah_entry_point = u32_at b 72, ah_bss_size = u32_at b 76, ah_data_size = u32_at b 80, ah_symbol_count = u32_at b 84,
     ah_dep_count = u32_at b 88, ah_manifest_offset = u32_at b 92, ah_code_offset = u32_at b 96\<rparr>"

definition symbol_bytes :: "ardmod_symbol \<Rightarrow> u8 list" where
  "symbol_bytes s = as_name s @ u32_bytes (as_address s) @ u32_bytes (as_type s)"

definition symbol_of :: "u8 list \<Rightarrow> ardmod_symbol" where
  "symbol_of b = \<lparr>as_name = slice 0 32 b, as_address = u32_at b 32, as_type = u32_at b 36\<rparr>"

definition dep_bytes :: "ardmod_dep \<Rightarrow> u8 list" where
  "dep_bytes d = ad_name d @ ad_version d @ [if ad_optional d then 1 else 0]"

definition dep_of :: "u8 list \<Rightarrow> ardmod_dep" where
  "dep_of b = \<lparr>ad_name = slice 0 32 b, ad_version = slice 32 16 b, ad_optional = (b ! 48 \<noteq> 0)\<rparr>"

text \<open>An array of structures of \<open>k\<close> bytes each.\<close>

definition array_of :: "(u8 list \<Rightarrow> 'a) \<Rightarrow> nat \<Rightarrow> nat \<Rightarrow> u8 list \<Rightarrow> 'a list" where
  "array_of f k n b = map (\<lambda>i. f (slice (k * i) k b)) [0..<n]"

section \<open>Operations\<close>

definition ardmod_verify_crc :: "u8 list option \<Rightarrow> bool" where
  "ardmod_verify_crc data =
    (case data of
       None \<Rightarrow> False
     | Some d \<Rightarrow>
         if length d < 100 then False
         else
           let header_copy = blit (take 100 d) 12 [0, 0, 0, 0];
               stored_crc = ah_crc32 (mod_header_of (take 100 d));
               crc = crc32_update 0 header_copy;
               crc = (if length d > 100 then crc32_update crc (drop 100 d) else crc)
           in crc = stored_crc)"

definition ardmod_calculate_crc :: "u8 list option \<Rightarrow> u32 option" where
  "ardmod_calculate_crc data = map_option (crc32_update 0) data"

text \<open>\<open>memcpy\<close> of \<open>n\<close> bytes out of the image.\<close>

definition read_image :: "u8 list \<Rightarrow> nat \<Rightarrow> nat \<Rightarrow> u8 list option" where
  "read_image d off n = (if off + n \<le> length d then Some (slice off n d) else None)"

definition load_symbols :: "bool \<Rightarrow> ardmod_header \<Rightarrow> u8 list \<Rightarrow> ardmod_symbol list option option" where
  "load_symbols mem h d =
    (if ah_symbol_count h > 0 \<and> ah_manifest_offset h > 0 then
       if \<not> mem then Some None
       else map_option (\<lambda>b. Some (array_of symbol_of 40 (unat (ah_symbol_count h)) b))
              (read_image d (unat (ah_manifest_offset h)) (unat (ah_symbol_count h) * 40))
     else Some None)"

definition load_deps :: "bool \<Rightarrow> ardmod_header \<Rightarrow> u8 list \<Rightarrow> ardmod_dep list option option" where
  "load_deps mem h d =
    (if ah_dep_count h > 0 then
       let dep_offset = ah_manifest_offset h + ah_symbol_count h * 40 in
       if \<not> mem then Some None
       else map_option (\<lambda>b. Some (array_of dep_of 49 (unat (ah_dep_count h)) b))
              (read_image d (unat dep_offset) (unat (ah_dep_count h) * 49))
     else Some None)"

definition ardmod_load :: "(nat \<Rightarrow> bool) \<Rightarrow> u8 list option \<Rightarrow> ardmod_handle option option" where
  "ardmod_load mem data =
    (case data of
       None \<Rightarrow> Some None
     | Some d \<Rightarrow>
         if length d < 100 then Some None
         else if \<not> mem 0 then Some None
         else
           let h = mod_header_of (take 100 d) in
           if ah_magic h \<noteq> ARDMOD_MAGIC then Some None
           else if ah_version h \<noteq> ARDMOD_VERSION then Some None
           else if \<not> ardmod_verify_crc (Some d) then Some None
           else if \<not> mem 1 then Some None
           else case load_symbols (mem 2) h d of
             None \<Rightarrow> None
           | Some syms \<Rightarrow>
               (case load_deps (mem 3) h d of
                  None \<Rightarrow> None
                | Some deps \<Rightarrow>
                    Some (Some \<lparr>mh_header = h, mh_data = d, mh_size = length d, mh_symbols = syms, mh_deps = deps, mh_loaded = True\<rparr>)))"

definition ardmod_register_symbols :: "ardmod_handle option \<Rightarrow> int" where
  "ardmod_register_symbols handle = (case handle of None \<Rightarrow> -1 | Some h \<Rightarrow> if \<not> mh_loaded h then -1 else 0)"

definition ardmod_resolve_deps :: "ardmod_handle option \<Rightarrow> int" where
  "ardmod_resolve_deps handle = (case handle of None \<Rightarrow> -1 | Some h \<Rightarrow> if \<not> mh_loaded h then -1 else 0)"

definition c_string :: "u8 list \<Rightarrow> u8 list" where
  "c_string b = takeWhile (\<lambda>c. c \<noteq> 0) b"

fun get_symbol_loop :: "u32 \<Rightarrow> u8 list \<Rightarrow> ardmod_symbol list \<Rightarrow> u32 option" where
  "get_symbol_loop load_addr name [] = None"
| "get_symbol_loop load_addr name (s # ss) =
    (if c_string (symbol_bytes s) = name then Some (load_addr + as_address s) else get_symbol_loop load_addr name ss)"

definition ardmod_get_symbol :: "ardmod_handle option \<Rightarrow> u8 list option \<Rightarrow> u32 option option" where
  "ardmod_get_symbol handle name =
    (case (handle, name) of
       (Some h, Some name) \<Rightarrow>
         if \<not> mh_loaded h then Some None
         else if ah_symbol_count (mh_header h) = 0 then Some None
         else (case mh_symbols h of
            None \<Rightarrow> None
          | Some ss \<Rightarrow> Some (get_symbol_loop (ah_load_addr (mh_header h)) name ss))
     | _ \<Rightarrow> Some None)"

text \<open>\<open>want\<close>: whether the caller passes an array to fill. The copy reads through a NULL table.\<close>

definition ardmod_get_symbols :: "ardmod_handle option \<Rightarrow> bool \<Rightarrow> nat \<Rightarrow> (int \<times> ardmod_symbol list \<times> nat) option" where
  "ardmod_get_symbols handle want max_symbols =
    (case handle of
       None \<Rightarrow> Some (-1, [], 0)
     | Some h \<Rightarrow>
         if \<not> mh_loaded h then Some (-1, [], 0)
         else
           let n = unat (ah_symbol_count (mh_header h));
               copy_count = (if n < max_symbols then n else max_symbols)
           in if \<not> want \<or> copy_count = 0 then Some (0, [], n)
              else (case mh_symbols h of
                 None \<Rightarrow> None
               | Some ss \<Rightarrow> Some (0, take copy_count ss, n)))"

definition create_header :: "u8 list \<Rightarrow> u32 \<Rightarrow> nat \<Rightarrow> nat \<Rightarrow> nat \<Rightarrow> nat \<Rightarrow> ardmod_header" where
  "create_header name ty symbol_count dep_count manifest_size total_size =
    \<lparr>ah_magic = ARDMOD_MAGIC, ah_version = ARDMOD_VERSION, ah_flags = 0, ah_size = of_nat total_size, ah_crc32 = 0,
     ah_name = array0 (ARDMOD_NAME_MAX - 1) name, ah_version_str = array0 15 [0x31, 0x2E, 0x30, 0x2E, 0x30], ah_type = ty,
     ah_load_addr = 0, ah_entry_point = 0, ah_bss_size = 0, ah_data_size = 0, ah_symbol_count = of_nat symbol_count,
     ah_dep_count = of_nat dep_count, ah_manifest_offset = 100, ah_code_offset = of_nat (100 + manifest_size)\<rparr>"

definition ardmod_create :: "bool \<Rightarrow> u8 list option \<Rightarrow> u32 \<Rightarrow> u8 list option \<Rightarrow> ardmod_symbol list option \<Rightarrow> nat \<Rightarrow>
    ardmod_dep list option \<Rightarrow> nat \<Rightarrow> u8 list option" where
  "ardmod_create mem name ty code symbols symbol_count deps dep_count =
    (case (name, code) of
       (Some name, Some code) \<Rightarrow>
         if symbol_count > ARDMOD_MAX_SYMBOLS then None
         else if dep_count > ARDMOD_MAX_DEPS then None
         else
           let manifest_size = symbol_count * 40 + dep_count * 49;
               total_size = 100 + manifest_size + length code
           in if \<not> mem then None
              else
                let h = create_header name ty symbol_count dep_count manifest_size total_size;
                    data = replicate total_size 0;
                    data = blit data 0 (mod_header_bytes h);
                    data = (case symbols of None \<Rightarrow> data | Some ss \<Rightarrow> blit data 100 (concat (map symbol_bytes (take symbol_count ss))));
                    data = (case deps of None \<Rightarrow> data
                            | Some ds \<Rightarrow> blit data (100 + symbol_count * 40) (concat (map dep_bytes (take dep_count ds))));
                    data = blit data (100 + manifest_size) code;
                    crc = crc32_update 0 data
                in Some (blit data 12 (u32_bytes crc))
     | _ \<Rightarrow> None)"

definition ardmod_get_name :: "ardmod_handle option \<Rightarrow> u8 list option" where
  "ardmod_get_name handle = map_option (\<lambda>h. c_string (ah_name (mh_header h))) handle"

definition ardmod_get_version :: "ardmod_handle option \<Rightarrow> u8 list option" where
  "ardmod_get_version handle = map_option (\<lambda>h. c_string (ah_version_str (mh_header h))) handle"

definition ardmod_get_entry_point :: "ardmod_handle option \<Rightarrow> u32" where
  "ardmod_get_entry_point handle = (case handle of None \<Rightarrow> 0 | Some h \<Rightarrow> ah_entry_point (mh_header h))"

section \<open>Structures and their bytes\<close>

definition header_ok :: "ardmod_header \<Rightarrow> bool" where
  "header_ok h \<longleftrightarrow> length (ah_name h) = 32 \<and> length (ah_version_str h) = 16"

definition symbol_ok :: "ardmod_symbol \<Rightarrow> bool" where
  "symbol_ok s \<longleftrightarrow> length (as_name s) = 32"

definition dep_ok :: "ardmod_dep \<Rightarrow> bool" where
  "dep_ok d \<longleftrightarrow> length (ad_name d) = 32 \<and> length (ad_version d) = 16"

lemma length_array0 [simp]: "length (array0 n s) = n + 1"
  by (simp add: array0_def)

lemma length_mod_bytes [simp]:
  "header_ok h \<Longrightarrow> length (mod_header_bytes h) = 100" "symbol_ok s \<Longrightarrow> length (symbol_bytes s) = 40" "dep_ok d \<Longrightarrow> length (dep_bytes d) = 49"
  by (simp_all add: header_ok_def symbol_ok_def dep_ok_def mod_header_bytes_def symbol_bytes_def dep_bytes_def)

lemma u32_at_append: "length a = n \<Longrightarrow> u32_at (a @ u32_bytes w @ b) n = w"
  unfolding u32_at_def u32_bytes_def by (simp add: nth_append le32_split [unfolded One_nat_def])

lemma u16_at_append: "length a = n \<Longrightarrow> u16_at (a @ u16_bytes w @ b) n = w"
  unfolding u16_at_def u16_bytes_def by (simp add: nth_append le16_split)

lemma slice_append: "length a = n \<Longrightarrow> length b = k \<Longrightarrow> slice n k (a @ b @ c) = b"
  by (simp add: slice_def)

lemma symbol_of_bytes: "symbol_ok s \<Longrightarrow> symbol_of (symbol_bytes s) = s"
  using slice_append [of "[]" 0 "as_name s" 32] u32_at_append [of "as_name s" 32 "as_address s"]
    u32_at_append [of "as_name s @ u32_bytes (as_address s)" 36 "as_type s" "[]"]
  by (simp add: symbol_of_def symbol_bytes_def symbol_ok_def)

lemma dep_of_bytes: "dep_ok d \<Longrightarrow> dep_of (dep_bytes d) = d"
  using slice_append [of "[]" 0 "ad_name d" 32] slice_append [of "ad_name d" 32 "ad_version d" 16]
  by (simp add: dep_of_def dep_bytes_def dep_ok_def nth_append)

lemma mod_header_of_bytes: "header_ok h \<Longrightarrow> mod_header_of (mod_header_bytes h) = h"
proof -
  assume ok: "header_ok h"
  define p where "p = u32_bytes (ah_magic h) @ u16_bytes (ah_version h) @ u16_bytes (ah_flags h) @ u32_bytes (ah_size h) @ u32_bytes (ah_crc32 h)"
  define q where "q = p @ ah_name h @ ah_version_str h"
  define r where "r = u32_bytes (ah_type h) @ u32_bytes (ah_load_addr h) @ u32_bytes (ah_entry_point h) @ u32_bytes (ah_bss_size h) @
    u32_bytes (ah_data_size h) @ u32_bytes (ah_symbol_count h) @ u32_bytes (ah_dep_count h) @ u32_bytes (ah_manifest_offset h) @
    u32_bytes (ah_code_offset h)"
  have lp: "length p = 16" by (simp add: p_def)
  have lq: "length q = 64" using ok by (simp add: q_def lp header_ok_def)
  have b: "mod_header_bytes h = q @ r" by (simp add: mod_header_bytes_def p_def q_def r_def)
  have s: "u32_at (q @ r) 0 = ah_magic h" "u16_at (q @ r) 4 = ah_version h" "u16_at (q @ r) 6 = ah_flags h"
    "u32_at (q @ r) 8 = ah_size h" "u32_at (q @ r) 12 = ah_crc32 h"
    unfolding q_def p_def
    using u32_at_append [of "[]" 0 "ah_magic h"] u16_at_append [of "u32_bytes (ah_magic h)" 4 "ah_version h"]
      u16_at_append [of "u32_bytes (ah_magic h) @ u16_bytes (ah_version h)" 6 "ah_flags h"]
      u32_at_append [of "u32_bytes (ah_magic h) @ u16_bytes (ah_version h) @ u16_bytes (ah_flags h)" 8 "ah_size h"]
      u32_at_append [of "u32_bytes (ah_magic h) @ u16_bytes (ah_version h) @ u16_bytes (ah_flags h) @ u32_bytes (ah_size h)" 12 "ah_crc32 h"]
    by simp_all
  have n: "slice 16 32 (q @ r) = ah_name h" "slice 48 16 (q @ r) = ah_version_str h"
    unfolding q_def using slice_append [of p 16 "ah_name h" 32] slice_append [of "p @ ah_name h" 48 "ah_version_str h" 16] lp ok
    by (simp_all add: header_ok_def)
  have sh: "u32_at (q @ r) (64 + i) = u32_at r i" for i
    by (simp add: u32_at_def nth_append lq ac_simps)
  have t: "u32_at r 0 = ah_type h" "u32_at r 4 = ah_load_addr h" "u32_at r 8 = ah_entry_point h" "u32_at r 12 = ah_bss_size h"
    "u32_at r 16 = ah_data_size h" "u32_at r 20 = ah_symbol_count h" "u32_at r 24 = ah_dep_count h"
    "u32_at r 28 = ah_manifest_offset h" "u32_at r 32 = ah_code_offset h"
    unfolding r_def u32_at_def u32_bytes_def by (simp_all add: le32_split [unfolded One_nat_def])
  show ?thesis unfolding b mod_header_of_def s n
    using t sh [of 0] sh [of 4] sh [of 8] sh [of 12] sh [of 16] sh [of 20] sh [of 24] sh [of 28] sh [of 32] by simp
qed

lemma length_concat_const: "(\<And>x. x \<in> set xs \<Longrightarrow> length (f x) = k) \<Longrightarrow> length (concat (map f xs)) = k * length xs"
  by (induction xs) auto

lemma array_of_concat:
  assumes "\<And>x. x \<in> set xs \<Longrightarrow> length (g x) = k \<and> f (g x) = x"
  shows "array_of f k (length xs) (concat (map g xs)) = xs"
proof -
  have "slice (k * i) k (concat (map g xs)) = g (xs ! i)" if "i < length xs" for i
    using that assms
  proof (induction xs arbitrary: i)
    case (Cons x xs)
    then show ?case by (cases i) (auto simp: slice_def)
  qed simp
  then show ?thesis using assms by (intro nth_equalityI) (auto simp: array_of_def)
qed

section \<open>Building and loading\<close>

lemma blit_append: "length a = n \<Longrightarrow> length b = length c \<Longrightarrow> blit (a @ b @ d) n c = a @ c @ d"
  by (simp add: blit_def)

lemma header_crc_bytes:
  assumes "header_ok h"
  shows "blit (mod_header_bytes h @ rest) 12 (u32_bytes c) = mod_header_bytes (h\<lparr>ah_crc32 := c\<rparr>) @ rest"
  using blit_append [of "u32_bytes (ah_magic h) @ u16_bytes (ah_version h) @ u16_bytes (ah_flags h) @ u32_bytes (ah_size h)" 12
      "u32_bytes (ah_crc32 h)" "u32_bytes c"]
  by (simp add: mod_header_bytes_def)

lemma header_ok_crc [simp]: "header_ok (h\<lparr>ah_crc32 := c\<rparr>) = header_ok h"
  by (simp add: header_ok_def)

text \<open>An image sealed with its own checksum is accepted.\<close>

lemma sealed_verifies:
  assumes ok: "header_ok h" and z: "ah_crc32 h = 0"
  shows "ardmod_verify_crc (Some (mod_header_bytes (h\<lparr>ah_crc32 := crc32_update 0 (mod_header_bytes h @ rest)\<rparr>) @ rest))"
proof -
  let ?h = "h\<lparr>ah_crc32 := crc32_update 0 (mod_header_bytes h @ rest)\<rparr>"
  have z4: "[0, 0, 0, 0] = u32_bytes 0" by (simp add: u32_bytes_def byte_at_def)
  have "blit (mod_header_bytes ?h) 12 [0, 0, 0, 0] = mod_header_bytes (?h\<lparr>ah_crc32 := 0\<rparr>)"
    using header_crc_bytes [of ?h "[]" 0] ok unfolding z4 by simp
  also have "?h\<lparr>ah_crc32 := 0\<rparr> = h" using z by simp
  finally show ?thesis using ok
    by (auto simp: ardmod_verify_crc_def Let_def mod_header_of_bytes crc32_update_append)
qed

lemma create_image:
  assumes ss: "\<forall>s\<in>set ss. symbol_ok s" "length ss \<le> 64" and ds: "\<forall>d\<in>set ds. dep_ok d" "length ds \<le> 16"
    and h: "h = create_header name ty (length ss) (length ds) (length ss * 40 + length ds * 49)
      (100 + (length ss * 40 + length ds * 49) + length code)"
    and rest: "rest = concat (map symbol_bytes ss) @ concat (map dep_bytes ds) @ code"
  shows "ardmod_create True (Some name) ty (Some code) (Some ss) (length ss) (Some ds) (length ds) =
    Some (mod_header_bytes (h\<lparr>ah_crc32 := crc32_update 0 (mod_header_bytes h @ rest)\<rparr>) @ rest)"
proof -
  have ok: "header_ok h" by (simp add: h header_ok_def create_header_def ARDMOD_NAME_MAX_def)
  have ls: "length (concat (map symbol_bytes ss)) = length ss * 40" using ss(1) by (subst length_concat_const [of _ _ 40]) auto
  have ld: "length (concat (map dep_bytes ds)) = length ds * 49" using ds(1) by (subst length_concat_const [of _ _ 49]) auto
  have b0: "blit (replicate (100 + (length ss * 40 + length ds * 49) + length code) 0) 0 (mod_header_bytes h) =
      mod_header_bytes h @ replicate (length ss * 40) 0 @ replicate (length ds * 49) 0 @ replicate (length code) 0"
    using ok by (simp add: blit_def replicate_add)
  have b1: "blit (mod_header_bytes h @ replicate (length ss * 40) 0 @ z) 100 (concat (map symbol_bytes ss)) =
      mod_header_bytes h @ concat (map symbol_bytes ss) @ z" for z
    using ok ls by (intro blit_append) simp_all
  have b2: "blit (mod_header_bytes h @ concat (map symbol_bytes ss) @ replicate (length ds * 49) 0 @ z) (100 + length ss * 40)
      (concat (map dep_bytes ds)) = (mod_header_bytes h @ concat (map symbol_bytes ss)) @ concat (map dep_bytes ds) @ z" for z
    using blit_append [of "mod_header_bytes h @ concat (map symbol_bytes ss)" "100 + length ss * 40" "replicate (length ds * 49) 0" "concat (map dep_bytes ds)" z] ok ls ld by simp
  have b3: "blit ((mod_header_bytes h @ concat (map symbol_bytes ss)) @ concat (map dep_bytes ds) @ replicate (length code) 0)
      (100 + (length ss * 40 + length ds * 49)) code = mod_header_bytes h @ rest"
    using blit_append [of "mod_header_bytes h @ concat (map symbol_bytes ss) @ concat (map dep_bytes ds)"
      "100 + (length ss * 40 + length ds * 49)" "replicate (length code) 0" code "[]"] ok ls ld by (simp add: rest)
  show ?thesis
    unfolding ardmod_create_def Let_def prod.case option.case h [symmetric] take_all [OF order_refl] b0 b1 b2 b3
    using ss(2) ds(2) header_crc_bytes [OF ok] by (simp add: ARDMOD_MAX_SYMBOLS_def ARDMOD_MAX_DEPS_def)
qed

lemma read_image_part: "length a = off \<Longrightarrow> length b = n \<Longrightarrow> read_image (a @ b @ c) off n = Some b"
  by (simp add: read_image_def slice_append)

text \<open>The tables of an image laid out as \<open>ardmod_create\<close> lays it out.\<close>

lemma load_tables:
  assumes ss: "\<forall>s\<in>set ss. symbol_ok s" "length ss \<le> 64" and ds: "\<forall>d\<in>set ds. dep_ok d" "length ds \<le> 16"
    and h: "ah_symbol_count h = of_nat (length ss)" "ah_dep_count h = of_nat (length ds)" "ah_manifest_offset h = 100" and hb: "length hb = 100"
  shows "load_symbols True h (hb @ concat (map symbol_bytes ss) @ concat (map dep_bytes ds) @ code) = Some (if ss = [] then None else Some ss)"
    and "load_deps True h (hb @ concat (map symbol_bytes ss) @ concat (map dep_bytes ds) @ code) = Some (if ds = [] then None else Some ds)"
proof -
  have us: "unat (of_nat (length ss) :: u32) = length ss" and ud: "unat (of_nat (length ds) :: u32) = length ds"
    using ss(2) ds(2) by (simp_all add: unat_of_nat take_bit_eq_mod)
  have zs: "(0 < (of_nat (length ss) :: u32)) = (ss \<noteq> [])" and zd: "(0 < (of_nat (length ds) :: u32)) = (ds \<noteq> [])"
    using us ud by (auto simp: word_less_nat_alt)
  have ls: "length (concat (map symbol_bytes ss)) = length ss * 40" using ss(1) by (subst length_concat_const [of _ _ 40]) auto
  have ld: "length (concat (map dep_bytes ds)) = length ds * 49" using ds(1) by (subst length_concat_const [of _ _ 49]) auto
  have off: "unat (100 + of_nat (length ss) * 40 :: u32) = 100 + length ss * 40"
  proof -
    have "(100 + of_nat (length ss) * 40 :: u32) = of_nat (100 + length ss * 40)" by simp
    then show ?thesis using ss(2) by (simp only: unat_of_nat) (simp add: take_bit_eq_mod)
  qed
  have as: "array_of symbol_of 40 (length ss) (concat (map symbol_bytes ss)) = ss"
    using ss(1) by (intro array_of_concat) (simp add: symbol_of_bytes)
  have ad: "array_of dep_of 49 (length ds) (concat (map dep_bytes ds)) = ds"
    using ds(1) by (intro array_of_concat) (simp add: dep_of_bytes)
  show "load_symbols True h (hb @ concat (map symbol_bytes ss) @ concat (map dep_bytes ds) @ code) = Some (if ss = [] then None else Some ss)"
    using read_image_part [OF hb ls] by (simp add: load_symbols_def h us zs as)
  show "load_deps True h (hb @ concat (map symbol_bytes ss) @ concat (map dep_bytes ds) @ code) = Some (if ds = [] then None else Some ds)"
    using read_image_part [of "hb @ concat (map symbol_bytes ss)" "100 + length ss * 40" "concat (map dep_bytes ds)" "length ds * 49" code] hb ls ld
    by (simp add: load_deps_def h ud zd ad off)
qed

lemma get_symbol_loop_find:
  "get_symbol_loop a name ss = map_option (\<lambda>s. a + as_address s) (find (\<lambda>s. c_string (symbol_bytes s) = name) ss)"
  by (induction ss) auto

text \<open>
  C10: Loading the image that \<open>ardmod_create\<close> builds succeeds and gives back what was put in: the sealed header
  with the counts and the checksum, every symbol and every dependency in order; and looking a name up in the
  loaded module gives the address of the first symbol with that name, or NULL when there is none.
\<close>

theorem ardmod_roundtrip:
  assumes "\<forall>s\<in>set ss. symbol_ok s" and "length ss \<le> 64" and "\<forall>d\<in>set ds. dep_ok d" and "length ds \<le> 16"
  shows "\<exists>img mh. ardmod_create True (Some name) ty (Some code) (Some ss) (length ss) (Some ds) (length ds) = Some img \<and>
    ardmod_load (\<lambda>n. True) (Some img) = Some (Some mh) \<and> mh_data mh = img \<and> opt_buf (mh_symbols mh) = ss \<and> opt_buf (mh_deps mh) = ds \<and>
    ah_type (mh_header mh) = ty \<and> drop (unat (ah_code_offset (mh_header mh))) img = code \<and>
    ardmod_get_symbol (Some mh) (Some key) =
      Some (map_option as_address (find (\<lambda>s. c_string (symbol_bytes s) = key) ss))"
proof -
  define h where "h = create_header name ty (length ss) (length ds) (length ss * 40 + length ds * 49)
    (100 + (length ss * 40 + length ds * 49) + length code)"
  define rest where "rest = concat (map symbol_bytes ss) @ concat (map dep_bytes ds) @ code"
  define h' where "h' = h\<lparr>ah_crc32 := crc32_update 0 (mod_header_bytes h @ rest)\<rparr>"
  have ok: "header_ok h" "header_ok h'" by (simp_all add: h'_def) (simp_all add: h_def header_ok_def create_header_def ARDMOD_NAME_MAX_def)
  have f: "ah_symbol_count h' = of_nat (length ss)" "ah_dep_count h' = of_nat (length ds)" "ah_manifest_offset h' = 100"
    "ah_magic h' = ARDMOD_MAGIC" "ah_version h' = ARDMOD_VERSION" "ah_type h' = ty" "ah_load_addr h' = 0"
    "ah_code_offset h' = of_nat (100 + (length ss * 40 + length ds * 49))"
    by (simp_all add: h'_def h_def create_header_def)
  have v: "ardmod_verify_crc (Some (mod_header_bytes h' @ rest))" unfolding h'_def
    by (rule sealed_verifies [OF ok(1)]) (simp add: h_def create_header_def)
  have t: "load_symbols True h' (mod_header_bytes h' @ rest) = Some (if ss = [] then None else Some ss)"
    "load_deps True h' (mod_header_bytes h' @ rest) = Some (if ds = [] then None else Some ds)"
    unfolding rest_def by (rule load_tables [OF assms f(1-3) length_mod_bytes(1) [OF ok(2)]])+
  define mh where "mh = \<lparr>mh_header = h', mh_data = mod_header_bytes h' @ rest, mh_size = length (mod_header_bytes h' @ rest),
    mh_symbols = (if ss = [] then None else Some ss), mh_deps = (if ds = [] then None else Some ds), mh_loaded = True\<rparr>"
  have l: "ardmod_load (\<lambda>n. True) (Some (mod_header_bytes h' @ rest)) = Some (Some mh)"
    using v t ok(2) f by (simp add: ardmod_load_def mod_header_of_bytes mh_def)
  have us: "unat (of_nat (length ss) :: u32) = length ss" using assms(2) by (simp add: unat_of_nat take_bit_eq_mod)
  have c: "unat (ah_code_offset h') = 100 + (length ss * 40 + length ds * 49)"
    using assms(2,4) unfolding f(8) by (simp only: unat_of_nat) (simp add: take_bit_eq_mod)
  have ls: "length (concat (map symbol_bytes ss)) = length ss * 40" "length (concat (map dep_bytes ds)) = length ds * 49"
    using assms(1,3) by (simp_all add: length_concat_const [of ss symbol_bytes 40] length_concat_const [of ds dep_bytes 49])
  have d: "drop (unat (ah_code_offset h')) (mod_header_bytes h' @ rest) = code" using ok(2) ls by (simp add: c rest_def)
  have g: "ardmod_get_symbol (Some mh) (Some key) = Some (map_option as_address (find (\<lambda>s. c_string (symbol_bytes s) = key) ss))"
  proof (cases "ss = []")
    case False
    then have "(of_nat (length ss) :: u32) \<noteq> 0" using us by (metis length_0_conv unat_0)
    then show ?thesis using False by (simp add: ardmod_get_symbol_def mh_def f get_symbol_loop_find)
  qed (simp add: ardmod_get_symbol_def mh_def f)
  show ?thesis using create_image [OF assms h_def rest_def] l d g f(6)
    by (intro exI [of _ "mod_header_bytes h' @ rest"] exI [of _ mh]) (simp add: mh_def h'_def)
qed

theorem ardmod_roundtrip_witness:
  "\<exists>img mh. ardmod_create True (Some [109]) 1 (Some [1, 2, 3]) (Some [\<lparr>as_name = 102 # replicate 31 0, as_address = 16, as_type = 0\<rparr>]) 1
      (Some []) 0 = Some img \<and>
    ardmod_load (\<lambda>n. True) (Some img) = Some (Some mh) \<and> ardmod_get_symbol (Some mh) (Some [102]) = Some (Some 16)"
  using ardmod_roundtrip [of "[\<lparr>as_name = 102 # replicate 31 0, as_address = 16, as_type = 0\<rparr>]" "[]" "[109]" 1 "[1, 2, 3]" "[102]"]
  by (auto simp: symbol_ok_def symbol_bytes_def c_string_def)

text \<open>
  C31: The checksum is the only check of the image's tables. For an image with a right checksum whose header
  counts more symbols than the image has bytes for after the manifest offset, \<open>ardmod_load\<close> reads outside
  the buffer it was given.
\<close>

theorem ardmod_load_overrun:
  assumes "header_ok h" and "ah_magic h = ARDMOD_MAGIC" and "ah_version h = ARDMOD_VERSION" and "ah_crc32 h = 0"
    and "0 < ah_symbol_count h" and "0 < ah_manifest_offset h"
    and "100 + length rest < unat (ah_manifest_offset h) + unat (ah_symbol_count h) * 40"
  shows "ardmod_load (\<lambda>n. True) (Some (mod_header_bytes (h\<lparr>ah_crc32 := crc32_update 0 (mod_header_bytes h @ rest)\<rparr>) @ rest)) = None"
proof -
  define h' where "h' = h\<lparr>ah_crc32 := crc32_update 0 (mod_header_bytes h @ rest)\<rparr>"
  have f: "header_ok h'" "ah_magic h' = ARDMOD_MAGIC" "ah_version h' = ARDMOD_VERSION" "ah_symbol_count h' = ah_symbol_count h"
    "ah_manifest_offset h' = ah_manifest_offset h"
    using assms by (simp_all add: h'_def)
  have v: "ardmod_verify_crc (Some (mod_header_bytes h' @ rest))" unfolding h'_def by (rule sealed_verifies [OF assms(1,4)])
  have "load_symbols True h' (mod_header_bytes h' @ rest) = None"
    using assms(5-7) f by (simp add: load_symbols_def read_image_def)
  then show ?thesis using v f unfolding h'_def [symmetric] by (simp add: ardmod_load_def mod_header_of_bytes)
qed

theorem ardmod_load_overrun_witness:
  "\<exists>img. ardmod_verify_crc (Some img) \<and> length img = 100 \<and> ardmod_load (\<lambda>n. True) (Some img) = None"
proof -
  define h where "h = create_header [] 0 1 0 0 100"
  have ok: "header_ok h" "ah_crc32 h = 0" by (simp_all add: h_def header_ok_def create_header_def ARDMOD_NAME_MAX_def)
  have "ardmod_load (\<lambda>n. True) (Some (mod_header_bytes (h\<lparr>ah_crc32 := crc32_update 0 (mod_header_bytes h @ [])\<rparr>) @ [])) = None"
    by (rule ardmod_load_overrun) (use ok in \<open>simp_all add: h_def create_header_def\<close>)
  then show ?thesis using sealed_verifies [OF ok, of "[]"] ok by (intro exI conjI) (assumption, simp_all)
qed

end
