(* ===== verification/Input_Service.thy ===== *)
theory Input_Service
  imports Ring_Queue
begin

text \<open>
  The input service, \<^verbatim>\<open>apps/input.c\<close>: registered devices, key mappings, the classification of key presses, the
  event queue and its delivery, and gesture recognizers. The state is the structure \<^verbatim>\<open>g_input\<close>; device and
  mapping tables are lists (the array up to its count). Callbacks and their arguments are numbers; what a
  callback does is a parameter of the delivery. The operations that take the spin lock return \<open>None\<close> when it is held,
  for then they do not return. A key is used as an array index; a key outside the array is the result \<open>None\<close>
  of \<open>process_key_event\<close>. The tick count is an argument.
\<close>

definition INPUT_EVENT_QUEUE_SIZE :: nat where "INPUT_EVENT_QUEUE_SIZE = 64"
definition INPUT_MAX_DEVICES :: nat where "INPUT_MAX_DEVICES = 8"
definition INPUT_MAX_GESTURES :: nat where "INPUT_MAX_GESTURES = 16"
definition INPUT_MAP_MAX :: nat where "INPUT_MAP_MAX = 32"
definition INPUT_KEY_MAX :: nat where "INPUT_KEY_MAX = 46"

datatype input_device_type = INPUT_DEV_KEYBOARD | INPUT_DEV_KEYPAD | INPUT_DEV_NAV5 | INPUT_DEV_ENCODER | INPUT_DEV_TOUCH |
  INPUT_DEV_BUTTONS | INPUT_DEV_CUSTOM

datatype input_event_type = INPUT_EVENT_NONE | INPUT_EVENT_KEY_DOWN | INPUT_EVENT_KEY_UP | INPUT_EVENT_KEY_REPEAT |
  INPUT_EVENT_BUTTON_TAP | INPUT_EVENT_BUTTON_LONG_TAP | INPUT_EVENT_BUTTON_DOUBLE_TAP | INPUT_EVENT_BUTTON_HOLD |
  INPUT_EVENT_BUTTON_RELEASE | INPUT_EVENT_ENCODER_CW | INPUT_EVENT_ENCODER_CCW | INPUT_EVENT_TOUCH_DOWN | INPUT_EVENT_TOUCH_UP |
  INPUT_EVENT_TOUCH_MOVE | INPUT_EVENT_GESTURE_TAP | INPUT_EVENT_GESTURE_LONG_PRESS | INPUT_EVENT_GESTURE_DRAG |
  INPUT_EVENT_GESTURE_SWIPE | INPUT_EVENT_GESTURE_PINCH

datatype input_map_type = INPUT_MAP_TYPE_KEY | INPUT_MAP_TYPE_BUTTON | INPUT_MAP_TYPE_AXIS

record input_event =
  ie_type :: input_event_type
  ie_key :: nat
  ie_timestamp :: u32
  ie_app_id :: u32
  ie_x :: u16
  ie_y :: u16
  ie_dx :: u16
  ie_dy :: u16
  ie_pressure :: u16
  ie_duration_ms :: u32
  ie_tap_count :: u8

record input_mapping =
  im_type :: input_map_type
  im_source_key :: u32
  im_target_action :: u32
  im_app_id :: u32
  im_enabled :: bool

record input_device =
  id_name :: string
  id_type :: input_device_type
  id_mappings :: "input_mapping list"
  id_callback :: "nat option"
  id_callback_arg :: nat
  id_active :: bool

record input_config =
  tap_threshold_ms :: u32
  long_press_threshold_ms :: u32
  double_tap_threshold_ms :: u32
  hold_threshold_ms :: u32
  swipe_threshold_px :: u32
  drag_threshold_px :: u32
  pinch_threshold_px :: u32

record input_state =
  in_devices :: "input_device list"
  in_config :: input_config
  in_event_queue :: "input_event list"
  in_queue_head :: nat
  in_queue_tail :: nat
  in_queue_count :: nat
  in_last_key_states :: "u32 list"
  in_key_repeat_states :: "u32 list"
  in_lock :: bool

definition input_event_zero :: input_event where
  "input_event_zero = \<lparr>ie_type = INPUT_EVENT_NONE, ie_key = 0, ie_timestamp = 0, ie_app_id = 0, ie_x = 0, ie_y = 0, ie_dx = 0,
     ie_dy = 0, ie_pressure = 0, ie_duration_ms = 0, ie_tap_count = 0\<rparr>"

definition input_config_zero :: input_config where
  "input_config_zero = \<lparr>tap_threshold_ms = 0, long_press_threshold_ms = 0, double_tap_threshold_ms = 0, hold_threshold_ms = 0,
     swipe_threshold_px = 0, drag_threshold_px = 0, pinch_threshold_px = 0\<rparr>"

definition input_state_zero :: input_state where
  "input_state_zero = \<lparr>in_devices = [], in_config = input_config_zero,
     in_event_queue = replicate INPUT_EVENT_QUEUE_SIZE input_event_zero, in_queue_head = 0, in_queue_tail = 0, in_queue_count = 0,
     in_last_key_states = replicate INPUT_KEY_MAX 0, in_key_repeat_states = replicate INPUT_KEY_MAX 0, in_lock = False\<rparr>"

section \<open>The event queue\<close>

definition input_queue_event :: "input_event \<Rightarrow> input_state \<Rightarrow> int \<times> input_state" where
  "input_queue_event ev s =
    (if in_queue_count s \<ge> INPUT_EVENT_QUEUE_SIZE then (-1, s)
     else (0, s\<lparr>in_event_queue := (in_event_queue s)[in_queue_tail s := ev],
                in_queue_tail := (in_queue_tail s + 1) mod INPUT_EVENT_QUEUE_SIZE,
                in_queue_count := in_queue_count s + 1\<rparr>))"

definition input_front :: "input_state \<Rightarrow> input_event" where
  "input_front s = in_event_queue s ! in_queue_head s"

definition input_dequeue :: "input_state \<Rightarrow> input_state" where
  "input_dequeue s = s\<lparr>in_queue_head := (in_queue_head s + 1) mod INPUT_EVENT_QUEUE_SIZE, in_queue_count := in_queue_count s - 1\<rparr>"

section \<open>Initialisation and devices\<close>

definition input_config_default :: input_config where
  "input_config_default = \<lparr>tap_threshold_ms = 300, long_press_threshold_ms = 500, double_tap_threshold_ms = 400,
     hold_threshold_ms = 1000, swipe_threshold_px = 30, drag_threshold_px = 10, pinch_threshold_px = 20\<rparr>"

definition input_init :: "input_config option \<Rightarrow> input_state" where
  "input_init config = input_state_zero\<lparr>in_config := (case config of Some c \<Rightarrow> c | None \<Rightarrow> input_config_default)\<rparr>"

definition input_deinit :: "input_state \<Rightarrow> input_state option" where
  "input_deinit s = (if in_lock s then None else Some input_state_zero)"

definition device_new :: "input_device_type \<Rightarrow> string \<Rightarrow> nat option \<Rightarrow> nat \<Rightarrow> input_device" where
  "device_new ty name cb arg = \<lparr>id_name = strncpy0 31 name, id_type = ty, id_mappings = [], id_callback = cb, id_callback_arg = arg,
     id_active = True\<rparr>"

definition input_device_register ::
    "input_device_type \<Rightarrow> string option \<Rightarrow> nat option \<Rightarrow> nat \<Rightarrow> input_state \<Rightarrow> (int \<times> input_state) option" where
  "input_device_register ty name cb arg s =
    (case name of
       None \<Rightarrow> Some (-1, s)
     | Some name \<Rightarrow>
         if in_lock s then None
         else if length (in_devices s) \<ge> INPUT_MAX_DEVICES then Some (-1, s)
         else if list_ex (\<lambda>d. id_name d = name) (in_devices s) then Some (-1, s)
         else Some (0, s\<lparr>in_devices := in_devices s @ [device_new ty name cb arg]\<rparr>))"

fun remove_device :: "string \<Rightarrow> input_device list \<Rightarrow> input_device list option" where
  "remove_device name [] = None"
| "remove_device name (d # ds) = (if id_name d = name then Some ds else map_option (Cons d) (remove_device name ds))"

definition input_device_unregister :: "string option \<Rightarrow> input_state \<Rightarrow> (int \<times> input_state) option" where
  "input_device_unregister name s =
    (case name of
       None \<Rightarrow> Some (-1, s)
     | Some name \<Rightarrow>
         if in_lock s then None
         else case remove_device name (in_devices s) of
           None \<Rightarrow> Some (-1, s)
         | Some ds \<Rightarrow> Some (0, s\<lparr>in_devices := ds\<rparr>))"

definition input_device_find :: "string option \<Rightarrow> input_state \<Rightarrow> input_device option option" where
  "input_device_find name s =
    (case name of
       None \<Rightarrow> Some None
     | Some name \<Rightarrow> if in_lock s then None else Some (find (\<lambda>d. id_name d = name) (in_devices s)))"

section \<open>Key presses\<close>

text \<open>The event of a press: the time is noted, and a second press in time is a double tap.\<close>

definition key_pressed :: "u32 \<Rightarrow> nat \<Rightarrow> input_state \<Rightarrow> input_event \<times> input_state" where
  "key_pressed now key s =
    (let s = s\<lparr>in_last_key_states := (in_last_key_states s)[key := now]\<rparr>;
         rep = in_key_repeat_states s ! key
     in if rep > 0 \<and> now - rep < double_tap_threshold_ms (in_config s)
        then (input_event_zero\<lparr>ie_type := INPUT_EVENT_BUTTON_DOUBLE_TAP, ie_tap_count := 2\<rparr>,
              s\<lparr>in_key_repeat_states := (in_key_repeat_states s)[key := 0]\<rparr>)
        else (input_event_zero\<lparr>ie_type := INPUT_EVENT_KEY_DOWN, ie_tap_count := 1\<rparr>,
              s\<lparr>in_key_repeat_states := (in_key_repeat_states s)[key := now]\<rparr>))"

text \<open>The event of a release, from the time the key was down.\<close>

definition key_released :: "u32 \<Rightarrow> nat \<Rightarrow> input_state \<Rightarrow> input_event" where
  "key_released now key s =
    (let duration = now - in_last_key_states s ! key in
     if duration \<ge> hold_threshold_ms (in_config s)
     then input_event_zero\<lparr>ie_type := INPUT_EVENT_BUTTON_RELEASE, ie_duration_ms := duration\<rparr>
     else if duration \<ge> long_press_threshold_ms (in_config s) then input_event_zero\<lparr>ie_type := INPUT_EVENT_BUTTON_LONG_TAP\<rparr>
     else if duration \<ge> tap_threshold_ms (in_config s) then input_event_zero\<lparr>ie_type := INPUT_EVENT_BUTTON_TAP\<rparr>
     else input_event_zero\<lparr>ie_type := INPUT_EVENT_KEY_UP\<rparr>)"

definition process_key_event :: "u32 \<Rightarrow> nat \<Rightarrow> bool \<Rightarrow> input_state \<Rightarrow> input_state option" where
  "process_key_event now key pressed s =
    (if key \<ge> INPUT_KEY_MAX then None
     else case (if pressed then key_pressed now key s else (key_released now key s, s)) of
       (ev, s) \<Rightarrow> Some (snd (input_queue_event (ev\<lparr>ie_key := key, ie_timestamp := now\<rparr>) s)))"

definition input_post_event :: "u32 \<Rightarrow> input_event option \<Rightarrow> input_state \<Rightarrow> (int \<times> input_state) option" where
  "input_post_event now event s =
    (case event of
       None \<Rightarrow> Some (-1, s)
     | Some ev \<Rightarrow>
         if ie_type ev = INPUT_EVENT_KEY_DOWN then map_option (Pair 0) (process_key_event now (ie_key ev) True s)
         else if ie_type ev = INPUT_EVENT_KEY_UP then map_option (Pair 0) (process_key_event now (ie_key ev) False s)
         else Some (input_queue_event ev s))"

section \<open>Mappings\<close>

fun set_mapping_loop :: "input_mapping \<Rightarrow> input_device list \<Rightarrow> input_device list option" where
  "set_mapping_loop m [] = None"
| "set_mapping_loop m (d # ds) =
    (if length (id_mappings d) < INPUT_MAP_MAX then Some (d\<lparr>id_mappings := id_mappings d @ [m]\<rparr> # ds)
     else map_option (Cons d) (set_mapping_loop m ds))"

definition input_set_mapping :: "u32 \<Rightarrow> input_map_type \<Rightarrow> u32 \<Rightarrow> u32 \<Rightarrow> input_state \<Rightarrow> (int \<times> input_state) option" where
  "input_set_mapping app_id ty source_key target_action s =
    (if in_lock s then None
     else case set_mapping_loop \<lparr>im_type = ty, im_source_key = source_key, im_target_action = target_action, im_app_id = app_id,
                 im_enabled = True\<rparr> (in_devices s) of
       None \<Rightarrow> Some (-1, s)
     | Some ds \<Rightarrow> Some (0, s\<lparr>in_devices := ds\<rparr>))"

text \<open>The loop over one device's mappings, which removes at \<open>j\<close> and looks at index \<open>j\<close> again.\<close>

function clear_loop :: "u32 \<Rightarrow> nat \<Rightarrow> input_mapping list \<Rightarrow> input_mapping list" where
  "clear_loop app_id j ms =
    (if j < length ms then
       if im_app_id (ms ! j) = app_id then clear_loop app_id j (take j ms @ drop (j + 1) ms)
       else clear_loop app_id (j + 1) ms
     else ms)"
  by pat_completeness auto
termination by (relation "measure (\<lambda>(a, j, ms). 2 * length ms - j)") auto

declare clear_loop.simps [simp del]

definition input_clear_mappings :: "u32 \<Rightarrow> input_state \<Rightarrow> (int \<times> input_state) option" where
  "input_clear_mappings app_id s =
    (if in_lock s then None
     else Some (0, s\<lparr>in_devices := map (\<lambda>d. d\<lparr>id_mappings := clear_loop app_id 0 (id_mappings d)\<rparr>) (in_devices s)\<rparr>))"

fun get_mapping_loop :: "u32 \<Rightarrow> u32 \<Rightarrow> input_device list \<Rightarrow> input_mapping option" where
  "get_mapping_loop app_id source_key [] = None"
| "get_mapping_loop app_id source_key (d # ds) =
    (case find (\<lambda>m. im_app_id m = app_id \<and> im_source_key m = source_key) (id_mappings d) of
       Some m \<Rightarrow> Some m
     | None \<Rightarrow> get_mapping_loop app_id source_key ds)"

definition input_get_mapping :: "u32 \<Rightarrow> u32 \<Rightarrow> input_state \<Rightarrow> (int \<times> u32 option) option" where
  "input_get_mapping app_id source_key s =
    (if in_lock s then None
     else Some (case get_mapping_loop app_id source_key (in_devices s) of
       Some m \<Rightarrow> (0, Some (im_target_action m)) | None \<Rightarrow> (-1, None)))"

section \<open>Delivery\<close>

text \<open>
  Callbacks run without the lock and may use the service: \<open>call cb arg ev\<close> changes the state of the service together
  with the rest of the world. The loop over the devices reads their number again after each call, and the loop over
  the queue goes on while there are events, those posted by callbacks included; not to return is \<open>None\<close>.
\<close>

partial_function (option) deliver_loop ::
    "(nat \<Rightarrow> nat \<Rightarrow> input_event \<Rightarrow> input_state \<times> 'w \<Rightarrow> input_state \<times> 'w) \<Rightarrow> input_event \<Rightarrow> nat \<Rightarrow> input_state \<times> 'w \<Rightarrow> (input_state \<times> 'w) option" where
  "deliver_loop call ev i st =
    (if i < length (in_devices (fst st))
     then let dev = in_devices (fst st) ! i in
       deliver_loop call ev (i + 1)
         (if id_active dev \<and> id_callback dev \<noteq> None then call (the (id_callback dev)) (id_callback_arg dev) ev st else st)
     else Some st)"

partial_function (option) process_loop ::
    "(nat \<Rightarrow> nat \<Rightarrow> input_event \<Rightarrow> input_state \<times> 'w \<Rightarrow> input_state \<times> 'w) \<Rightarrow> int \<Rightarrow> input_state \<times> 'w \<Rightarrow> (int \<times> input_state \<times> 'w) option" where
  "process_loop call processed st =
    (if in_lock (fst st) then None
     else if in_queue_count (fst st) > 0
     then (case deliver_loop call (input_front (fst st)) 0 (input_dequeue (fst st), snd st) of
             None \<Rightarrow> None
           | Some st \<Rightarrow> process_loop call (processed + 1) st)
     else Some (processed, st))"

definition input_process_events ::
    "(nat \<Rightarrow> nat \<Rightarrow> input_event \<Rightarrow> input_state \<times> 'w \<Rightarrow> input_state \<times> 'w) \<Rightarrow> input_state \<Rightarrow> 'w \<Rightarrow> (int \<times> input_state \<times> 'w) option" where
  "input_process_events call s w = process_loop call 0 (s, w)"

section \<open>Gesture recognizers\<close>

record recognizer_entry =
  re_gesture :: input_event_type
  re_cb :: nat
  re_arg :: nat
  re_active :: bool

type_synonym input_recognizer = "recognizer_entry list"

definition input_recognizer_create :: "bool \<Rightarrow> input_recognizer option" where
  "input_recognizer_create mem = (if mem then Some [] else None)"

definition input_recognizer_add_gesture ::
    "input_event_type \<Rightarrow> nat option \<Rightarrow> nat \<Rightarrow> input_recognizer option \<Rightarrow> int \<times> input_recognizer option" where
  "input_recognizer_add_gesture gesture cb arg rec =
    (case (rec, cb) of
       (Some es, Some f) \<Rightarrow>
         if length es \<ge> INPUT_MAX_GESTURES then (-1, rec)
         else (0, Some (es @ [\<lparr>re_gesture = gesture, re_cb = f, re_arg = arg, re_active = True\<rparr>]))
     | _ \<Rightarrow> (-1, rec))"

definition input_recognizer_dispatch :: "input_recognizer option \<Rightarrow> input_event option \<Rightarrow> int \<times> (nat \<times> nat \<times> input_event) list" where
  "input_recognizer_dispatch rec event =
    (case (rec, event) of
       (Some es, Some ev) \<Rightarrow>
         let calls = map (\<lambda>e. (re_cb e, re_arg e, ev)) (filter (\<lambda>e. re_active e \<and> re_gesture e = ie_type ev) es)
         in (int (length calls), calls)
     | _ \<Rightarrow> (-1, []))"

section \<open>Well-formed states\<close>

definition devices_wf :: "input_device list \<Rightarrow> bool" where
  "devices_wf ds \<longleftrightarrow> length ds \<le> 8 \<and> (\<forall>d\<in>set ds. length (id_mappings d) \<le> 32 \<and> length (id_name d) \<le> 31)"

definition input_wf :: "input_state \<Rightarrow> bool" where
  "input_wf s \<longleftrightarrow> ring_wf 64 (in_event_queue s) (in_queue_head s) (in_queue_tail s) (in_queue_count s) \<and> devices_wf (in_devices s) \<and>
    length (in_last_key_states s) = 46 \<and> length (in_key_repeat_states s) = 46"

definition input_items :: "input_state \<Rightarrow> input_event list" where
  "input_items s = ring_list 64 (in_event_queue s) (in_queue_head s) (in_queue_count s)"

lemma input_queue_fields [simp]:
  "in_devices (snd (input_queue_event ev s)) = in_devices s" "in_lock (snd (input_queue_event ev s)) = in_lock s"
  "in_config (snd (input_queue_event ev s)) = in_config s" "in_last_key_states (snd (input_queue_event ev s)) = in_last_key_states s"
  "in_key_repeat_states (snd (input_queue_event ev s)) = in_key_repeat_states s"
  "in_devices (input_dequeue s) = in_devices s" "in_lock (input_dequeue s) = in_lock s"
  "in_config (input_dequeue s) = in_config s" "in_last_key_states (input_dequeue s) = in_last_key_states s"
  "in_key_repeat_states (input_dequeue s) = in_key_repeat_states s"
  by (simp_all add: input_queue_event_def input_dequeue_def)

interpretation iq: bounded_queue input_wf input_items 64 "\<lambda>ev s. snd (input_queue_event ev s)" input_front input_dequeue
proof
  fix s :: input_state and ev :: input_event
  assume wf: "input_wf s"
  then have r: "ring_wf 64 (in_event_queue s) (in_queue_head s) (in_queue_tail s) (in_queue_count s)" by (simp add: input_wf_def)
  show "length (input_items s) \<le> 64" using r by (simp add: input_items_def ring_wf_def)
  show "input_wf (snd (input_queue_event ev s))"
    using wf ring_push(1) [OF r, of ev] by (simp add: input_wf_def input_queue_event_def INPUT_EVENT_QUEUE_SIZE_def)
  show "input_items (snd (input_queue_event ev s)) = (if length (input_items s) < 64 then input_items s @ [ev] else input_items s)"
    using ring_push(2) [OF r, of ev] by (simp add: input_items_def input_queue_event_def INPUT_EVENT_QUEUE_SIZE_def)
  assume ne: "input_items s \<noteq> []"
  then have c: "0 < in_queue_count s" by (auto simp: input_items_def ring_list_def)
  show "input_wf (input_dequeue s)"
    using wf ring_pop(1) [OF r c] by (simp add: input_wf_def input_dequeue_def INPUT_EVENT_QUEUE_SIZE_def)
  show "input_items s = input_front s # input_items (input_dequeue s)"
    using ring_pop(2) [OF r c] by (simp add: input_items_def input_front_def input_dequeue_def INPUT_EVENT_QUEUE_SIZE_def)
qed

lemma input_items_count: "length (input_items s) = in_queue_count s"
  by (simp add: input_items_def)

lemma input_wf_devices: "input_wf s \<Longrightarrow> devices_wf ds \<Longrightarrow> input_wf (s\<lparr>in_devices := ds\<rparr>)"
  by (simp add: input_wf_def)

lemma input_init_wf: "input_wf (input_init c)" "input_items (input_init c) = []"
  by (simp_all add: input_init_def input_state_zero_def input_wf_def devices_wf_def ring_wf_def input_items_def ring_list_def
      INPUT_EVENT_QUEUE_SIZE_def INPUT_KEY_MAX_def)

section \<open>Delivery in order\<close>

text \<open>The callbacks of the active devices, in the order of registration.\<close>

definition device_calls :: "input_device list \<Rightarrow> (nat \<times> nat) list" where
  "device_calls ds = map (\<lambda>d. (the (id_callback d), id_callback_arg d)) (filter (\<lambda>d. id_active d \<and> id_callback d \<noteq> None) ds)"

text \<open>A callback that does not change the state of the service.\<close>

definition quiet_callback :: "(nat \<Rightarrow> nat \<Rightarrow> input_event \<Rightarrow> input_state \<times> 'w \<Rightarrow> input_state \<times> 'w) \<Rightarrow> bool" where
  "quiet_callback call \<longleftrightarrow> (\<forall>cb arg ev st. fst (call cb arg ev st) = fst st)"

lemma device_calls_drop:
  assumes "i < length ds"
  shows "device_calls (drop i ds) = (if id_active (ds ! i) \<and> id_callback (ds ! i) \<noteq> None
      then [(the (id_callback (ds ! i)), id_callback_arg (ds ! i))] else []) @ device_calls (drop (i + 1) ds)"
  using Cons_nth_drop_Suc [OF assms, symmetric] by (simp add: device_calls_def)

lemma deliver_loop_quiet:
  assumes "quiet_callback call" "i \<le> length (in_devices (fst st))"
  shows "\<exists>st'. deliver_loop call ev i st = Some st' \<and> fst st' = fst st \<and>
    st' = fold (\<lambda>(cb, arg). call cb arg ev) (device_calls (drop i (in_devices (fst st)))) st"
  using assms(2)
proof (induction "length (in_devices (fst st)) - i" arbitrary: i st)
  case 0
  then show ?case by (subst deliver_loop.simps) (simp add: device_calls_def)
next
  case (Suc n)
  define d where "d = in_devices (fst st) ! i"
  define st1 where "st1 = (if id_active d \<and> id_callback d \<noteq> None then call (the (id_callback d)) (id_callback_arg d) ev st else st)"
  have i: "i < length (in_devices (fst st))" using Suc.hyps(2) by simp
  have f: "fst st1 = fst st" using assms(1) by (cases st) (simp add: quiet_callback_def st1_def)
  have "n = length (in_devices (fst st1)) - (i + 1)" "i + 1 \<le> length (in_devices (fst st1))"
    unfolding f using Suc.hyps(2) i by simp_all
  from Suc.hyps(1) [OF this] obtain st' where s: "deliver_loop call ev (i + 1) st1 = Some st'" "fst st' = fst st1"
    "st' = fold (\<lambda>(cb, arg). call cb arg ev) (device_calls (drop (i + 1) (in_devices (fst st1)))) st1" by blast
  have "deliver_loop call ev i st = deliver_loop call ev (i + 1) st1"
    using i by (subst deliver_loop.simps) (auto simp: Let_def d_def st1_def)
  moreover have "fold (\<lambda>(cb, arg). call cb arg ev) (device_calls (drop i (in_devices (fst st)))) st =
      fold (\<lambda>(cb, arg). call cb arg ev) (device_calls (drop (i + 1) (in_devices (fst st)))) st1"
    unfolding device_calls_drop [OF i] d_def [symmetric] by (auto simp: st1_def)
  ultimately show ?case using s f by simp
qed

definition deliver_all :: "input_device list \<Rightarrow> input_event list \<Rightarrow> (nat \<times> nat \<times> input_event) list" where
  "deliver_all ds evs = concat (map (\<lambda>ev. map (\<lambda>(cb, arg). (cb, arg, ev)) (device_calls ds)) evs)"

text \<open>The callback that appends to a log of calls.\<close>

definition log_call :: "nat \<Rightarrow> nat \<Rightarrow> input_event \<Rightarrow> input_state \<times> (nat \<times> nat \<times> input_event) list \<Rightarrow>
    input_state \<times> (nat \<times> nat \<times> input_event) list" where
  "log_call cb arg ev st = (fst st, snd st @ [(cb, arg, ev)])"

lemma quiet_log: "quiet_callback log_call"
  by (simp add: quiet_callback_def log_call_def)

lemma fold_log: "fold (\<lambda>(cb, arg). log_call cb arg ev) cs (s, l) = (s, l @ map (\<lambda>(cb, arg). (cb, arg, ev)) cs)"
  by (induction cs arbitrary: l) (auto simp: log_call_def)

lemma process_loop_log:
  assumes "input_wf s" "\<not> in_lock s"
  shows "\<exists>s'. process_loop log_call n (s, l) = Some (n + int (length (input_items s)), s', l @ deliver_all (in_devices s) (input_items s)) \<and>
    input_wf s' \<and> input_items s' = [] \<and> in_devices s' = in_devices s \<and> \<not> in_lock s'"
  using assms
proof (induction "in_queue_count s" arbitrary: s n l)
  case 0
  then have "input_items s = []" using input_items_count [of s] by simp
  then show ?case using 0 by (subst process_loop.simps) (simp add: deliver_all_def)
next
  case (Suc k)
  have ne: "input_items s \<noteq> []" using Suc.hyps(2) input_items_count [of s] by auto
  let ?s = "input_dequeue s" and ?ev = "input_front s"
  have wf: "input_wf ?s" by (rule iq.pop_wf [OF Suc.prems(1) ne])
  have it: "input_items s = ?ev # input_items ?s" by (rule iq.pop_items [OF Suc.prems(1) ne])
  have k: "k = in_queue_count ?s" using Suc.hyps(2) by (simp add: input_dequeue_def)
  let ?l = "l @ map (\<lambda>(cb, arg). (cb, arg, ?ev)) (device_calls (in_devices s))"
  have d: "deliver_loop log_call ?ev 0 (?s, l) = Some (?s, ?l)"
    using deliver_loop_quiet [OF quiet_log, of 0 "(?s, l)" ?ev] by (simp add: fold_log)
  have "process_loop log_call n (s, l) = process_loop log_call (n + 1) (?s, ?l)"
    using d Suc.hyps(2) Suc.prems(2) by (subst process_loop.simps) simp
  moreover have "\<not> in_lock ?s" using Suc.prems(2) by simp
  from Suc.hyps(1) [OF k wf this, of "n + 1" ?l] obtain s' where
    "process_loop log_call (n + 1) (?s, ?l) =
      Some (n + 1 + int (length (input_items ?s)), s', ?l @ deliver_all (in_devices ?s) (input_items ?s))"
    "input_wf s'" "input_items s' = []" "in_devices s' = in_devices ?s" "\<not> in_lock s'" by blast
  ultimately show ?case by (simp add: it deliver_all_def)
qed

section \<open>Sequences of calls\<close>

datatype input_op = IRegister input_device_type "string option" "nat option" nat | IUnregister "string option" |
  IPost u32 "input_event option" | ISetMapping u32 input_map_type u32 u32 | IClearMappings u32

fun input_step :: "input_op \<Rightarrow> input_state \<Rightarrow> input_state option" where
  "input_step (IRegister ty name cb arg) s = map_option snd (input_device_register ty name cb arg s)"
| "input_step (IUnregister name) s = map_option snd (input_device_unregister name s)"
| "input_step (IPost now ev) s = map_option snd (input_post_event now ev s)"
| "input_step (ISetMapping a ty k t) s = map_option snd (input_set_mapping a ty k t s)"
| "input_step (IClearMappings a) s = map_option snd (input_clear_mappings a s)"

fun input_run :: "input_op list \<Rightarrow> input_state \<Rightarrow> input_state option" where
  "input_run [] s = Some s"
| "input_run (p # ps) s = (case input_step p s of None \<Rightarrow> None | Some s' \<Rightarrow> input_run ps s')"

fun input_op_ok :: "input_op \<Rightarrow> bool" where
  "input_op_ok (IPost now (Some ev)) \<longleftrightarrow> ie_key ev < 46"
| "input_op_ok _ \<longleftrightarrow> True"

lemma remove_device_set: "remove_device name ds = Some ds' \<Longrightarrow> set ds' \<subseteq> set ds \<and> length ds = Suc (length ds')"
  by (induction ds arbitrary: ds') (auto split: if_splits)

lemma set_mapping_length: "set_mapping_loop m ds = Some ds' \<Longrightarrow> length ds' = length ds"
  by (induction ds arbitrary: ds') (auto split: if_splits)

lemma set_mapping_wf: "set_mapping_loop m ds = Some ds' \<Longrightarrow> devices_wf ds \<Longrightarrow> devices_wf ds'"
proof (induction ds arbitrary: ds')
  case (Cons d ds)
  show ?case
  proof (cases "length (id_mappings d) < 32")
    case True
    then show ?thesis using Cons.prems by (auto simp: devices_wf_def INPUT_MAP_MAX_def)
  next
    case False
    then obtain es where es: "set_mapping_loop m ds = Some es" "ds' = d # es" using Cons.prems by (auto simp: INPUT_MAP_MAX_def)
    have "devices_wf ds" using Cons.prems(2) by (simp add: devices_wf_def)
    from Cons.IH [OF es(1) this] show ?thesis
      using set_mapping_length [OF es(1)] Cons.prems(2) es(2) by (simp add: devices_wf_def)
  qed
qed simp

lemma clear_loop_filter:
  "j \<le> length ms \<Longrightarrow> clear_loop a j ms = take j ms @ filter (\<lambda>m. im_app_id m \<noteq> a) (drop j ms)"
proof (induction a j ms rule: clear_loop.induct)
  case (1 a j ms)
  show ?case
  proof (cases "j < length ms")
    case j: True
    have d: "drop j ms = ms ! j # drop (j + 1) ms" using Cons_nth_drop_Suc [OF j] by simp
    show ?thesis
    proof (cases "im_app_id (ms ! j) = a")
      case True
      have "clear_loop a j ms = clear_loop a j (take j ms @ drop (j + 1) ms)" using j True by (subst clear_loop.simps) simp
      then show ?thesis using 1(1) [OF j True] j True unfolding d by simp
    next
      case False
      have "clear_loop a j ms = clear_loop a (j + 1) ms" using j False by (subst clear_loop.simps) simp
      then show ?thesis using 1(2) [OF j False] j False take_Suc_conv_app_nth [OF j] unfolding d by simp
    qed
  qed (use 1 in \<open>simp add: clear_loop.simps [of a "length ms" ms]\<close>)
qed

lemma process_key_ok:
  assumes "input_wf s" "key < 46"
  shows "\<exists>s'. process_key_event now key p s = Some s' \<and> input_wf s' \<and> in_lock s' = in_lock s"
proof -
  obtain ev t where t: "(if p then key_pressed now key s else (key_released now key s, s)) = (ev, t)" by fastforce
  have "input_wf t \<and> in_lock t = in_lock s"
    using t assms(1) by (auto simp: key_pressed_def Let_def input_wf_def split: if_splits)
  then show ?thesis using assms(2) t iq.push_wf [of t] by (simp add: process_key_event_def INPUT_KEY_MAX_def)
qed

lemma step_ok:
  assumes "input_wf s" "\<not> in_lock s" "input_op_ok p"
  shows "\<exists>s'. input_step p s = Some s' \<and> input_wf s' \<and> \<not> in_lock s'"
proof (cases p)
  case (IRegister ty name cb arg)
  then show ?thesis using assms
    by (auto simp: input_device_register_def device_new_def input_wf_def devices_wf_def INPUT_MAX_DEVICES_def split: option.split)
next
  case (IUnregister name)
  then show ?thesis using assms
    by (auto simp: input_device_unregister_def input_wf_def devices_wf_def dest!: remove_device_set split: option.split)
next
  case (IPost now ev)
  show ?thesis
  proof (cases ev)
    case None
    then show ?thesis using assms IPost by (simp add: input_post_event_def)
  next
    case (Some e)
    then have "ie_key e < 46" using assms(3) IPost by simp
    from process_key_ok [OF assms(1) this, of now True] process_key_ok [OF assms(1) this, of now False]
    obtain u d where "process_key_event now (ie_key e) True s = Some d \<and> input_wf d \<and> \<not> in_lock d"
      "process_key_event now (ie_key e) False s = Some u \<and> input_wf u \<and> \<not> in_lock u" using assms(2) by blast
    moreover obtain r q where "input_queue_event e s = (r, q)" "input_wf q" "\<not> in_lock q"
      using iq.push_wf [OF assms(1), of e] input_queue_fields(2) [of e s] assms(2) by (cases "input_queue_event e s") auto
    ultimately show ?thesis using Some IPost by (simp add: input_post_event_def)
  qed
next
  case (ISetMapping a ty k t)
  then show ?thesis using assms
    by (auto simp: input_set_mapping_def input_wf_def dest: set_mapping_wf split: option.split)
next
  case (IClearMappings a)
  have "devices_wf (map (\<lambda>d. d\<lparr>id_mappings := clear_loop a 0 (id_mappings d)\<rparr>) (in_devices s))"
    using assms(1) by (auto simp: input_wf_def devices_wf_def clear_loop_filter intro: order.trans [OF length_filter_le])
  then show ?thesis using assms IClearMappings by (simp add: input_clear_mappings_def input_wf_devices)
qed

lemma run_ok: "input_wf s \<Longrightarrow> \<not> in_lock s \<Longrightarrow> list_all input_op_ok ps \<Longrightarrow> \<exists>s'. input_run ps s = Some s' \<and> input_wf s' \<and> \<not> in_lock s'"
proof (induction ps arbitrary: s)
  case (Cons p ps)
  then obtain s1 where "input_step p s = Some s1" "input_wf s1" "\<not> in_lock s1" using step_ok [of s p] by auto
  then show ?case using Cons by simp
qed simp

text \<open>
  C14: After any registrations, posts (of keys within the key table) and mapping changes on an initialised service, all of
  which return, processing the queue with callbacks that leave the service alone returns the number of queued events, calls the callbacks of the active devices with each event, event by
  event in the order of posting and device by device in the order of registration, and leaves the queue empty.
\<close>

theorem input_delivery:
  assumes "list_all input_op_ok ps"
  shows "\<exists>s s'. input_run ps (input_init c) = Some s \<and> input_wf s \<and>
    input_process_events log_call s [] = Some (int (length (input_items s)), s', deliver_all (in_devices s) (input_items s)) \<and>
    input_wf s' \<and> input_items s' = []"
proof -
  have "\<not> in_lock (input_init c)" by (simp add: input_init_def input_state_zero_def)
  then obtain s where s: "input_run ps (input_init c) = Some s" "input_wf s" "\<not> in_lock s"
    using run_ok [OF input_init_wf(1) _ assms] by blast
  then show ?thesis using process_loop_log [OF s(2,3), of 0 "[]"] by (auto simp: input_process_events_def)
qed

theorem input_delivery_witness:
  "\<exists>s s'. input_run [IRegister INPUT_DEV_KEYPAD (Some ''pad'') (Some 7) 1, IPost 5 (Some (input_event_zero\<lparr>ie_type := INPUT_EVENT_TOUCH_DOWN\<rparr>))]
      (input_init None) = Some s \<and>
    input_process_events log_call s [] = Some (1, s', [(7, 1, input_event_zero\<lparr>ie_type := INPUT_EVENT_TOUCH_DOWN\<rparr>)])"
  using input_delivery [of "[IRegister INPUT_DEV_KEYPAD (Some ''pad'') (Some 7) 1,
      IPost 5 (Some (input_event_zero\<lparr>ie_type := INPUT_EVENT_TOUCH_DOWN\<rparr>))]" None]
  by (auto simp: input_event_zero_def input_device_register_def input_init_def input_state_zero_def INPUT_MAX_DEVICES_def device_new_def
      input_post_event_def input_queue_event_def INPUT_EVENT_QUEUE_SIZE_def input_items_def ring_list_def deliver_all_def device_calls_def)

section \<open>Classification\<close>

definition release_type :: "input_config \<Rightarrow> u32 \<Rightarrow> input_event_type" where
  "release_type c duration =
    (if duration \<ge> hold_threshold_ms c then INPUT_EVENT_BUTTON_RELEASE
     else if duration \<ge> long_press_threshold_ms c then INPUT_EVENT_BUTTON_LONG_TAP
     else if duration \<ge> tap_threshold_ms c then INPUT_EVENT_BUTTON_TAP else INPUT_EVENT_KEY_UP)"

text \<open>
  C33: Pressing a key at \<open>t0\<close> and releasing it at \<open>t1\<close> queues two events of that key with those times. The first is a
  double tap exactly when an earlier press of the key is noted and less than the threshold ago, the second is classified
  by \<open>t1 - t0\<close>, the difference modulo \<open>2 ^ 32\<close>, so also when the tick counter wraps between the two.
\<close>

theorem input_key_classification:
  assumes "input_wf s" and "key < 46" and "length (input_items s) + 2 \<le> 64"
    and "ie_type d = INPUT_EVENT_KEY_DOWN" "ie_key d = key" "ie_type u = INPUT_EVENT_KEY_UP" "ie_key u = key"
  shows "\<exists>s1 s2 e1 e2. input_post_event t0 (Some d) s = Some (0, s1) \<and> input_post_event t1 (Some u) s1 = Some (0, s2) \<and>
    input_items s2 = input_items s @ [e1, e2] \<and> ie_key e1 = key \<and> ie_timestamp e1 = t0 \<and> ie_key e2 = key \<and> ie_timestamp e2 = t1 \<and>
    ie_type e1 = (if in_key_repeat_states s ! key > 0 \<and> t0 - in_key_repeat_states s ! key < double_tap_threshold_ms (in_config s)
                  then INPUT_EVENT_BUTTON_DOUBLE_TAP else INPUT_EVENT_KEY_DOWN) \<and>
    ie_type e2 = release_type (in_config s) (t1 - t0)"
proof -
  obtain ev t where t: "key_pressed t0 key s = (ev, t)" by fastforce
  define e1 where "e1 = ev\<lparr>ie_key := key, ie_timestamp := t0\<rparr>"
  define s1 where "s1 = snd (input_queue_event e1 t)"
  define e2 where "e2 = (key_released t1 key s1)\<lparr>ie_key := key, ie_timestamp := t1\<rparr>"
  have k: "input_wf t" "input_items t = input_items s" "in_config t = in_config s" "in_last_key_states t ! key = t0"
    using t assms(1,2) by (auto simp: key_pressed_def Let_def input_wf_def input_items_def split: if_splits)
  have wf1: "input_wf s1" unfolding s1_def by (rule iq.push_wf [OF k(1)])
  have i1: "input_items s1 = input_items s @ [e1]" using iq.push_items [OF k(1), of e1] assms(3) k(2) by (simp add: s1_def)
  have i2: "input_items (snd (input_queue_event e2 s1)) = input_items s @ [e1, e2]"
    using iq.push_items [OF wf1, of e2] assms(3) i1 by simp
  have p1: "input_post_event t0 (Some d) s = Some (0, s1)"
    using assms(2,4,5) t by (simp add: input_post_event_def process_key_event_def INPUT_KEY_MAX_def s1_def e1_def)
  have p2: "input_post_event t1 (Some u) s1 = Some (0, snd (input_queue_event e2 s1))"
    using assms(2,6,7) by (simp add: input_post_event_def process_key_event_def INPUT_KEY_MAX_def e2_def)
  have "ie_type e1 = (if in_key_repeat_states s ! key > 0 \<and> t0 - in_key_repeat_states s ! key < double_tap_threshold_ms (in_config s)
      then INPUT_EVENT_BUTTON_DOUBLE_TAP else INPUT_EVENT_KEY_DOWN)"
    using t by (auto simp: key_pressed_def Let_def e1_def split: if_splits)
  moreover have "ie_type e2 = release_type (in_config s) (t1 - t0)"
    using k(3,4) by (simp add: e2_def s1_def key_released_def release_type_def Let_def)
  ultimately show ?thesis using p1 p2 i2 by (intro exI conjI) (assumption | simp add: e1_def e2_def)+
qed

theorem input_key_classification_witness:
  "\<exists>s1 s2 e1 e2. input_post_event 0xFFFFFFF0 (Some (input_event_zero\<lparr>ie_type := INPUT_EVENT_KEY_DOWN\<rparr>)) (input_init None) = Some (0, s1) \<and>
    input_post_event 0x1F0 (Some (input_event_zero\<lparr>ie_type := INPUT_EVENT_KEY_UP\<rparr>)) s1 = Some (0, s2) \<and>
    input_items s2 = [e1, e2] \<and> ie_type e1 = INPUT_EVENT_KEY_DOWN \<and> ie_type e2 = INPUT_EVENT_BUTTON_LONG_TAP"
proof -
  have z: "in_key_repeat_states (input_init None) ! 0 = 0" "in_config (input_init None) = input_config_default"
    by (simp_all add: input_init_def input_state_zero_def INPUT_KEY_MAX_def)
  have r: "release_type input_config_default (0x1F0 - 0xFFFFFFF0) = INPUT_EVENT_BUTTON_LONG_TAP"
    by (simp add: release_type_def input_config_default_def)
  show ?thesis
    using input_key_classification [of "input_init None" 0 "input_event_zero\<lparr>ie_type := INPUT_EVENT_KEY_DOWN\<rparr>"
        "input_event_zero\<lparr>ie_type := INPUT_EVENT_KEY_UP\<rparr>" "0xFFFFFFF0" "0x1F0"] input_init_wf [of None]
    unfolding z r by (force simp: input_event_zero_def)
qed

section \<open>Mappings\<close>

lemma find_cleared:
  "find (\<lambda>m. im_app_id m = b \<and> im_source_key m = k) (clear_loop b 0 ms) = None"
  "a \<noteq> b \<Longrightarrow> find (\<lambda>m. im_app_id m = a \<and> im_source_key m = k) (clear_loop b 0 ms) = find (\<lambda>m. im_app_id m = a \<and> im_source_key m = k) ms"
proof -
  have c: "clear_loop b 0 ms = filter (\<lambda>m. im_app_id m \<noteq> b) ms" by (simp add: clear_loop_filter)
  show "find (\<lambda>m. im_app_id m = b \<and> im_source_key m = k) (clear_loop b 0 ms) = None"
    unfolding c by (auto simp: find_None_iff)
  show "find (\<lambda>m. im_app_id m = a \<and> im_source_key m = k) (clear_loop b 0 ms) = find (\<lambda>m. im_app_id m = a \<and> im_source_key m = k) ms"
    if "a \<noteq> b" unfolding c using that by (induction ms) auto
qed

lemma get_mapping_clear:
  "get_mapping_loop a k (map (\<lambda>d. d\<lparr>id_mappings := clear_loop b 0 (id_mappings d)\<rparr>) ds) =
    (if a = b then None else get_mapping_loop a k ds)"
  by (cases "a = b"; induction ds) (simp_all add: find_cleared split: option.split)

lemma find_snoc: "find P (xs @ [x]) = (case find P xs of Some y \<Rightarrow> Some y | None \<Rightarrow> if P x then Some x else None)"
  by (induction xs) auto

lemma get_mapping_set:
  "set_mapping_loop m ds = Some ds' \<Longrightarrow> get_mapping_loop a k ds = None \<Longrightarrow>
    get_mapping_loop a k ds' = (if im_app_id m = a \<and> im_source_key m = k then Some m else None)"
proof (induction ds arbitrary: ds')
  case (Cons d ds)
  show ?case
  proof (cases "length (id_mappings d) < INPUT_MAP_MAX")
    case True
    then show ?thesis using Cons.prems by (auto simp: find_snoc split: option.splits)
  next
    case False
    then obtain es where "set_mapping_loop m ds = Some es" "ds' = d # es" using Cons.prems(1) by auto
    then show ?thesis using Cons.IH Cons.prems(2) by (auto split: option.splits)
  qed
qed simp

text \<open>
  A key of an application with no mapping is mapped to its new action by a successful \<open>input_set_mapping\<close>, which
  leaves the unmapped keys of all applications unmapped otherwise; \<open>input_clear_mappings\<close> removes all mappings of its
  application, on every device, and changes no mapping of another.
\<close>

theorem input_mapping_laws:
  assumes "\<not> in_lock s"
  shows "input_get_mapping a k s = Some (-1, None) \<Longrightarrow> input_set_mapping b ty j target s = Some (0, s') \<Longrightarrow>
      input_get_mapping a k s' = Some (if a = b \<and> k = j then (0, Some target) else (-1, None))"
    and "\<exists>s'. input_clear_mappings b s = Some (0, s') \<and>
      input_get_mapping a k s' = (if a = b then Some (-1, None) else input_get_mapping a k s)"
proof -
  show "input_get_mapping a k s' = Some (if a = b \<and> k = j then (0, Some target) else (-1, None))"
    if g: "input_get_mapping a k s = Some (-1, None)" and m: "input_set_mapping b ty j target s = Some (0, s')"
  proof -
    have n: "get_mapping_loop a k (in_devices s) = None" using g assms by (auto simp: input_get_mapping_def split: option.splits)
    let ?m = "\<lparr>im_type = ty, im_source_key = j, im_target_action = target, im_app_id = b, im_enabled = True\<rparr>"
    obtain ds where ds: "set_mapping_loop ?m (in_devices s) = Some ds" "s' = s\<lparr>in_devices := ds\<rparr>"
      using m assms by (auto simp: input_set_mapping_def split: option.splits)
    show ?thesis using get_mapping_set [OF ds(1) n] ds(2) assms by (auto simp: input_get_mapping_def)
  qed
  show "\<exists>s'. input_clear_mappings b s = Some (0, s') \<and>
      input_get_mapping a k s' = (if a = b then Some (-1, None) else input_get_mapping a k s)"
    using assms by (simp add: input_clear_mappings_def input_get_mapping_def get_mapping_clear)
qed

end
