(* ===== verification/Os_Time.thy ===== *)
theory Os_Time
  imports Ardu_Prelude
begin

text \<open>
  Time and software timers, \<^verbatim>\<open>kernel/os_time.c\<close>, as built for a board (the clock is what the platform fed to
  \<^verbatim>\<open>time_set_now_us\<close>). Timers are addressed by numbers and linked through their \<^verbatim>\<open>next\<close> fields. A loop along the links is
  a partial function, for the links may form a cycle; not to return is \<open>None\<close>. A pointer to a link (\<^verbatim>\<open>os_timer_t**\<close>)
  is the timer whose \<^verbatim>\<open>next\<close> field it is, or \<open>None\<close> for the list head. \<^verbatim>\<open>time_sleep_us\<close> waits by yielding and is not modelled.
\<close>

record os_timer =
  ot_expire_time :: u64
  ot_callback :: "nat option"
  ot_arg :: nat
  ot_periodic :: bool
  ot_period :: u64
  ot_next :: "nat option"
  ot_active :: bool

record os_time =
  tm_boot_time :: u64
  tm_offset :: u64
  tm_list :: "nat option"
  tm_timers :: "nat \<Rightarrow> os_timer"

definition TIME_US_MAX :: u64 where "TIME_US_MAX = -1"
definition TIME_MS_MAX :: u32 where "TIME_MS_MAX = -1"

section \<open>The clock\<close>

definition time_now_us :: "os_time \<Rightarrow> u64" where
  "time_now_us s = tm_offset s + tm_boot_time s"

definition time_now_ms :: "os_time \<Rightarrow> u32" where
  "time_now_ms s = ucast (time_now_us s div 1000)"

definition time_set_now_us :: "u64 \<Rightarrow> os_time \<Rightarrow> os_time" where
  "time_set_now_us now s = s\<lparr>tm_boot_time := now\<rparr>"

definition time_since_us :: "u64 \<Rightarrow> os_time \<Rightarrow> u64" where
  "time_since_us start s = (let now = time_now_us s in if now \<ge> start then now - start else TIME_US_MAX - start + now)"

definition time_since_ms :: "u32 \<Rightarrow> os_time \<Rightarrow> u32" where
  "time_since_ms start s = (let now = time_now_ms s in if now \<ge> start then now - start else TIME_MS_MAX - start + now)"

definition time_rtc_set :: "u64 \<Rightarrow> os_time \<Rightarrow> int \<times> os_time" where
  "time_rtc_set epoch s = (0, s\<lparr>tm_offset := epoch - tm_boot_time s\<rparr>)"

definition time_rtc_get :: "os_time \<Rightarrow> u64" where
  "time_rtc_get s = time_now_us s"

definition time_rtc_is_valid :: "os_time \<Rightarrow> bool" where
  "time_rtc_is_valid s \<longleftrightarrow> tm_offset s \<noteq> 0"

section \<open>Timers\<close>

definition upd_timer :: "nat \<Rightarrow> (os_timer \<Rightarrow> os_timer) \<Rightarrow> os_time \<Rightarrow> os_time" where
  "upd_timer t f s = s\<lparr>tm_timers := (tm_timers s)(t := f (tm_timers s t))\<rparr>"

definition set_link :: "nat option \<Rightarrow> nat option \<Rightarrow> os_time \<Rightarrow> os_time" where
  "set_link slot v s = (case slot of None \<Rightarrow> s\<lparr>tm_list := v\<rparr> | Some p \<Rightarrow> upd_timer p (\<lambda>r. r\<lparr>ot_next := v\<rparr>) s)"

definition os_timer_create :: "nat option \<Rightarrow> u64 \<Rightarrow> nat option \<Rightarrow> nat \<Rightarrow> bool \<Rightarrow> os_time \<Rightarrow> int \<times> os_time" where
  "os_timer_create timer delay_us cb arg periodic s =
    (case (timer, cb) of
       (Some t, Some f) \<Rightarrow>
         (0, upd_timer t (\<lambda>_. \<lparr>ot_expire_time = time_now_us s + delay_us, ot_callback = Some f, ot_arg = arg, ot_periodic = periodic,
               ot_period = delay_us, ot_next = None, ot_active = False\<rparr>) s)
     | _ \<Rightarrow> (-1, s))"

partial_function (option) insert_slot :: "(nat \<Rightarrow> os_timer) \<Rightarrow> u64 \<Rightarrow> nat option \<Rightarrow> nat option \<Rightarrow> (nat option \<times> nat option) option" where
  "insert_slot T e slot cur =
    (if cur = None then Some (slot, None)
     else if ot_expire_time (T (the cur)) \<le> e then insert_slot T e cur (ot_next (T (the cur)))
     else Some (slot, cur))"

definition timer_list_insert :: "nat \<Rightarrow> os_time \<Rightarrow> os_time option" where
  "timer_list_insert t s =
    (case insert_slot (tm_timers s) (ot_expire_time (tm_timers s t)) None (tm_list s) of
       None \<Rightarrow> None
     | Some (slot, cur) \<Rightarrow> Some (set_link slot (Some t) (upd_timer t (\<lambda>r. r\<lparr>ot_next := cur\<rparr>) s)))"

definition os_timer_start :: "nat option \<Rightarrow> os_time \<Rightarrow> (int \<times> os_time) option" where
  "os_timer_start timer s =
    (case timer of
       None \<Rightarrow> Some (-1, s)
     | Some t \<Rightarrow>
         if ot_active (tm_timers s t) then Some (-1, s)
         else map_option (Pair 0) (timer_list_insert t (upd_timer t (\<lambda>r. r\<lparr>
                ot_expire_time := time_now_us s + (if ot_periodic r then ot_period r else 0), ot_active := True\<rparr>) s)))"

partial_function (option) stop_slot :: "(nat \<Rightarrow> os_timer) \<Rightarrow> nat \<Rightarrow> nat option \<Rightarrow> nat option \<Rightarrow> nat option option option" where
  "stop_slot T t slot cur =
    (if cur = None then Some None
     else if cur = Some t then Some (Some slot)
     else stop_slot T t cur (ot_next (T (the cur))))"

definition os_timer_stop :: "nat option \<Rightarrow> os_time \<Rightarrow> (int \<times> os_time) option" where
  "os_timer_stop timer s =
    (case timer of
       None \<Rightarrow> Some (-1, s)
     | Some t \<Rightarrow>
         if \<not> ot_active (tm_timers s t) then Some (-1, s)
         else case stop_slot (tm_timers s) t None (tm_list s) of
           None \<Rightarrow> None
         | Some None \<Rightarrow> Some (-1, s)
         | Some (Some slot) \<Rightarrow>
             Some (0, upd_timer t (\<lambda>r. r\<lparr>ot_next := None, ot_active := False\<rparr>) (set_link slot (ot_next (tm_timers s t)) s)))"

definition os_timer_delete :: "nat \<Rightarrow> os_time \<Rightarrow> (int \<times> os_time) option" where
  "os_timer_delete t s =
    (case os_timer_stop (Some t) s of
       None \<Rightarrow> None
     | Some (_, s) \<Rightarrow> Some (0, upd_timer t (\<lambda>r. r\<lparr>ot_callback := None, ot_arg := 0\<rparr>) s))"

text \<open>One turn of the loop of \<^verbatim>\<open>timers_process\<close> up to the callback, for the timer \<open>t\<close> at the head of the list.\<close>

definition timer_fire :: "u64 \<Rightarrow> nat \<Rightarrow> os_time \<Rightarrow> os_time option" where
  "timer_fire now t s =
    (let s = s\<lparr>tm_list := ot_next (tm_timers s t)\<rparr>;
         s = upd_timer t (\<lambda>r. r\<lparr>ot_next := None\<rparr>) s
     in if ot_periodic (tm_timers s t)
        then timer_list_insert t (upd_timer t (\<lambda>r. r\<lparr>ot_expire_time := now + ot_period r\<rparr>) s)
        else Some (upd_timer t (\<lambda>r. r\<lparr>ot_active := False\<rparr>) s))"

text \<open>Callbacks may use the timers; \<open>call\<close> changes the state together with the rest of the world.\<close>

partial_function (option) timers_loop :: "(nat \<Rightarrow> nat \<Rightarrow> os_time \<times> 'w \<Rightarrow> os_time \<times> 'w) \<Rightarrow> u64 \<Rightarrow> os_time \<times> 'w \<Rightarrow> (os_time \<times> 'w) option" where
  "timers_loop call now st =
    (if tm_list (fst st) \<noteq> None \<and> ot_expire_time (tm_timers (fst st) (the (tm_list (fst st)))) \<le> now
     then let t = the (tm_list (fst st)) in
       (case timer_fire now t (fst st) of
          None \<Rightarrow> None
        | Some s \<Rightarrow> timers_loop call now
            (case ot_callback (tm_timers s t) of None \<Rightarrow> (s, snd st) | Some cb \<Rightarrow> call cb (ot_arg (tm_timers s t)) (s, snd st)))
     else Some st)"

definition timers_process :: "(nat \<Rightarrow> nat \<Rightarrow> os_time \<times> 'w \<Rightarrow> os_time \<times> 'w) \<Rightarrow> os_time \<Rightarrow> 'w \<Rightarrow> (os_time \<times> 'w) option" where
  "timers_process call s w = timers_loop call (time_now_us s) (s, w)"

section \<open>The list of timers\<close>

fun sll :: "(nat \<Rightarrow> os_timer) \<Rightarrow> nat option \<Rightarrow> nat list \<Rightarrow> bool" where
  "sll T p [] \<longleftrightarrow> p = None"
| "sll T p (x # xs) \<longleftrightarrow> p = Some x \<and> sll T (ot_next (T x)) xs"

abbreviation expires :: "(nat \<Rightarrow> os_timer) \<Rightarrow> nat \<Rightarrow> u64" where "expires T t \<equiv> ot_expire_time (T t)"

lemma sll_cong: "(\<And>x. x \<in> set xs \<Longrightarrow> ot_next (T' x) = ot_next (T x)) \<Longrightarrow> sll T' p xs = sll T p xs"
  by (induction xs arbitrary: p) auto

lemma sll_hd: "sll T p xs \<Longrightarrow> p = (case xs of [] \<Rightarrow> None | x # _ \<Rightarrow> Some x)"
  by (cases xs) auto

lemma sll_suffix: "sll T p (ys @ t # zs) \<Longrightarrow> sll T (ot_next (T t)) zs"
  by (induction ys arbitrary: p) auto

text \<open>The link before the list \<open>zs\<close> in \<open>ys @ zs\<close>, when the list starts at the link \<open>slot\<close>.\<close>

definition slot_after :: "nat option \<Rightarrow> nat list \<Rightarrow> nat option" where
  "slot_after slot ys = (if ys = [] then slot else Some (last ys))"

lemma insert_slot_list:
  "sll T cur xs \<Longrightarrow> insert_slot T e slot cur =
    Some (slot_after slot (takeWhile (\<lambda>x. expires T x \<le> e) xs),
      case dropWhile (\<lambda>x. expires T x \<le> e) xs of [] \<Rightarrow> None | x # _ \<Rightarrow> Some x)"
proof (induction xs arbitrary: cur slot)
  case Nil
  then show ?case by (subst insert_slot.simps) (simp add: slot_after_def)
next
  case (Cons x xs)
  then show ?case by (subst insert_slot.simps) (auto simp: slot_after_def)
qed

lemma stop_slot_list: "sll T cur (ys @ t # zs) \<Longrightarrow> t \<notin> set ys \<Longrightarrow> stop_slot T t slot cur = Some (Some (slot_after slot ys))"
proof (induction ys arbitrary: cur slot)
  case Nil
  then show ?case by (subst stop_slot.simps) (simp add: slot_after_def)
next
  case (Cons y ys)
  then show ?case by (subst stop_slot.simps) (auto simp: slot_after_def)
qed

text \<open>Setting the link after \<open>ys\<close> replaces the rest of the list.\<close>

definition set_next :: "nat \<Rightarrow> nat option \<Rightarrow> (nat \<Rightarrow> os_timer) \<Rightarrow> nat \<Rightarrow> os_timer" where
  "set_next p v T = T(p := (T p)\<lparr>ot_next := v\<rparr>)"

lemma set_next_apply: "ot_next (set_next p v T x) = (if x = p then v else ot_next (T x))"
  by (simp add: set_next_def)

lemma sll_relink:
  "sll T p (ys @ zs) \<Longrightarrow> distinct ys \<Longrightarrow> set ys \<inter> set zs' = {} \<Longrightarrow> ys \<noteq> [] \<Longrightarrow> sll T v zs' \<Longrightarrow>
    sll (set_next (last ys) v T) p (ys @ zs')"
proof (induction ys arbitrary: p)
  case (Cons y ys)
  show ?case
  proof (cases "ys = []")
    case True
    have "sll (set_next y v T) v zs' = sll T v zs'" using Cons.prems(3) by (intro sll_cong) (auto simp: set_next_apply)
    then show ?thesis using Cons.prems True by (simp add: set_next_apply)
  next
    case False
    then have "last ys \<noteq> y" using Cons.prems(2) by auto
    then show ?thesis using Cons False by (simp add: set_next_apply)
  qed
qed simp

lemma set_link_sll:
  assumes "sll (tm_timers s) (tm_list s) (ys @ zs)" "distinct ys" "set ys \<inter> set zs' = {}" "sll (tm_timers s) v zs'"
  shows "sll (tm_timers (set_link (slot_after None ys) v s)) (tm_list (set_link (slot_after None ys) v s)) (ys @ zs')"
  using assms sll_relink [OF assms(1,2,3) _ assms(4)]
  by (cases "ys = []") (simp_all add: slot_after_def set_link_def upd_timer_def set_next_def)

lemma set_link_fields [simp]:
  "ot_expire_time (tm_timers (set_link p v s) x) = ot_expire_time (tm_timers s x)"
  "ot_active (tm_timers (set_link p v s) x) = ot_active (tm_timers s x)"
  "ot_callback (tm_timers (set_link p v s) x) = ot_callback (tm_timers s x)"
  "ot_arg (tm_timers (set_link p v s) x) = ot_arg (tm_timers s x)"
  "ot_periodic (tm_timers (set_link p v s) x) = ot_periodic (tm_timers s x)"
  "ot_period (tm_timers (set_link p v s) x) = ot_period (tm_timers s x)"
  "tm_boot_time (set_link p v s) = tm_boot_time s" "tm_offset (set_link p v s) = tm_offset s"
  by (simp_all add: set_link_def upd_timer_def split: option.split)

lemma upd_timer_apply [simp]:
  "tm_timers (upd_timer t f s) x = (if x = t then f (tm_timers s t) else tm_timers s x)"
  "tm_list (upd_timer t f s) = tm_list s" "tm_boot_time (upd_timer t f s) = tm_boot_time s" "tm_offset (upd_timer t f s) = tm_offset s"
  by (simp_all add: upd_timer_def)

section \<open>Well-formed timer lists\<close>

text \<open>The list holds exactly the active timers, once each, in the order of their expiry.\<close>

definition timers_wf :: "os_time \<Rightarrow> nat list \<Rightarrow> bool" where
  "timers_wf s xs \<longleftrightarrow> sll (tm_timers s) (tm_list s) xs \<and> distinct xs \<and> sorted (map (expires (tm_timers s)) xs) \<and>
    (\<forall>t. ot_active (tm_timers s t) \<longleftrightarrow> t \<in> set xs)"

definition timer_insort :: "(nat \<Rightarrow> os_timer) \<Rightarrow> u64 \<Rightarrow> nat \<Rightarrow> nat list \<Rightarrow> nat list" where
  "timer_insort T e t xs = takeWhile (\<lambda>x. expires T x \<le> e) xs @ t # dropWhile (\<lambda>x. expires T x \<le> e) xs"

lemma set_timer_insort [simp]: "set (timer_insort T e t xs) = insert t (set xs)"
proof -
  have "set xs = set (takeWhile (\<lambda>x. expires T x \<le> e) xs) \<union> set (dropWhile (\<lambda>x. expires T x \<le> e) xs)"
    by (metis set_append takeWhile_dropWhile_id)
  then show ?thesis by (auto simp: timer_insort_def)
qed

lemma distinct_timer_insort: "distinct xs \<Longrightarrow> t \<notin> set xs \<Longrightarrow> distinct (timer_insort T e t xs)"
proof -
  assume a: "distinct xs" "t \<notin> set xs"
  then have "distinct (takeWhile (\<lambda>x. expires T x \<le> e) xs @ dropWhile (\<lambda>x. expires T x \<le> e) xs)" by simp
  then have "set (takeWhile (\<lambda>x. expires T x \<le> e) xs) \<inter> set (dropWhile (\<lambda>x. expires T x \<le> e) xs) = {}"
    by (simp only: distinct_append)
  then show ?thesis using a by (auto simp: timer_insort_def dest: set_takeWhileD set_dropWhileD)
qed

lemma sorted_timer_insort:
  "sorted (map (expires T) xs) \<Longrightarrow> expires T t = e \<Longrightarrow> sorted (map (expires T) (timer_insort T e t xs))"
proof (induction xs)
  case (Cons x xs)
  show ?case
  proof (cases "expires T x \<le> e")
    case True
    have "timer_insort T e t (x # xs) = x # timer_insort T e t xs" using True by (simp add: timer_insort_def)
    then show ?thesis using Cons True by auto
  next
    case False
    then have "timer_insort T e t (x # xs) = t # x # xs" by (simp add: timer_insort_def)
    then show ?thesis using Cons.prems False by fastforce
  qed
qed (simp add: timer_insort_def)

lemma timer_list_insert_ok:
  assumes l: "sll (tm_timers s) (tm_list s) xs" and d: "distinct xs" and t: "t \<notin> set xs"
  shows "\<exists>s'. timer_list_insert t s = Some s' \<and>
    sll (tm_timers s') (tm_list s') (timer_insort (tm_timers s) (expires (tm_timers s) t) t xs) \<and>
    (\<forall>x. (tm_timers s' x)\<lparr>ot_next := None\<rparr> = (tm_timers s x)\<lparr>ot_next := None\<rparr>) \<and>
    tm_boot_time s' = tm_boot_time s \<and> tm_offset s' = tm_offset s"
proof -
  define e where "e = expires (tm_timers s) t"
  define ys where "ys = takeWhile (\<lambda>x. expires (tm_timers s) x \<le> e) xs"
  define zs where "zs = dropWhile (\<lambda>x. expires (tm_timers s) x \<le> e) xs"
  define cur where "cur = (case zs of [] \<Rightarrow> None | x # _ \<Rightarrow> Some x)"
  define s1 where "s1 = upd_timer t (\<lambda>r. r\<lparr>ot_next := cur\<rparr>) s"
  have xs: "xs = ys @ zs" by (simp add: ys_def zs_def)
  have dd: "distinct ys" "set ys \<inter> set zs = {}" "t \<notin> set ys" "t \<notin> set zs" using d t unfolding xs by auto
  have z: "sll (tm_timers s) cur zs"
  proof -
    have "\<exists>p. sll T p zs" if "sll T q (us @ zs)" for T q us using that by (induction us arbitrary: q) auto
    then obtain p where "sll (tm_timers s) p zs" using l unfolding xs by blast
    then show ?thesis using sll_hd unfolding cur_def by blast
  qed
  have keep: "sll (tm_timers s1) p us = sll (tm_timers s) p us" if "t \<notin> set us" for p us
    using that by (intro sll_cong) (auto simp: s1_def)
  have "sll (tm_timers s1) (tm_list s1) (ys @ zs)" using l t by (simp add: keep xs) (simp add: s1_def)
  moreover have "sll (tm_timers s1) (Some t) (t # zs)" using z dd(4) keep by (simp add: s1_def)
  ultimately have "sll (tm_timers (set_link (slot_after None ys) (Some t) s1)) (tm_list (set_link (slot_after None ys) (Some t) s1)) (ys @ t # zs)"
    using dd by (intro set_link_sll) auto
  moreover have "timer_list_insert t s = Some (set_link (slot_after None ys) (Some t) s1)"
    using insert_slot_list [OF l, of e None] by (simp add: timer_list_insert_def e_def ys_def zs_def cur_def s1_def)
  moreover have "(tm_timers (set_link p v s1) x)\<lparr>ot_next := None\<rparr> = (tm_timers s x)\<lparr>ot_next := None\<rparr>" for p v x
    by (simp add: s1_def set_link_def split: option.split)
  ultimately show ?thesis by (auto simp: timer_insort_def ys_def zs_def e_def s1_def)
qed

text \<open>The states agree in everything but the links.\<close>

definition same_but_next :: "os_time \<Rightarrow> os_time \<Rightarrow> bool" where
  "same_but_next s s' \<longleftrightarrow> (\<forall>x. (tm_timers s' x)\<lparr>ot_next := None\<rparr> = (tm_timers s x)\<lparr>ot_next := None\<rparr>) \<and>
    tm_boot_time s' = tm_boot_time s \<and> tm_offset s' = tm_offset s"

lemma same_fields:
  assumes "same_but_next s s'"
  shows "expires (tm_timers s') x = expires (tm_timers s) x" "ot_active (tm_timers s' x) = ot_active (tm_timers s x)"
    "ot_callback (tm_timers s' x) = ot_callback (tm_timers s x)" "ot_arg (tm_timers s' x) = ot_arg (tm_timers s x)"
    "ot_periodic (tm_timers s' x) = ot_periodic (tm_timers s x)" "ot_period (tm_timers s' x) = ot_period (tm_timers s x)"
proof -
  have e: "(tm_timers s' x)\<lparr>ot_next := None\<rparr> = (tm_timers s x)\<lparr>ot_next := None\<rparr>" using assms by (simp add: same_but_next_def)
  show "expires (tm_timers s') x = expires (tm_timers s) x" using arg_cong [OF e, of ot_expire_time] by simp
  show "ot_active (tm_timers s' x) = ot_active (tm_timers s x)" using arg_cong [OF e, of ot_active] by simp
  show "ot_callback (tm_timers s' x) = ot_callback (tm_timers s x)" using arg_cong [OF e, of ot_callback] by simp
  show "ot_arg (tm_timers s' x) = ot_arg (tm_timers s x)" using arg_cong [OF e, of ot_arg] by simp
  show "ot_periodic (tm_timers s' x) = ot_periodic (tm_timers s x)" using arg_cong [OF e, of ot_periodic] by simp
  show "ot_period (tm_timers s' x) = ot_period (tm_timers s x)" using arg_cong [OF e, of ot_period] by simp
qed

lemma insert_wf:
  assumes "sll (tm_timers s) (tm_list s) xs" "distinct xs" "sorted (map (expires (tm_timers s)) xs)" "t \<notin> set xs"
    and "\<forall>x. ot_active (tm_timers s x) \<longleftrightarrow> x = t \<or> x \<in> set xs"
  shows "\<exists>s'. timer_list_insert t s = Some s' \<and> timers_wf s' (timer_insort (tm_timers s) (expires (tm_timers s) t) t xs) \<and> same_but_next s s'"
proof -
  obtain s' where s': "timer_list_insert t s = Some s'" "same_but_next s s'"
    "sll (tm_timers s') (tm_list s') (timer_insort (tm_timers s) (expires (tm_timers s) t) t xs)"
    using timer_list_insert_ok [OF assms(1,2,4)] unfolding same_but_next_def by blast
  note f = same_fields [OF s'(2)]
  show ?thesis using s' distinct_timer_insort [OF assms(2,4)] sorted_timer_insort [OF assms(3) refl, of t] assms(5)
    by (simp add: timers_wf_def f)
qed

lemma upd_wf:
  assumes "timers_wf s xs" "t \<notin> set xs" "\<not> ot_active (f (tm_timers s t))"
  shows "timers_wf (upd_timer t f s) xs"
proof -
  have "sll (tm_timers (upd_timer t f s)) (tm_list s) xs = sll (tm_timers s) (tm_list s) xs"
    using assms(2) by (intro sll_cong) auto
  moreover have m: "map (expires (tm_timers (upd_timer t f s))) xs = map (expires (tm_timers s)) xs" using assms(2) by auto
  have "sorted (map (expires (tm_timers (upd_timer t f s))) xs)" unfolding m using assms(1) by (simp add: timers_wf_def)
  ultimately show ?thesis using assms by (simp add: timers_wf_def)
qed

lemma create_wf: "timers_wf s xs \<Longrightarrow> t \<notin> set xs \<Longrightarrow> timers_wf (snd (os_timer_create (Some t) d cb arg p s)) xs"
  by (cases cb) (simp_all add: os_timer_create_def upd_wf)

lemma start_wf:
  assumes wf: "timers_wf s xs" and t: "t \<notin> set xs"
  shows "\<exists>s' ys. os_timer_start (Some t) s = Some (0, s') \<and> timers_wf s' ys \<and> set ys = insert t (set xs) \<and>
    expires (tm_timers s') t = time_now_us s + (if ot_periodic (tm_timers s t) then ot_period (tm_timers s t) else 0) \<and>
    ot_callback (tm_timers s' t) = ot_callback (tm_timers s t) \<and> ot_arg (tm_timers s' t) = ot_arg (tm_timers s t) \<and>
    time_now_us s' = time_now_us s"
proof -
  define s1 where "s1 = upd_timer t (\<lambda>r. r\<lparr>ot_expire_time := time_now_us s + (if ot_periodic r then ot_period r else 0), ot_active := True\<rparr>) s"
  have l: "sll (tm_timers s1) (tm_list s1) xs"
    using wf sll_cong [of xs "tm_timers s1" "tm_timers s"] t by (auto simp: timers_wf_def s1_def)
  have m: "map (expires (tm_timers s1)) xs = map (expires (tm_timers s)) xs" using t by (auto simp: s1_def)
  have a: "\<forall>x. ot_active (tm_timers s1 x) \<longleftrightarrow> x = t \<or> x \<in> set xs" using wf by (simp add: timers_wf_def s1_def)
  obtain s' where s': "timer_list_insert t s1 = Some s'" "timers_wf s' (timer_insort (tm_timers s1) (expires (tm_timers s1) t) t xs)"
    "same_but_next s1 s'"
    using insert_wf [OF l _ _ t a] wf unfolding m timers_wf_def by blast
  have na: "\<not> ot_active (tm_timers s t)" using wf t by (simp add: timers_wf_def)
  have "time_now_us s' = time_now_us s" using s'(3) by (simp add: time_now_us_def same_but_next_def s1_def)
  then show ?thesis using s'(1,2) na same_fields [OF s'(3), of t]
    by (intro exI [of _ s'] exI [of _ "timer_insort (tm_timers s1) (expires (tm_timers s1) t) t xs"])
      (simp add: os_timer_start_def s1_def [symmetric], simp add: s1_def)
qed

lemma stop_wf:
  assumes wf: "timers_wf s xs" and t: "t \<in> set xs"
  shows "\<exists>s'. os_timer_stop (Some t) s = Some (0, s') \<and> timers_wf s' (remove1 t xs)"
proof -
  obtain ys zs where xs: "xs = ys @ t # zs" "t \<notin> set ys" using t split_list_first by metis
  have d: "distinct ys" "set ys \<inter> set zs = {}" "t \<notin> set zs" "distinct zs" using wf by (auto simp: timers_wf_def xs(1))
  have l: "sll (tm_timers s) (tm_list s) (ys @ t # zs)" using wf by (simp add: timers_wf_def xs(1))
  have z: "sll (tm_timers s) (ot_next (tm_timers s t)) zs"
    using sll_suffix [OF l] .
  define s1 where "s1 = set_link (slot_after None ys) (ot_next (tm_timers s t)) s"
  define s' where "s' = upd_timer t (\<lambda>r. r\<lparr>ot_next := None, ot_active := False\<rparr>) s1"
  have l1: "sll (tm_timers s1) (tm_list s1) (ys @ zs)" unfolding s1_def by (rule set_link_sll [OF l d(1,2) z])
  have "sll (tm_timers s') (tm_list s1) (ys @ zs) = sll (tm_timers s1) (tm_list s1) (ys @ zs)"
    using xs(2) d(3) by (intro sll_cong) (auto simp: s'_def)
  then have "sll (tm_timers s') (tm_list s') (ys @ zs)" using l1 by (simp add: s'_def)
  moreover have m: "map (expires (tm_timers s')) (ys @ zs) = map (expires (tm_timers s)) (ys @ zs)"
    by (auto simp: s'_def s1_def)
  have "sorted (map (expires (tm_timers s')) (ys @ zs))" unfolding m using wf by (auto simp: timers_wf_def xs(1) sorted_append)
  moreover have "\<forall>x. ot_active (tm_timers s' x) \<longleftrightarrow> x \<in> set (ys @ zs)" using wf xs d(3) by (auto simp: timers_wf_def s'_def s1_def)
  moreover have "distinct (ys @ zs)" using d by simp
  ultimately have "timers_wf s' (ys @ zs)" unfolding timers_wf_def by blast
  moreover have "os_timer_stop (Some t) s = Some (0, s')"
    using wf t stop_slot_list [OF l xs(2), of None] by (simp add: os_timer_stop_def timers_wf_def s'_def s1_def)
  ultimately show ?thesis using xs by (simp add: remove1_append)
qed

section \<open>Firing\<close>

definition log_timer :: "nat \<Rightarrow> nat \<Rightarrow> os_time \<times> (nat \<times> nat) list \<Rightarrow> os_time \<times> (nat \<times> nat) list" where
  "log_timer cb arg st = (fst st, snd st @ [(cb, arg)])"

definition timer_calls :: "(nat \<Rightarrow> os_timer) \<Rightarrow> nat list \<Rightarrow> (nat \<times> nat) list" where
  "timer_calls T ts = concat (map (\<lambda>t. case ot_callback (T t) of None \<Rightarrow> [] | Some cb \<Rightarrow> [(cb, ot_arg (T t))]) ts)"

text \<open>A periodic timer has a period that is not zero and does not take its next expiry past the end of the clock.\<close>

definition period_ok :: "u64 \<Rightarrow> os_timer \<Rightarrow> bool" where
  "period_ok now r \<longleftrightarrow> (ot_periodic r \<longrightarrow> now < now + ot_period r)"

lemma takeWhile_timer_insort:
  "now < e \<Longrightarrow> expires T t = e \<Longrightarrow> takeWhile (\<lambda>x. expires T x \<le> now) (timer_insort T e t xs) = takeWhile (\<lambda>x. expires T x \<le> now) xs"
proof (induction xs)
  case (Cons x xs)
  then show ?case by (cases "expires T x \<le> e") (auto simp: timer_insort_def)
qed (simp add: timer_insort_def)

lemma outside:
  assumes "\<forall>x\<in>set xs. T' x = T x"
  shows "sll T' p xs = sll T p xs" "map (expires T') xs = map (expires T) xs"
    "takeWhile (\<lambda>x. expires T' x \<le> now) xs = takeWhile (\<lambda>x. expires T x \<le> now) xs"
  using assms by (auto intro!: sll_cong takeWhile_cong)

lemma timer_fire_wf:
  assumes wf: "timers_wf s (t # xs)" and p: "period_ok now (tm_timers s t)"
  shows "\<exists>s' ys. timer_fire now t s = Some s' \<and> timers_wf s' ys \<and>
    set ys = (if ot_periodic (tm_timers s t) then insert t (set xs) else set xs) \<and>
    takeWhile (\<lambda>x. expires (tm_timers s') x \<le> now) ys = takeWhile (\<lambda>x. expires (tm_timers s) x \<le> now) xs \<and>
    (\<forall>x. x \<noteq> t \<longrightarrow> (tm_timers s' x)\<lparr>ot_next := None\<rparr> = (tm_timers s x)\<lparr>ot_next := None\<rparr>) \<and>
    (tm_timers s' t)\<lparr>ot_next := None\<rparr> = (if ot_periodic (tm_timers s t) then (tm_timers s t)\<lparr>ot_next := None, ot_expire_time := now + ot_period (tm_timers s t)\<rparr>
      else (tm_timers s t)\<lparr>ot_next := None, ot_active := False\<rparr>)"
proof -
  define s1 where "s1 = upd_timer t (\<lambda>r. r\<lparr>ot_next := None\<rparr>) (s\<lparr>tm_list := ot_next (tm_timers s t)\<rparr>)"
  have t: "t \<notin> set xs" "distinct xs" and l: "sll (tm_timers s) (ot_next (tm_timers s t)) xs"
    and so: "sorted (map (expires (tm_timers s)) xs)" and ac: "\<forall>x. ot_active (tm_timers s x) \<longleftrightarrow> x = t \<or> x \<in> set xs"
    using wf by (auto simp: timers_wf_def)
  have pd: "ot_periodic (tm_timers s1 t) = ot_periodic (tm_timers s t)" by (simp add: s1_def)
  show ?thesis
  proof (cases "ot_periodic (tm_timers s t)")
    case True
    define s2 where "s2 = upd_timer t (\<lambda>r. r\<lparr>ot_expire_time := now + ot_period r\<rparr>) s1"
    have out: "\<forall>x\<in>set xs. tm_timers s2 x = tm_timers s x" using t(1) by (auto simp: s2_def s1_def)
    have h: "tm_list s2 = ot_next (tm_timers s t)" by (simp add: s2_def s1_def)
    have l2: "sll (tm_timers s2) (tm_list s2) xs"
      unfolding h by (rule iffD2 [OF outside(1) [OF out] l])
    have so2: "sorted (map (expires (tm_timers s2)) xs)" unfolding outside(2) [OF out] by (rule so)
    have a2: "\<forall>x. ot_active (tm_timers s2 x) \<longleftrightarrow> x = t \<or> x \<in> set xs" using ac by (auto simp: s2_def s1_def)
    define ys where "ys = timer_insort (tm_timers s2) (expires (tm_timers s2) t) t xs"
    obtain s' where s': "timer_list_insert t s2 = Some s'" "timers_wf s' ys" "same_but_next s2 s'"
      using insert_wf [OF l2 t(2) so2 t(1) a2] unfolding ys_def by blast
    have e: "now < expires (tm_timers s2) t" using p True by (simp add: s2_def s1_def period_ok_def)
    have "takeWhile (\<lambda>x. expires (tm_timers s') x \<le> now) ys = takeWhile (\<lambda>x. expires (tm_timers s2) x \<le> now) xs"
      using takeWhile_timer_insort [of now "expires (tm_timers s2) t" "tm_timers s2" t xs] e by (simp add: same_fields(1) [OF s'(3)] ys_def)
    also have "\<dots> = takeWhile (\<lambda>x. expires (tm_timers s) x \<le> now) xs" by (rule outside(3) [OF out])
    finally have "takeWhile (\<lambda>x. expires (tm_timers s') x \<le> now) ys = takeWhile (\<lambda>x. expires (tm_timers s) x \<le> now) xs" .
    moreover have "(tm_timers s' x)\<lparr>ot_next := None\<rparr> = (tm_timers s2 x)\<lparr>ot_next := None\<rparr>" for x
      using s'(3) by (simp add: same_but_next_def)
    moreover have "timer_fire now t s = Some s'"
      using s'(1) True pd unfolding timer_fire_def Let_def s1_def [symmetric] s2_def [symmetric] by simp
    moreover have "set ys = insert t (set xs)" by (simp add: ys_def)
    ultimately show ?thesis using s'(2) True
      by (intro exI [of _ s'] exI [of _ ys]) (simp add: s2_def s1_def)
  next
    case False
    define s2 where "s2 = upd_timer t (\<lambda>r. r\<lparr>ot_active := False\<rparr>) s1"
    have out: "\<forall>x\<in>set xs. tm_timers s2 x = tm_timers s x" using t(1) by (auto simp: s2_def s1_def)
    have h: "tm_list s2 = ot_next (tm_timers s t)" by (simp add: s2_def s1_def)
    have l2: "sll (tm_timers s2) (tm_list s2) xs"
      unfolding h by (rule iffD2 [OF outside(1) [OF out] l])
    have so2: "sorted (map (expires (tm_timers s2)) xs)" unfolding outside(2) [OF out] by (rule so)
    have "\<forall>x. ot_active (tm_timers s2 x) \<longleftrightarrow> x \<in> set xs" using ac t(1) by (auto simp: s2_def s1_def)
    then have "timers_wf s2 xs" using l2 so2 t(2) unfolding timers_wf_def by blast
    moreover have "takeWhile (\<lambda>x. expires (tm_timers s2) x \<le> now) xs = takeWhile (\<lambda>x. expires (tm_timers s) x \<le> now) xs"
      by (rule outside(3) [OF out])
    moreover have "timer_fire now t s = Some s2"
      using False pd unfolding timer_fire_def Let_def s1_def [symmetric] s2_def [symmetric] by simp
    ultimately show ?thesis using False by (intro exI [of _ s2] exI [of _ xs]) (simp add: s2_def s1_def)
  qed
qed

lemma fired_fields:
  "\<forall>x. x \<noteq> t \<longrightarrow> (T' x)\<lparr>ot_next := None\<rparr> = (T x)\<lparr>ot_next := None\<rparr> \<Longrightarrow> x \<noteq> t \<Longrightarrow>
    expires T' x = expires T x \<and> ot_callback (T' x) = ot_callback (T x) \<and> ot_arg (T' x) = ot_arg (T x) \<and>
    ot_periodic (T' x) = ot_periodic (T x) \<and> ot_period (T' x) = ot_period (T x)"
  "(T' t)\<lparr>ot_next := None\<rparr> = (if ot_periodic (T t) then (T t)\<lparr>ot_next := None, ot_expire_time := e\<rparr>
      else (T t)\<lparr>ot_next := None, ot_active := False\<rparr>) \<Longrightarrow>
    ot_callback (T' t) = ot_callback (T t) \<and> ot_arg (T' t) = ot_arg (T t) \<and> ot_periodic (T' t) = ot_periodic (T t) \<and>
    ot_period (T' t) = ot_period (T t) \<and> (ot_periodic (T t) \<longrightarrow> expires T' t = e)"
proof -
  assume "\<forall>x. x \<noteq> t \<longrightarrow> (T' x)\<lparr>ot_next := None\<rparr> = (T x)\<lparr>ot_next := None\<rparr>" "x \<noteq> t"
  then have e: "(T' x)\<lparr>ot_next := None\<rparr> = (T x)\<lparr>ot_next := None\<rparr>" by blast
  show "expires T' x = expires T x \<and> ot_callback (T' x) = ot_callback (T x) \<and> ot_arg (T' x) = ot_arg (T x) \<and>
    ot_periodic (T' x) = ot_periodic (T x) \<and> ot_period (T' x) = ot_period (T x)"
    using arg_cong [OF e, of ot_callback] arg_cong [OF e, of ot_arg] arg_cong [OF e, of ot_periodic] arg_cong [OF e, of ot_period]
      arg_cong [OF e, of ot_expire_time] by simp
next
  assume e: "(T' t)\<lparr>ot_next := None\<rparr> = (if ot_periodic (T t) then (T t)\<lparr>ot_next := None, ot_expire_time := e\<rparr>
      else (T t)\<lparr>ot_next := None, ot_active := False\<rparr>)"
  show "ot_callback (T' t) = ot_callback (T t) \<and> ot_arg (T' t) = ot_arg (T t) \<and> ot_periodic (T' t) = ot_periodic (T t) \<and>
    ot_period (T' t) = ot_period (T t) \<and> (ot_periodic (T t) \<longrightarrow> expires T' t = e)"
    using arg_cong [OF e, of ot_callback] arg_cong [OF e, of ot_arg] arg_cong [OF e, of ot_periodic] arg_cong [OF e, of ot_period]
      arg_cong [OF e, of ot_expire_time] by (auto split: if_splits)
qed

lemma timer_calls_cong:
  "(\<And>x. x \<in> set ts \<Longrightarrow> ot_callback (T' x) = ot_callback (T x) \<and> ot_arg (T' x) = ot_arg (T x)) \<Longrightarrow> timer_calls T' ts = timer_calls T ts"
  by (induction ts) (simp_all add: timer_calls_def split: option.split)

lemma timers_loop_log:
  assumes "timers_wf s xs" "\<forall>t\<in>set xs. period_ok now (tm_timers s t)"
  shows "\<exists>s' ys. timers_loop log_timer now (s, l) = Some (s', l @ timer_calls (tm_timers s) (takeWhile (\<lambda>t. expires (tm_timers s) t \<le> now) xs)) \<and>
    timers_wf s' ys \<and> set ys = {t \<in> set xs. now < expires (tm_timers s) t \<or> ot_periodic (tm_timers s t)} \<and>
    (\<forall>t\<in>set ys. expires (tm_timers s') t = (if now < expires (tm_timers s) t then expires (tm_timers s) t else now + ot_period (tm_timers s t)))"
  using assms
proof (induction "takeWhile (\<lambda>t. expires (tm_timers s) t \<le> now) xs" arbitrary: s xs l)
  case Nil
  have gt: "\<forall>t\<in>set xs. now < expires (tm_timers s) t"
  proof (cases xs)
    case (Cons a as)
    then have "now < expires (tm_timers s) a" using Nil.hyps by (auto split: if_splits)
    then show ?thesis using Nil.prems(1) Cons by (auto simp: timers_wf_def intro: less_le_trans)
  qed simp
  have "timers_loop log_timer now (s, l) = Some (s, l)"
    using Nil.prems(1) gt by (subst timers_loop.simps) (cases xs; auto simp: timers_wf_def)
  then show ?case using Nil gt by (intro exI [of _ s] exI [of _ xs]) (auto simp: timer_calls_def)
next
  case (Cons t due)
  obtain as where xs: "xs = t # as" and t: "expires (tm_timers s) t \<le> now" and due: "due = takeWhile (\<lambda>t. expires (tm_timers s) t \<le> now) as"
    using Cons.hyps(2) by (cases xs) (auto split: if_splits)
  have nt: "t \<notin> set as" and hd: "tm_list s = Some t" using Cons.prems(1) by (auto simp: timers_wf_def xs)
  obtain s1 ys1 where s1: "timer_fire now t s = Some s1" "timers_wf s1 ys1"
    "set ys1 = (if ot_periodic (tm_timers s t) then insert t (set as) else set as)"
    "takeWhile (\<lambda>x. expires (tm_timers s1) x \<le> now) ys1 = due"
    "\<forall>x. x \<noteq> t \<longrightarrow> (tm_timers s1 x)\<lparr>ot_next := None\<rparr> = (tm_timers s x)\<lparr>ot_next := None\<rparr>"
    "(tm_timers s1 t)\<lparr>ot_next := None\<rparr> = (if ot_periodic (tm_timers s t)
       then (tm_timers s t)\<lparr>ot_next := None, ot_expire_time := now + ot_period (tm_timers s t)\<rparr>
       else (tm_timers s t)\<lparr>ot_next := None, ot_active := False\<rparr>)"
    using timer_fire_wf [of s t as now] Cons.prems unfolding xs due by auto
  note f = fired_fields(1) [OF s1(5)]
  note g = fired_fields(2) [of "tm_timers s1" t "tm_timers s", OF s1(6)]
  have p1: "\<forall>x\<in>set ys1. period_ok now (tm_timers s1 x)"
    using Cons.prems(2) s1(3) f g unfolding xs period_ok_def by (metis insert_iff list.set(2))
  let ?l = "l @ timer_calls (tm_timers s) [t]"
  have step: "timers_loop log_timer now (s, l) = timers_loop log_timer now (s1, ?l)"
    using hd t s1(1) g by (subst timers_loop.simps) (auto simp: log_timer_def timer_calls_def Let_def split: option.split)
  have tc: "timer_calls (tm_timers s1) due = timer_calls (tm_timers s) due"
  proof (rule timer_calls_cong)
    fix x
    assume "x \<in> set due"
    then have "x \<noteq> t" using nt due set_takeWhileD by fastforce
    then show "ot_callback (tm_timers s1 x) = ot_callback (tm_timers s x) \<and> ot_arg (tm_timers s1 x) = ot_arg (tm_timers s x)"
      using f by blast
  qed
  obtain s' ys where s': "timers_loop log_timer now (s1, ?l) = Some (s', ?l @ timer_calls (tm_timers s1) due)" "timers_wf s' ys"
    "set ys = {x \<in> set ys1. now < expires (tm_timers s1) x \<or> ot_periodic (tm_timers s1 x)}"
    "\<forall>x\<in>set ys. expires (tm_timers s') x =
      (if now < expires (tm_timers s1) x then expires (tm_timers s1) x else now + ot_period (tm_timers s1 x))"
    using Cons.hyps(1) [OF s1(4) [symmetric] s1(2) p1, of ?l] s1(4) by auto
  have "timer_calls (tm_timers s) (t # due) = timer_calls (tm_timers s) [t] @ timer_calls (tm_timers s) due" by (simp add: timer_calls_def)
  moreover have "set ys = {x \<in> set xs. now < expires (tm_timers s) x \<or> ot_periodic (tm_timers s x)}"
  proof (rule set_eqI)
    fix x
    show "x \<in> set ys \<longleftrightarrow> x \<in> {x \<in> set xs. now < expires (tm_timers s) x \<or> ot_periodic (tm_timers s x)}"
      using s'(3) s1(3) f [of x] g t nt by (cases "x = t") (auto simp: xs)
  qed
  moreover have "\<forall>x\<in>set ys. expires (tm_timers s') x =
      (if now < expires (tm_timers s) x then expires (tm_timers s) x else now + ot_period (tm_timers s x))"
  proof
    fix x
    assume x: "x \<in> set ys"
    have "ot_periodic (tm_timers s t) \<Longrightarrow> now < now + ot_period (tm_timers s t)" using Cons.prems(2) by (simp add: xs period_ok_def)
    then show "expires (tm_timers s') x =
        (if now < expires (tm_timers s) x then expires (tm_timers s) x else now + ot_period (tm_timers s x))"
      using s'(3,4) s1(3) x f [of x] g t nt by (cases "x = t") auto
  qed
  ultimately show ?case using s'(1,2) step tc Cons.hyps(2) [symmetric]
    by (intro exI [of _ s'] exI [of _ ys]) simp
qed

section \<open>Sequences of calls\<close>

text \<open>
  The calls on the timers and the clock. \<open>TProcess\<close> is \<^verbatim>\<open>timers_process\<close> with callbacks that leave the timers alone.
\<close>

datatype timer_op =
  TCreate nat u64 nat nat bool | TStart nat | TStop nat | TDelete nat | TNow u64 | TRtc u64 | TProcess

fun timer_step :: "timer_op \<Rightarrow> os_time \<Rightarrow> os_time option" where
  "timer_step (TCreate t d cb arg p) s = Some (snd (os_timer_create (Some t) d (Some cb) arg p s))"
| "timer_step (TStart t) s = map_option snd (os_timer_start (Some t) s)"
| "timer_step (TStop t) s = map_option snd (os_timer_stop (Some t) s)"
| "timer_step (TDelete t) s = map_option snd (os_timer_delete t s)"
| "timer_step (TNow now) s = Some (time_set_now_us now s)"
| "timer_step (TRtc epoch) s = Some (snd (time_rtc_set epoch s))"
| "timer_step TProcess s = map_option fst (timers_process log_timer s [])"

text \<open>Calls in order.\<close>

fun timer_run :: "timer_op list \<Rightarrow> os_time \<Rightarrow> os_time option" where
  "timer_run [] s = Some s"
| "timer_run (p # ps) s = (case timer_step p s of None \<Rightarrow> None | Some s' \<Rightarrow> timer_run ps s')"

text \<open>
  What the callers have to see to: a timer is not created again while it is active, and when the timers are processed the
  periods of the active ones are positive and do not take the next expiry past the end of the clock.
\<close>

fun timer_op_ok :: "timer_op \<Rightarrow> os_time \<Rightarrow> bool" where
  "timer_op_ok (TCreate t d cb arg p) s \<longleftrightarrow> \<not> ot_active (tm_timers s t)"
| "timer_op_ok TProcess s \<longleftrightarrow> (\<forall>t. ot_active (tm_timers s t) \<longrightarrow> period_ok (time_now_us s) (tm_timers s t))"
| "timer_op_ok _ s \<longleftrightarrow> True"

fun timer_ops_ok :: "timer_op list \<Rightarrow> os_time \<Rightarrow> bool" where
  "timer_ops_ok [] s \<longleftrightarrow> True"
| "timer_ops_ok (p # ps) s \<longleftrightarrow> timer_op_ok p s \<and> (case timer_step p s of None \<Rightarrow> True | Some s' \<Rightarrow> timer_ops_ok ps s')"

lemma timer_run_append: "timer_run (ps @ qs) s = Option.bind (timer_run ps s) (timer_run qs)"
  by (induction ps arbitrary: s) (auto split: option.splits)

lemma timer_ops_ok_append:
  "timer_ops_ok (ps @ qs) s \<longleftrightarrow> timer_ops_ok ps s \<and> (case timer_run ps s of None \<Rightarrow> True | Some s' \<Rightarrow> timer_ops_ok qs s')"
  by (induction ps arbitrary: s) (auto split: option.splits)

lemma stop_inactive: "\<not> ot_active (tm_timers s t) \<Longrightarrow> os_timer_stop (Some t) s = Some (-1, s)"
  by (simp add: os_timer_stop_def)

lemma timer_step_wf:
  assumes wf: "timers_wf s xs" and ok: "timer_op_ok p s"
  shows "\<exists>s' ys. timer_step p s = Some s' \<and> timers_wf s' ys"
proof -
  have act: "ot_active (tm_timers s t) \<longleftrightarrow> t \<in> set xs" for t using wf by (simp add: timers_wf_def)
  have stop: "\<exists>r s' ys. os_timer_stop (Some t) s = Some (r, s') \<and> timers_wf s' ys \<and> t \<notin> set ys" for t
  proof (cases "t \<in> set xs")
    case True
    then show ?thesis using stop_wf [OF wf True] wf by (metis timers_wf_def set_remove1_eq DiffD2 singletonI)
  next
    case False
    then show ?thesis using wf stop_inactive [of s t] act [of t] by blast
  qed
  show ?thesis
  proof (cases p)
    case (TCreate t d cb arg q)
    then have "timers_wf (snd (os_timer_create (Some t) d (Some cb) arg q s)) xs" using ok create_wf [OF wf, of t] act [of t] by simp
    then show ?thesis using TCreate by auto
  next
    case (TStart t)
    then show ?thesis
    proof (cases "t \<in> set xs")
      case True
      then show ?thesis using TStart wf act [of t] by (auto simp: os_timer_start_def)
    next
      case False
      then show ?thesis using TStart start_wf [OF wf False] by auto
    qed
  next
    case (TStop t)
    then show ?thesis using stop [of t] by auto
  next
    case (TDelete t)
    obtain r s' ys where d: "os_timer_stop (Some t) s = Some (r, s')" "timers_wf s' ys" "t \<notin> set ys" using stop by blast
    have "timers_wf (upd_timer t (\<lambda>r. r\<lparr>ot_callback := None, ot_arg := 0\<rparr>) s') ys"
      using d by (intro upd_wf) (simp_all add: timers_wf_def)
    then show ?thesis using TDelete d(1) by (auto simp: os_timer_delete_def)
  next
    case (TNow now)
    then show ?thesis using wf by (auto simp: time_set_now_us_def timers_wf_def)
  next
    case (TRtc epoch)
    then show ?thesis using wf by (auto simp: time_rtc_set_def timers_wf_def)
  next
    case TProcess
    then have "\<forall>t\<in>set xs. period_ok (time_now_us s) (tm_timers s t)" using ok act by simp
    from timers_loop_log [OF wf this, of "[]"] show ?thesis using TProcess by (auto simp: timers_process_def)
  qed
qed

text \<open>No timer is active and the list is empty, as at boot.\<close>

definition time_boot :: "os_time" where
  "time_boot = \<lparr>tm_boot_time = 0, tm_offset = 0, tm_list = None,
     tm_timers = (\<lambda>_. \<lparr>ot_expire_time = 0, ot_callback = None, ot_arg = 0, ot_periodic = False, ot_period = 0, ot_next = None, ot_active = False\<rparr>)\<rparr>"

lemma timer_run_wf: "timers_wf s xs \<Longrightarrow> timer_ops_ok ps s \<Longrightarrow> \<exists>s' ys. timer_run ps s = Some s' \<and> timers_wf s' ys"
proof (induction ps arbitrary: s xs)
  case (Cons p ps)
  have "timer_op_ok p s" using Cons.prems(2) by simp
  then obtain s1 ys1 where "timer_step p s = Some s1" "timers_wf s1 ys1" using timer_step_wf [OF Cons.prems(1)] by blast
  then show ?case using Cons.IH Cons.prems(2) by simp
qed auto

lemma filter_due: "sorted (map (expires T) zs) \<Longrightarrow> filter (\<lambda>t. expires T t \<le> now) zs = takeWhile (\<lambda>t. expires T t \<le> now) zs"
proof (induction zs)
  case (Cons a zs)
  show ?case
  proof (cases "expires T a \<le> now")
    case False
    then have "\<forall>t\<in>set zs. \<not> expires T t \<le> now" using Cons.prems by (auto dest: order_trans)
    then show ?thesis using False by (simp add: filter_empty_conv)
  qed (use Cons in simp)
qed simp

text \<open>
  C13: Take any calls from boot that create, start, stop and delete timers, set the clock or the real-time offset and process
  the timers, in which no active timer is created again and, whenever the timers are processed, the periods of the
  active ones are positive and do not take the next expiry past the end of the clock. Then the links form a finite
  list of exactly the active timers, each once, in the order of expiry. Processing that list returns: it
  calls the callbacks of exactly the timers that are due, in that order, once each, drops the one-shot timers among
  them, and arms the periodic ones one period from now; all others keep their expiry. The callbacks leave the timers alone.
\<close>

theorem timers_process_due:
  assumes "timer_ops_ok (ps @ [TProcess]) time_boot"
  shows "\<exists>s xs s' ys. timer_run ps time_boot = Some s \<and> timers_wf s xs \<and>
    timers_process log_timer s [] = Some (s', timer_calls (tm_timers s) (filter (\<lambda>t. expires (tm_timers s) t \<le> time_now_us s) xs)) \<and>
    timers_wf s' ys \<and> set ys = {t \<in> set xs. time_now_us s < expires (tm_timers s) t \<or> ot_periodic (tm_timers s t)} \<and>
    (\<forall>t\<in>set ys. expires (tm_timers s') t =
      (if time_now_us s < expires (tm_timers s) t then expires (tm_timers s) t else time_now_us s + ot_period (tm_timers s t)))"
proof -
  have "timers_wf time_boot []" by (simp add: timers_wf_def time_boot_def)
  then obtain s xs where s: "timer_run ps time_boot = Some s" "timers_wf s xs" using timer_run_wf [of _ _ ps] assms unfolding timer_ops_ok_append by blast
  have "sorted (map (expires (tm_timers s)) xs)" using s(2) by (simp add: timers_wf_def)
  note due = filter_due [OF this, of "time_now_us s"]
  have "\<forall>t\<in>set xs. period_ok (time_now_us s) (tm_timers s t)"
    using assms s by (simp add: timer_ops_ok_append timers_wf_def)
  from timers_loop_log [OF s(2) this, of "[]"] s show ?thesis
    unfolding timers_process_def append_Nil due [symmetric] by blast
qed

theorem timers_process_due_witness:
  "\<exists>s s'. timer_run [TCreate 1 100 7 5 True, TStart 1, TNow 250, TProcess, TNow 360] time_boot = Some s \<and>
    timers_process log_timer s [] = Some (s', [(7, 5)]) \<and> expires (tm_timers s') 1 = 460"
proof -
  let ?ps = "[TCreate 1 100 7 5 True, TStart 1, TNow 250, TProcess, TNow 360]"
  define at where "at now e = \<lparr>tm_boot_time = now, tm_offset = 0, tm_list = Some 1, tm_timers = (tm_timers time_boot)(1 := \<lparr>ot_expire_time = e,
    ot_callback = Some 7, ot_arg = 5, ot_periodic = True, ot_period = 100, ot_next = None, ot_active = True\<rparr>)\<rparr>" for now e
  note defs = time_boot_def os_timer_create_def os_timer_start_def timer_list_insert_def insert_slot.simps set_link_def upd_timer_def
    time_now_us_def time_set_now_us_def
  have r1: "timer_run [TCreate 1 100 7 5 True, TStart 1, TNow 250] time_boot = Some (at 250 100)"
    by (simp add: defs at_def)
  have tp: "timers_process log_timer (at 250 100) [] = Some (at 250 350, [(7, 5)])"
    by (simp add: defs at_def timers_process_def timers_loop.simps [of _ _ "(_, _)"] timer_fire_def Let_def log_timer_def)
  have split: "?ps = [TCreate 1 100 7 5 True, TStart 1, TNow 250] @ [TProcess, TNow 360]" by simp
  have r: "timer_run ?ps time_boot = Some (at 360 350)"
    unfolding split timer_run_append r1 using tp by (simp add: at_def time_set_now_us_def)
  have "timer_ops_ok [TCreate 1 100 7 5 True, TStart 1, TNow 250] time_boot"
    by (simp add: time_boot_def split: option.split)
  moreover have "timer_ops_ok [TProcess, TNow 360, TProcess] (at 250 100)"
    using tp by (simp add: at_def time_set_now_us_def time_boot_def period_ok_def time_now_us_def split: option.split)
  ultimately have "timer_ops_ok ([TCreate 1 100 7 5 True, TStart 1, TNow 250] @ [TProcess, TNow 360, TProcess]) time_boot"
    unfolding timer_ops_ok_append r1 by simp
  then have "timer_ops_ok (?ps @ [TProcess]) time_boot" by simp
  then obtain xs s' ys where x: "timers_wf (at 360 350) xs"
    "timers_process log_timer (at 360 350) [] = Some (s', timer_calls (tm_timers (at 360 350)) (filter (\<lambda>t. expires (tm_timers (at 360 350)) t \<le> time_now_us (at 360 350)) xs))"
    "set ys = {t \<in> set xs. time_now_us (at 360 350) < expires (tm_timers (at 360 350)) t \<or> ot_periodic (tm_timers (at 360 350) t)}"
    "\<forall>t\<in>set ys. expires (tm_timers s') t = (if time_now_us (at 360 350) < expires (tm_timers (at 360 350)) t
      then expires (tm_timers (at 360 350)) t else time_now_us (at 360 350) + ot_period (tm_timers (at 360 350) t))"
    using timers_process_due [of ?ps] unfolding r by auto
  have "xs = [1]" using x(1) by (cases xs; cases "tl xs") (auto simp: timers_wf_def at_def)
  then show ?thesis using r x by (auto simp: at_def timer_calls_def time_now_us_def)
qed

text \<open>
  C40: A one-shot timer ignores its delay: whatever delay it was created with, starting it sets its expiry to
  the current time, so it is due at once, although no time has passed.
\<close>

theorem one_shot_fires_at_once:
  assumes "timers_wf s xs" and "t \<notin> set xs" and "os_timer_create (Some t) delay (Some cb) arg False s = (0, s1)"
  shows "\<exists>s2 ys. os_timer_start (Some t) s1 = Some (0, s2) \<and> timers_wf s2 ys \<and> t \<in> set ys \<and> expires (tm_timers s2) t = time_now_us s2 \<and>
    time_now_us s2 = time_now_us s"
proof -
  have s1: "timers_wf s1 xs" using create_wf [OF assms(1,2), of delay "Some cb" arg False] assms(3) by simp
  have "\<not> ot_periodic (tm_timers s1 t)" "time_now_us s1 = time_now_us s"
    using assms(3) by (auto simp: os_timer_create_def time_now_us_def)
  then show ?thesis using start_wf [OF s1 assms(2)] by fastforce
qed

theorem one_shot_fires_at_once_witness:
  "\<exists>s2 ys. os_timer_start (Some 3) (snd (os_timer_create (Some 3) 60000000 (Some 7) 5 False time_boot)) = Some (0, s2) \<and>
    timers_wf s2 ys \<and> 3 \<in> set ys \<and> expires (tm_timers s2) 3 = 0 \<and> time_now_us s2 = 0"
proof -
  have wf: "timers_wf time_boot []" by (simp add: timers_wf_def time_boot_def)
  have "os_timer_create (Some 3) 60000000 (Some 7) 5 False time_boot = (0, snd (os_timer_create (Some 3) 60000000 (Some 7) 5 False time_boot))"
    by (simp add: os_timer_create_def)
  from one_shot_fires_at_once [OF wf _ this] show ?thesis by (auto simp: time_now_us_def time_boot_def)
qed

end
