(* ===== verification/Link_Dispatch.thy ===== *)
theory Link_Dispatch
  imports Link_Frame
begin

text \<open>
  Calls that arrive over the link, \<^verbatim>\<open>link/link_dispatch.c\<close>: reading the fields of a call, calling the handler and writing
  the reply. A handler is a function on the state of the world that returns a status; a missing one is \<open>None\<close>.
  Strings are byte lists without their final NUL. The result of a dispatch is the reply buffer, the length and the
  channel, or \<open>None\<close> for the return value \<open>-1\<close>, after which the code leaves the reply unspecified.
\<close>

definition LINK_CH_RESULT :: u8 where "LINK_CH_RESULT = 2"
definition LINK_CH_ERROR :: u8 where "LINK_CH_ERROR = 3"
definition LINK_METHOD_NOTIFY :: u8 where "LINK_METHOD_NOTIFY = 1"
definition LINK_METHOD_MESSAGE :: u8 where "LINK_METHOD_MESSAGE = 2"
definition LINK_METHOD_EVENT :: u8 where "LINK_METHOD_EVENT = 3"
definition LINK_METHOD_KEY :: u8 where "LINK_METHOD_KEY = 4"
definition LINK_TAG_METHOD :: u8 where "LINK_TAG_METHOD = 1"
definition LINK_TAG_APP :: u8 where "LINK_TAG_APP = 2"
definition LINK_TAG_TEXT :: u8 where "LINK_TAG_TEXT = 3"
definition LINK_TAG_BODY :: u8 where "LINK_TAG_BODY = 4"
definition LINK_TAG_EXTENT :: u8 where "LINK_TAG_EXTENT = 5"
definition LINK_TAG_DURATION :: u8 where "LINK_TAG_DURATION = 6"
definition LINK_TAG_PRESSED :: u8 where "LINK_TAG_PRESSED = 7"
definition LINK_TAG_STATUS :: u8 where "LINK_TAG_STATUS = 1"
definition LINK_TAG_CODE :: u8 where "LINK_TAG_CODE = 1"
definition LINK_TAG_ERRMSG :: u8 where "LINK_TAG_ERRMSG = 2"
definition LINK_EXTENT_BAND :: u8 where "LINK_EXTENT_BAND = 0"
definition LINK_ERR_UNKNOWN_APP :: u16 where "LINK_ERR_UNKNOWN_APP = 1"
definition LINK_ERR_BAD_ARGS :: u16 where "LINK_ERR_BAD_ARGS = 2"
definition LINK_ERR_UNKNOWN_METHOD :: u16 where "LINK_ERR_UNKNOWN_METHOD = 3"

lemmas link_consts = LINK_CH_RESULT_def LINK_CH_ERROR_def LINK_METHOD_NOTIFY_def LINK_METHOD_MESSAGE_def LINK_METHOD_EVENT_def
  LINK_METHOD_KEY_def LINK_TAG_METHOD_def LINK_TAG_APP_def LINK_TAG_TEXT_def LINK_TAG_BODY_def LINK_TAG_EXTENT_def
  LINK_TAG_DURATION_def LINK_TAG_PRESSED_def LINK_TAG_STATUS_def LINK_TAG_CODE_def LINK_TAG_ERRMSG_def LINK_EXTENT_BAND_def
  LINK_ERR_UNKNOWN_APP_def LINK_ERR_BAD_ARGS_def LINK_ERR_UNKNOWN_METHOD_def

record 'w link_handlers =
  lh_notify :: "(u8 list \<Rightarrow> u8 list option \<Rightarrow> u8 \<Rightarrow> u32 \<Rightarrow> 'w \<Rightarrow> int \<times> 'w) option"
  lh_message :: "(u8 list \<Rightarrow> u8 list \<Rightarrow> 'w \<Rightarrow> int \<times> 'w) option"
  lh_event :: "(u8 list \<Rightarrow> u8 list \<Rightarrow> u8 list option \<Rightarrow> 'w \<Rightarrow> int \<times> 'w) option"
  lh_key :: "(u8 list \<Rightarrow> bool \<Rightarrow> 'w \<Rightarrow> int \<times> 'w) option"

type_synonym link_reply = "(u8 list \<times> nat \<times> u8) option"

definition copy_str :: "u8 list option \<Rightarrow> nat \<Rightarrow> u8 \<Rightarrow> nat \<Rightarrow> u8 list option" where
  "copy_str payload len tag cap =
    (if cap = 0 then None
     else case link_tlv_get payload len tag True 160 True of
       None \<Rightarrow> None
     | Some raw \<Rightarrow> Some (takeWhile (\<lambda>c. c \<noteq> 0) (if length raw \<ge> cap then take (cap - 1) raw else raw)))"

definition put_error :: "u8 list \<Rightarrow> nat \<Rightarrow> u16 \<Rightarrow> u8 list \<Rightarrow> link_reply" where
  "put_error reply cap code text =
    (case link_tlv_put_u16 (Some reply) cap (Some 0) LINK_TAG_CODE code of
       None \<Rightarrow> None
     | Some (reply, used) \<Rightarrow>
         (case link_tlv_put_str (Some reply) cap (Some used) LINK_TAG_ERRMSG (Some text) of
            None \<Rightarrow> None
          | Some (reply, used) \<Rightarrow> Some (reply, used, LINK_CH_ERROR)))"

definition put_ok :: "u8 list \<Rightarrow> nat \<Rightarrow> link_reply" where
  "put_ok reply cap =
    (case link_tlv_put_u8 (Some reply) cap (Some 0) LINK_TAG_STATUS 0 of
       None \<Rightarrow> None
     | Some (reply, used) \<Rightarrow> Some (reply, used, LINK_CH_RESULT))"

definition ascii :: "string \<Rightarrow> u8 list" where
  "ascii s = map of_char s"

text \<open>The reply to the status of a handler that fails with bad arguments.\<close>

definition reply_status :: "u8 list \<Rightarrow> nat \<Rightarrow> u8 list \<Rightarrow> int \<times> 'w \<Rightarrow> link_reply \<times> 'w" where
  "reply_status reply cap text r =
    (if fst r \<noteq> 0 then put_error reply cap LINK_ERR_BAD_ARGS text else put_ok reply cap, snd r)"

definition dispatch_notify :: "'w link_handlers \<Rightarrow> u8 list option \<Rightarrow> nat \<Rightarrow> u8 list \<Rightarrow> nat \<Rightarrow> 'w \<Rightarrow> link_reply \<times> 'w" where
  "dispatch_notify handlers payload len reply cap w =
    (case (lh_notify handlers, copy_str payload len LINK_TAG_TEXT 160) of
       (Some notify, Some (c # text)) \<Rightarrow>
         let body = (case copy_str payload len LINK_TAG_BODY 160 of None \<Rightarrow> [] | Some b \<Rightarrow> b);
             extent = (case link_tlv_get payload len LINK_TAG_EXTENT True 1 True of Some [e] \<Rightarrow> e | _ \<Rightarrow> LINK_EXTENT_BAND);
             duration = (case link_tlv_get payload len LINK_TAG_DURATION True 4 True of
                Some [a, b, c, d] \<Rightarrow> le32 a b c d | _ \<Rightarrow> 0)
         in reply_status reply cap (ascii ''notify'') (notify (c # text) (if body = [] then None else Some body) extent duration w)
     | _ \<Rightarrow> (put_error reply cap LINK_ERR_BAD_ARGS (ascii ''title''), w))"

definition dispatch_app :: "'w link_handlers \<Rightarrow> u8 \<Rightarrow> u8 list option \<Rightarrow> nat \<Rightarrow> u8 list \<Rightarrow> nat \<Rightarrow> 'w \<Rightarrow> link_reply \<times> 'w" where
  "dispatch_app handlers meth payload len reply cap w =
    (case (copy_str payload len LINK_TAG_APP 32, copy_str payload len LINK_TAG_TEXT 160) of
       (Some (a # app), Some (c # text)) \<Rightarrow>
         (let finish = (\<lambda>(rc, w).
            (if rc \<noteq> 0 then put_error reply cap (if rc > 0 then of_int rc else LINK_ERR_UNKNOWN_APP) (a # app) else put_ok reply cap, w))
          in if meth = LINK_METHOD_MESSAGE
             then (case lh_message handlers of
                     None \<Rightarrow> (put_error reply cap LINK_ERR_UNKNOWN_METHOD (ascii ''message''), w)
                   | Some message \<Rightarrow> finish (message (a # app) (c # text) w))
             else (case lh_event handlers of
                     None \<Rightarrow> (put_error reply cap LINK_ERR_UNKNOWN_METHOD (ascii ''event''), w)
                   | Some event \<Rightarrow>
                       let extra = (case link_tlv_get payload len LINK_TAG_BODY True 64 True of None \<Rightarrow> [] | Some x \<Rightarrow> x)
                       in finish (event (a # app) (c # text) (if extra = [] then None else Some extra) w)))
     | _ \<Rightarrow> (put_error reply cap LINK_ERR_BAD_ARGS (ascii ''app''), w))"

definition dispatch_key :: "'w link_handlers \<Rightarrow> u8 list option \<Rightarrow> nat \<Rightarrow> u8 list \<Rightarrow> nat \<Rightarrow> 'w \<Rightarrow> link_reply \<times> 'w" where
  "dispatch_key handlers payload len reply cap w =
    (case (lh_key handlers, copy_str payload len LINK_TAG_TEXT 160) of
       (Some key, Some (c # text)) \<Rightarrow>
         let pressed = (case link_tlv_get payload len LINK_TAG_PRESSED True 1 True of Some [p] \<Rightarrow> p | _ \<Rightarrow> 1)
         in reply_status reply cap (ascii ''key'') (key (c # text) (pressed \<noteq> 0) w)
     | _ \<Rightarrow> (put_error reply cap LINK_ERR_BAD_ARGS (ascii ''key''), w))"

definition link_dispatch_call ::
    "'w link_handlers option \<Rightarrow> u8 list option \<Rightarrow> nat \<Rightarrow> u8 list option \<Rightarrow> nat \<Rightarrow> 'w \<Rightarrow> link_reply \<times> 'w" where
  "link_dispatch_call handlers payload len reply cap w =
    (case (handlers, reply) of
       (Some hs, Some reply) \<Rightarrow>
         if payload = None \<and> len > 0 then (None, w)
         else (case link_tlv_get payload len LINK_TAG_METHOD True 1 True of
            Some [meth] \<Rightarrow>
              if meth = LINK_METHOD_NOTIFY then dispatch_notify hs payload len reply cap w
              else if meth = LINK_METHOD_MESSAGE \<or> meth = LINK_METHOD_EVENT then dispatch_app hs meth payload len reply cap w
              else if meth = LINK_METHOD_KEY then dispatch_key hs payload len reply cap w
              else (put_error reply cap LINK_ERR_UNKNOWN_METHOD (ascii ''method''), w)
          | _ \<Rightarrow> (put_error reply cap LINK_ERR_BAD_ARGS (ascii ''method''), w))
     | _ \<Rightarrow> (None, w))"

section \<open>Replies\<close>

text \<open>A reply on the result channel with status 0, or one on the error channel with a code and a text.\<close>

definition good_reply :: "link_reply \<Rightarrow> bool" where
  "good_reply r \<longleftrightarrow> (\<exists>buf n ch. r = Some (buf, n, ch) \<and>
     (ch = LINK_CH_RESULT \<and> tlv_area buf n [(LINK_TAG_STATUS, [0])] \<or>
      ch = LINK_CH_ERROR \<and> (\<exists>code text. tlv_area buf n [(LINK_TAG_CODE, [byte_at 0 code, byte_at 1 (code :: u16)]), (LINK_TAG_ERRMSG, text)])))"

lemma put_ok_good: "3 \<le> cap \<Longrightarrow> cap \<le> length reply \<Longrightarrow>
    \<exists>buf. put_ok reply cap = Some (buf, 3, LINK_CH_RESULT) \<and> tlv_area buf 3 [(LINK_TAG_STATUS, [0])]"
  using link_tlv_put_ex [of reply 0 "[]" "[0]" cap 3 1 LINK_TAG_STATUS] by (auto simp: put_ok_def link_tlv_put_u8_def)

lemma put_error_good:
  assumes "length text \<le> 31" "37 \<le> cap" "cap \<le> length reply"
  shows "\<exists>buf. put_error reply cap code text = Some (buf, 6 + length text, LINK_CH_ERROR) \<and>
    tlv_area buf (6 + length text) [(LINK_TAG_CODE, [byte_at 0 code, byte_at 1 code]), (LINK_TAG_ERRMSG, text)]"
proof -
  let ?c = "[byte_at 0 code, byte_at 1 code]"
  have "\<exists>b. link_tlv_put (Some reply) cap (Some 0) LINK_TAG_CODE (Some ?c) 2 = Some (b, 4) \<and> tlv_area b 4 ([] @ [(LINK_TAG_CODE, ?c)]) \<and>
      length b = length reply"
    using assms by (intro link_tlv_put_ex) simp_all
  then obtain b where b: "link_tlv_put_u16 (Some reply) cap (Some 0) LINK_TAG_CODE code = Some (b, 4)"
    "tlv_area b 4 [(LINK_TAG_CODE, ?c)]" "length b = length reply"
    unfolding link_tlv_put_u16_def append_Nil by blast
  have "\<exists>b'. link_tlv_put (Some b) cap (Some 4) LINK_TAG_ERRMSG (Some text) (of_nat (length text)) = Some (b', 6 + length text) \<and>
      tlv_area b' (6 + length text) ([(LINK_TAG_CODE, ?c)] @ [(LINK_TAG_ERRMSG, text)]) \<and> length b' = length b"
    using assms b(3) by (intro link_tlv_put_ex [OF b(2)]) simp_all
  then obtain b' where "link_tlv_put_str (Some b) cap (Some 4) LINK_TAG_ERRMSG (Some text) = Some (b', 6 + length text)"
    "tlv_area b' (6 + length text) [(LINK_TAG_CODE, ?c), (LINK_TAG_ERRMSG, text)]"
    using assms(1) by (auto simp: link_tlv_put_str_def)
  then show ?thesis using b(1) by (simp add: put_error_def)
qed

lemma good_replies:
  assumes "37 \<le> cap" "cap \<le> length reply"
  shows "good_reply (put_ok reply cap)" "length text \<le> 31 \<Longrightarrow> good_reply (put_error reply cap code text)"
  using put_ok_good [of cap reply] put_error_good [OF _ assms, of "text" code] assms by (auto simp: good_reply_def)

lemma length_ascii [simp]: "length (ascii s) = length s"
  by (simp add: ascii_def)

lemma copy_str_length: "copy_str payload len tag cap = Some s \<Longrightarrow> length s \<le> cap - 1"
  by (auto simp: copy_str_def split: if_splits option.splits intro: order.trans [OF length_takeWhile_le])

lemma dispatch_app_good:
  assumes "37 \<le> cap" "cap \<le> length reply"
  shows "good_reply (fst (dispatch_app hs m payload len reply cap w))"
proof -
  note g = good_replies [OF assms]
  have bad: "good_reply (put_error reply cap LINK_ERR_BAD_ARGS (ascii ''app''))" using g by simp
  show ?thesis
  proof (cases "copy_str payload len LINK_TAG_APP 32")
    case None
    then show ?thesis using bad by (simp add: dispatch_app_def)
  next
    case (Some app)
    have l: "length app \<le> 31" using copy_str_length [OF Some] by simp
    show ?thesis
    proof (cases "copy_str payload len LINK_TAG_TEXT 160")
      case None
      then show ?thesis using bad Some by (cases app) (simp_all add: dispatch_app_def)
    next
      case (Some body)
      then show ?thesis using bad g l \<open>copy_str payload len LINK_TAG_APP 32 = Some app\<close>
        by (cases app; cases body; cases "lh_message hs"; cases "lh_event hs") (simp_all add: dispatch_app_def Let_def split: prod.split)
    qed
  qed
qed

text \<open>
  C32: A call with handlers and a reply buffer of at least 37 bytes is always answered: whatever bytes arrive, the reply is
  either a status on the result channel or a code and a text on the error channel, in fields that can be read back.
\<close>

theorem link_dispatch_replies:
  assumes "37 \<le> cap" and "cap \<le> length reply" and "payload \<noteq> None \<or> len = 0"
  shows "good_reply (fst (link_dispatch_call (Some hs) payload len (Some reply) cap w))"
proof -
  note g = good_replies [OF assms(1,2)]
  have st: "good_reply (fst (reply_status reply cap text r))" if "length text \<le> 31" for "text" and r :: "int \<times> 'a"
    using g that by (simp add: reply_status_def)
  have n: "good_reply (fst (dispatch_notify hs payload len reply cap w))"
    using g st by (cases "lh_notify hs"; cases "copy_str payload len LINK_TAG_TEXT 160"; cases "the (copy_str payload len LINK_TAG_TEXT 160)")
      (simp_all add: dispatch_notify_def Let_def)
  have k: "good_reply (fst (dispatch_key hs payload len reply cap w))"
    using g st by (cases "lh_key hs"; cases "copy_str payload len LINK_TAG_TEXT 160"; cases "the (copy_str payload len LINK_TAG_TEXT 160)")
      (simp_all add: dispatch_key_def Let_def)
  have a: "good_reply (fst (dispatch_app hs m payload len reply cap w))" for m
    by (rule dispatch_app_good [OF assms(1,2)])
  show ?thesis
  proof (cases "link_tlv_get payload len LINK_TAG_METHOD True 1 True")
    case None
    then show ?thesis using g assms(3) by (auto simp: link_dispatch_call_def)
  next
    case (Some v)
    then show ?thesis using g n a k assms(3) by (cases v; cases "tl v") (auto simp: link_dispatch_call_def)
  qed
qed

theorem link_dispatch_replies_witness:
  "good_reply (fst (link_dispatch_call (Some \<lparr>lh_notify = None, lh_message = None, lh_event = None, lh_key = None\<rparr>) (Some [1, 1, 9]) 3
      (Some (replicate 64 0)) 64 (0 :: nat)))"
  using link_dispatch_replies [of 64 "replicate 64 0" "Some [1, 1, 9]" 3] by simp

section \<open>Delivery of a message\<close>

lemma copy_str_field:
  assumes "tlv_area buf len fs" "tlv_lookup fs tag = Some v" "length v < cap" "length v \<le> 160" "0 \<notin> set v"
  shows "copy_str (Some buf) len tag cap = Some v"
proof -
  have "takeWhile (\<lambda>c. c \<noteq> 0) v = v" using assms(5) by (auto simp: takeWhile_eq_all_conv)
  then show ?thesis using link_tlv_get_area [OF assms(1), of tag True 160] assms by (simp add: copy_str_def)
qed

text \<open>
  A message call whose payload holds, in any order and among other fields, the method, the application and the text is
  handed to the message handler with exactly that application and text, once, and a handler that accepts it is answered
  on the result channel with status 0. The application name has up to 31 bytes and the text up to 159, without NUL.
\<close>

lemma link_dispatch_message:
  assumes "tlv_area buf len fs" "tlv_lookup fs LINK_TAG_METHOD = Some [LINK_METHOD_MESSAGE]"
    and "tlv_lookup fs LINK_TAG_APP = Some app" "app \<noteq> []" "length app \<le> 31" "0 \<notin> set app"
    and "tlv_lookup fs LINK_TAG_TEXT = Some body" "body \<noteq> []" "length body \<le> 159" "0 \<notin> set body"
    and "lh_message hs = Some message" "message app body w = (0, w')" and "3 \<le> cap" "cap \<le> length reply"
  shows "\<exists>out. link_dispatch_call (Some hs) (Some buf) len (Some reply) cap w = (Some (out, 3, LINK_CH_RESULT), w') \<and>
    link_tlv_get (Some out) 3 LINK_TAG_STATUS True 1 True = Some [0]"
proof -
  have m: "link_tlv_get (Some buf) len LINK_TAG_METHOD True 1 True = Some [LINK_METHOD_MESSAGE]"
    using link_tlv_get_area [OF assms(1)] assms(2) by simp
  have a: "copy_str (Some buf) len LINK_TAG_APP 32 = Some app" using assms(5,6) by (intro copy_str_field [OF assms(1,3)]) simp_all
  have t: "copy_str (Some buf) len LINK_TAG_TEXT 160 = Some body" using assms(9,10) by (intro copy_str_field [OF assms(1,7)]) simp_all
  obtain out where o: "put_ok reply cap = Some (out, 3, LINK_CH_RESULT)" "tlv_area out 3 [(LINK_TAG_STATUS, [0])]"
    using put_ok_good [OF assms(13,14)] by blast
  have "link_dispatch_call (Some hs) (Some buf) len (Some reply) cap w = (Some (out, 3, LINK_CH_RESULT), w')"
    using m a t o(1) assms(4,8,11,12)
    by (cases app; cases body) (simp_all add: link_dispatch_call_def dispatch_app_def LINK_METHOD_MESSAGE_def LINK_METHOD_NOTIFY_def)
  moreover have "link_tlv_get (Some out) 3 LINK_TAG_STATUS True 1 True = Some [0]"
    using link_tlv_get_area [OF o(2)] by (simp add: tlv_lookup_def)
  ultimately show ?thesis by blast
qed

end
