(* ===== verification/Spec2Isabelle.thy ===== *)
theory Spec2Isabelle
  imports Link_Session Aes_Cipher Event_Bus Scheduler_Props Tlsf_Props Config_Props Ota Module_Image Input_Service Os_Time Link_Dispatch
begin

text \<open>
  \<^bold>\<open>Verification of the tiny device OS.\<close> The sources are a small operating system in C: a kernel (scheduler, heap, event
  bus, power, time), a serial link with encrypted sessions, storage (devices, file systems, settings, firmware updates),
  loadable modules and input. This library translates those parts to HOL and proves what they do.

  \<^bold>\<open>Conventions.\<close> A structure is a record with the fields of the source, an enumeration a datatype or its number, and a
  machine integer a word of its width. Sizes and indices are natural numbers where the code keeps them in range, and
  otherwise the wrap-around is written out. A pointer that the code compares with NULL is an option, a byte buffer a list, a string
  a list without its NUL. Global state is passed explicitly. The success of an allocation, the time and the readings of a
  sensor are arguments. A callback is a parameter that may change the state, or a call that is logged. A spin lock
  that is held, a loop that does not end and an access outside an array are the result \<open>None\<close> of the operation.

  \<^bold>\<open>Parts and theories.\<close>

  \<^item> \<open>Ardu_Prelude\<close>: word types, byte buffers and little-endian fields, with their lemma collections. \<open>Linked_Lists\<close>: doubly
    linked lists over pointer fields. \<open>Ring_Queue\<close>: ring buffers and the locale \<open>bounded_queue\<close>.

  \<^item> \<open>Link_Frame\<close> (\<^verbatim>\<open>link/link_frame.c\<close>): checksum, frames, tagged fields, and the reassembly of a byte stream, which is shown to
    deliver exactly the frames sent, as long as no push overflows its buffer. \<open>Link_Crypto\<close> and \<open>Aes_Cipher\<close> (\<^verbatim>\<open>link/link_crypto.c\<close>): AES-128-GCM against
    its definitions over the field, the round trip (locale \<open>aead\<close>), and the permutation property of the cipher.
    \<open>Link_Session\<close> (\<^verbatim>\<open>link/link_session.c\<close>): sealing, opening, replay protection, and
    the nonces: every frame sent is encrypted under the nonce of its own counter, and no two share one until a hello is repeated.
    \<open>Link_Dispatch\<close> (\<^verbatim>\<open>link/link_dispatch.c\<close>): calls and replies. The property \<open>remote_message\<close> below composes these.

  \<^item> \<open>Scheduler\<close>, \<open>Scheduler_Lists\<close>, \<open>Scheduler_Steps\<close>, \<open>Scheduler_Props\<close> (\<^verbatim>\<open>kernel/scheduler.c\<close>): tasks on linked lists, the
    list-level scheduler that the pointer code implements, the calls of a running system as a step relation with its
    invariant, sleeping and waking, and the departures from the comments.

  \<^item> \<open>Tlsf_Alloc\<close>, \<open>Tlsf_Lists\<close>, \<open>Tlsf_Heap\<close>, \<open>Tlsf_Props\<close> (\<^verbatim>\<open>kernel/alloc.c\<close>): block headers and free lists of a pool, the
    behaviour of allocation and release on the list of allocations, and the interface \<open>heap_iface\<close> of a client.

  \<^item> \<open>Event_Bus\<close> (\<^verbatim>\<open>kernel/event.c\<close>): topics, subscribers by priority, queued and synchronous delivery, and a
    step relation of clients whose callbacks use the bus during a delivery.
    \<open>Input_Service\<close> (\<^verbatim>\<open>apps/input.c\<close>): devices, mappings, key presses and their delivery. Both interpret \<open>bounded_queue\<close> on
    their own ring buffers.

  \<^item> \<open>Power_Governor\<close> (\<^verbatim>\<open>kernel/power.c\<close>, \<^verbatim>\<open>kernel/power_governor.c\<close>): frequencies, wake sources, load windows and the
    thermal rule. \<open>Os_Time\<close> (\<^verbatim>\<open>kernel/os_time.c\<close>): the clock and the timer list.

  \<^item> \<open>Sim_Storage\<close> (\<^verbatim>\<open>hal/arch/sim/hal_storage_sim.c\<close>), \<open>Vfs\<close> (\<^verbatim>\<open>fs/vfs.c\<close>) and \<open>Fatfs\<close> (\<^verbatim>\<open>fs/fatfs/fatfs_vfs.c\<close>): the storage
    device, the file system switch with its longest-prefix rule, and the file system on the raw device, which
    interprets the locale \<open>byte_file\<close>. \<open>Config_Store\<close>, \<open>Config_Map\<close>, \<open>Config_Props\<close> (\<^verbatim>\<open>fs/config_store.c\<close>): the settings store as a
    map of typed values, and what saving and loading keep.

  \<^item> \<open>Crc32\<close>, \<open>Ota\<close> (\<^verbatim>\<open>fs/ota.c\<close>) and \<open>Module_Image\<close> (\<^verbatim>\<open>drivers/module.c\<close>): the checksum against its bit-wise definition, firmware
    images and their metadata, and module images that load with what was put into them.

  \<^bold>\<open>Groups of lemmas.\<close> Each component has an invariant and lemmas that its operations keep it; the behaviour of each operation on
  the abstraction of its state (lists of tasks, allocations, queued events, settings, timers); and properties of sequences of
  calls. Round trips, equivalences with reference definitions, and error behaviour follow from these. The properties are
  numbered in the texts before them. Those of the error kind state what the code does where it fails its purpose.

  \<^bold>\<open>Bounds and loops.\<close> Table sizes and limits are those of the sources. There is no fuel: a loop along pointers or over callbacks
  is a partial function into an option, and the properties state that it returns. The heap is that of a target with 32-bit
  addresses; \<open>size_t\<close> has 64 bits in the module loader. Timer periods are positive in the property of \<open>timers_process\<close>,
  for a period of zero keeps it from returning. The properties of delivery to input devices and timers
  use callbacks that log their calls and leave the service unchanged; the models allow others. Memory is available
  in the properties of the settings store, except where one names the case that it is not.

  \<^bold>\<open>Not modelled.\<close> The hardware layers of the boards, the simulator's windows and display models, and LittleFS, whose library is not in the
  sources, are input and output or foreign code. The user interface, the application frame, the terminal, sensor and
  notification services, the system calls, the link bridge, the driver registry, the wall clock and the game entities have
  behaviour of their own that is not translated here. In the parts that are modelled, the following is left out: the waiting loops
  of \<^verbatim>\<open>power_light_sleep\<close> and \<^verbatim>\<open>time_sleep_us\<close>, the switch of machine stacks (a task is parked at the call that gave up control),
  the data bytes of the heap, functions that only release memory, and the key and signature generation of \<^verbatim>\<open>fs/ed25519.c\<close>,
  which is a placeholder in the sources.
\<close>

section \<open>A call over the link\<close>

text \<open>
  C12: A message call travels the whole link. One end seals a payload of fields that holds the method, the application and
  the text; the other end, its peer, decodes the frame, opens it and dispatches the payload: the message handler is called
  with that application and text, and the reply is three bytes on the result channel in which the caller reads status 0.
  The payload fits a sealed frame, the application has 1 to 31 and the text 1 to 159 bytes without a NUL, and the handler returns 0.
\<close>

theorem remote_message:
  assumes "session_wf s" "peers s r" "se_open s" "se_open r" "se_rx_counter r < se_tx_counter s + 1"
    and "tlv_wf fs" "length (tlv_bytes fs) \<le> 216" "length (tlv_bytes fs) + 35 \<le> length wire"
    and "tlv_lookup fs LINK_TAG_METHOD = Some [LINK_METHOD_MESSAGE]"
    and "tlv_lookup fs LINK_TAG_APP = Some app" "app \<noteq> []" "length app \<le> 31" "0 \<notin> set app"
    and "tlv_lookup fs LINK_TAG_TEXT = Some body" "body \<noteq> []" "length body \<le> 159" "0 \<notin> set body"
    and "lh_message hs = Some message" "message app body w = (0, w')" and "3 \<le> length reply"
  shows "\<exists>s' wire' f r' plain out.
    link_session_seal (Some s) ch mid (Some (tlv_bytes fs)) (length (tlv_bytes fs)) (Some wire) (length wire)
      = (int (length (tlv_bytes fs) + 35), Some s', Some wire') \<and>
    link_frame_decode (Some wire') (length (tlv_bytes fs) + 35) (Some link_frame_zero) = (int (length (tlv_bytes fs) + 35), Some f) \<and>
    link_session_open (Some r) (Some f) (Some link_frame_zero) = (0, Some r', Some plain) \<and>
    link_dispatch_call (Some hs) (Some (fr_payload plain)) (unat (fr_length plain)) (Some reply) (length reply) w
      = (Some (out, 3, LINK_CH_RESULT), w') \<and>
    link_tlv_get (Some out) 3 LINK_TAG_STATUS True 1 True = Some [0]"
proof -
  let ?p = "tlv_bytes fs"
  let ?plain = "opened ch mid (take (length ?p) ?p)"
  have pl: "fr_payload ?plain = ?p @ replicate (240 - length ?p) 0" "unat (fr_length ?plain) = length ?p"
    using assms(7) by (simp_all add: opened_def unat_of_nat)
  have area: "tlv_area (fr_payload ?plain) (length ?p) fs" using assms(6) unfolding pl by (simp add: tlv_area_def)
  obtain out where d: "link_dispatch_call (Some hs) (Some (fr_payload ?plain)) (unat (fr_length ?plain)) (Some reply) (length reply) w
      = (Some (out, 3, LINK_CH_RESULT), w')"
    and st: "link_tlv_get (Some out) 3 LINK_TAG_STATUS True 1 True = Some [0]"
    unfolding pl(2) using link_dispatch_message [OF area assms(9-20) order_refl] by blast
  obtain wire' f where "link_session_seal (Some s) ch mid (Some ?p) (length ?p) (Some wire) (length wire)
      = (int (length ?p + 35), Some (s\<lparr>se_tx_counter := se_tx_counter s + 1\<rparr>), Some wire')"
    "link_frame_decode (Some wire') (length ?p + 35) (Some link_frame_zero) = (int (length ?p + 35), Some f)"
    "link_session_open (Some r) (Some f) (Some link_frame_zero) = (0, Some (r\<lparr>se_rx_counter := se_tx_counter s + 1\<rparr>), Some ?plain)"
    using seal_decode_open [OF assms(1-4,7) order_refl assms(8) order_refl assms(5), of ch mid link_frame_zero] by blast
  with d st show ?thesis by blast
qed

theorem remote_message_witness:
  "\<exists>s' wire' f r' plain out.
    link_session_seal (Some (demo_session 1)) 1 9 (Some [1, 1, 2, 2, 1, 97, 3, 2, 104, 105]) 10 (Some (replicate 60 0)) 60
      = (45, Some s', Some wire') \<and>
    link_frame_decode (Some wire') 45 (Some link_frame_zero) = (45, Some f) \<and>
    link_session_open (Some (demo_session 0)) (Some f) (Some link_frame_zero) = (0, Some r', Some plain) \<and>
    link_dispatch_call (Some \<lparr>lh_notify = None, lh_message = Some (\<lambda>app body w. (0, (app, body) # w)), lh_event = None, lh_key = None\<rparr>)
      (Some (fr_payload plain)) (unat (fr_length plain)) (Some (replicate 64 0)) 64 [] = (Some (out, 3, LINK_CH_RESULT), [([97], [104, 105])]) \<and>
    link_tlv_get (Some out) 3 LINK_TAG_STATUS True 1 True = Some [0]"
proof -
  have c: "session_wf (demo_session 1)" "peers (demo_session 1) (demo_session 0)" "se_open (demo_session 1)" "se_open (demo_session 0)"
    "se_rx_counter (demo_session 0) < se_tx_counter (demo_session 1) + 1"
    by (simp_all add: demo_session_def session_wf_def peers_def)
  define fs :: "(u8 \<times> u8 list) list" where "fs = [(1, [2]), (2, [97]), (3, [104, 105])]"
  have b: "tlv_bytes fs = [1, 1, 2, 2, 1, 97, 3, 2, 104, 105]" and l: "length (tlv_bytes fs) = 10" by (simp_all add: fs_def)
  have f: "tlv_wf fs" "tlv_lookup fs LINK_TAG_METHOD = Some [LINK_METHOD_MESSAGE]" "tlv_lookup fs LINK_TAG_APP = Some [97]"
    "tlv_lookup fs LINK_TAG_TEXT = Some [104, 105]"
    by (simp_all add: fs_def tlv_wf_def tlv_lookup_def link_consts)
  have n: "(10 :: nat) + 35 = 45" "int 45 = 45" "length (replicate 60 (0 :: u8)) = 60" "length (replicate 64 (0 :: u8)) = 64" by simp_all
  note m = remote_message [OF c f(1) _ _ f(2,3) _ _ _ f(4), where wire = "replicate 60 0" and reply = "replicate 64 0" and ch = 1 and mid = 9
      and hs = "\<lparr>lh_notify = None, lh_message = Some (\<lambda>app body w. (0, (app, body) # w)), lh_event = None, lh_key = None\<rparr>"
      and message = "\<lambda>app body w. (0, (app, body) # w)" and w = "[]" and w' = "[([97], [104, 105])]", unfolded l n, unfolded b]
  show ?thesis by (rule m) simp_all
qed

end
